(* ===== verification/Prelude.thy ===== *)
theory Prelude
  imports Main "HOL-Library.Word" "HOL-Library.Multiset"
begin

text \<open>
  Shared vocabulary of the development: the machine types of the crate, Rust control flow
  (results, panics and the unbounded \<open>loop\<close>), the little-endian coding of a \<open>u32\<close>, and the
  list facts that several components need.

  A Rust \<open>Result\<close> is a sum, \<open>Inl\<close> being \<open>Err\<close> and \<open>Inr\<close> being \<open>Ok\<close>. A call that may panic
  returns an \<open>outcome\<close>. A call that may not return at all is an \<open>option\<close> whose \<open>None\<close> is
  divergence. \<open>usize\<close> lengths are natural numbers: the crate only compares them, and the one
  narrowing cast it performs (\<open>as u32\<close>) is written out where it happens.
\<close>

unbundle bit_operations_syntax

named_theorems queue_simps \<open>facts about the outgoing queue that the socket proofs rewrite with\<close>
named_theorems codec_simps \<open>definitions of the crypto contexts, unfolded on concrete contexts\<close>

section \<open>Types\<close>

type_synonym byte = "8 word"
type_synonym u8 = "8 word"
type_synonym u16 = "16 word"
type_synonym u32 = "32 word"
type_synonym u64 = "64 word"
type_synonym i32 = "32 word"
type_synonym usize = nat

text \<open>A reading of the monotonic clock, in nanoseconds since an arbitrary origin.\<close>

type_synonym instant = nat

text \<open>\<open>timestamp.elapsed().as_secs()\<close>: whole seconds between a past reading and \<open>now\<close>.\<close>

definition elapsed_secs :: "instant \<Rightarrow> instant \<Rightarrow> nat" where
  "elapsed_secs now t = (now - t) div 1000000000"

lemma elapsed_secs_antimono: "t \<le> t' \<Longrightarrow> elapsed_secs now t' \<le> elapsed_secs now t"
  by (simp add: elapsed_secs_def div_le_mono)

section \<open>Panics\<close>

datatype 'a outcome = Panicked | Done 'a

text \<open>A panic ends everything that would have followed.\<close>

definition and_then :: "'a outcome \<Rightarrow> ('a \<Rightarrow> 'b outcome) \<Rightarrow> 'b outcome" where
  "and_then x k = (case x of Panicked \<Rightarrow> Panicked | Done a \<Rightarrow> k a)"

lemma and_then_simps [simp]:
  "and_then Panicked k = Panicked" "and_then (Done a) k = k a"
  by (simp_all add: and_then_def)

text \<open>Slices \<open>xs[..n]\<close> and \<open>xs[n..]\<close>: out of range they panic.\<close>

definition slice_to :: "nat \<Rightarrow> 'a list \<Rightarrow> 'a list outcome" where
  "slice_to n xs = (if n \<le> length xs then Done (take n xs) else Panicked)"

definition slice_from :: "nat \<Rightarrow> 'a list \<Rightarrow> 'a list outcome" where
  "slice_from n xs = (if n \<le> length xs then Done (drop n xs) else Panicked)"

lemma slice_in_range [simp]:
  "n \<le> length xs \<Longrightarrow> slice_to n xs = Done (take n xs)"
  "n \<le> length xs \<Longrightarrow> slice_from n xs = Done (drop n xs)"
  by (simp_all add: slice_to_def slice_from_def)

section \<open>The unbounded loop\<close>

text \<open>
  Rust's \<open>loop { .. }\<close>: the body either asks for another turn on a new state (\<open>Inl\<close>) or
  leaves with \<open>return\<close> (\<open>Inr\<close>). Nothing bounds the number of turns, so the result is an option,
  \<open>None\<close> when the loop runs for ever.
\<close>

partial_function (option) rust_loop :: "('s \<Rightarrow> 's + 'r) \<Rightarrow> 's \<Rightarrow> 'r option" where
  "rust_loop body s = (case body s of Inl s' \<Rightarrow> rust_loop body s' | Inr r \<Rightarrow> Some r)"

lemma rust_loop_Inl: "body s = Inl s' \<Longrightarrow> rust_loop body s = rust_loop body s'"
  by (simp add: rust_loop.simps [of body s])

lemma rust_loop_Inr: "body s = Inr r \<Longrightarrow> rust_loop body s = Some r"
  by (simp add: rust_loop.simps [of body s])

text \<open>Partial correctness: an invariant of the body holds when the loop is left.\<close>

lemma rust_loop_rule:
  assumes ret: "rust_loop body s = Some r"
    and init: "P s"
    and keep: "\<And>s s'. P s \<Longrightarrow> body s = Inl s' \<Longrightarrow> P s'"
    and exit: "\<And>s r. P s \<Longrightarrow> body s = Inr r \<Longrightarrow> Q r"
  shows "Q r"
proof -
  have "body = body \<longrightarrow> P s \<longrightarrow> Q r"
  proof (rule rust_loop.raw_induct [where P = "\<lambda>b s r. b = body \<longrightarrow> P s \<longrightarrow> Q r", OF _ ret])
    fix loop b s r
    assume IH: "\<And>b s r. loop b s = Some r \<Longrightarrow> b = body \<longrightarrow> P s \<longrightarrow> Q r"
      and eq: "(case b s of Inl s' \<Rightarrow> loop b s' | Inr r \<Rightarrow> Some r) = Some r"
    show "b = body \<longrightarrow> P s \<longrightarrow> Q r"
    proof (intro impI)
      assume b: "b = body" and "P s"
      show "Q r"
      proof (cases "body s")
        case (Inl s')
        with eq b have "loop body s' = Some r" by simp
        moreover have "P s'" using \<open>P s\<close> Inl by (rule keep)
        ultimately show ?thesis using IH by blast
      next
        case (Inr r')
        with eq b \<open>P s\<close> show ?thesis by (auto dest: exit)
      qed
    qed
  qed
  with init show ?thesis by simp
qed

text \<open>What no turn changes, the loop does not change. The second form is for loops that may panic.\<close>

lemma rust_loop_keeps:
  assumes "rust_loop body s = Some (r, s')"
    and "\<And>s s'. body s = Inl s' \<Longrightarrow> f s' = f s"
    and "\<And>s r s'. body s = Inr (r, s') \<Longrightarrow> g s' = f s"
  shows "g s' = f s"
proof -
  have "\<forall>r s'. out = (r, s') \<longrightarrow> g s' = f s" if "rust_loop body s = Some out" for out
    by (rule rust_loop_rule [OF that, where P = "\<lambda>t. f t = f s"]) (use assms(2,3) in fastforce)+
  with assms(1) show ?thesis by blast
qed

lemma rust_loop_keeps_done:
  assumes "rust_loop body s = Some (Done (r, s'))"
    and "\<And>s s'. body s = Inl s' \<Longrightarrow> f s' = f s"
    and "\<And>s r s'. body s = Inr (Done (r, s')) \<Longrightarrow> f s' = f s"
  shows "f s' = f s"
proof -
  have "\<forall>r s'. out = Done (r, s') \<longrightarrow> f s' = f s" if "rust_loop body s = Some out" for out
    by (rule rust_loop_rule [OF that, where P = "\<lambda>t. f t = f s"]) (use assms(2,3) in fastforce)+
  with assms(1) show ?thesis by blast
qed

text \<open>
  A body that may panic but, on the states of an invariant, does what a total body does: its loop
  does what the total loop does, divergence included.
\<close>

lemma rust_loop_lift:
  assumes init: "P s0"
    and keep: "\<And>s s'. P s \<Longrightarrow> body s = Inl s' \<Longrightarrow> P s'"
    and same: "\<And>s. P s \<Longrightarrow> body' s = map_sum id Done (body s)"
  shows "rust_loop body' s0 = map_option Done (rust_loop body s0)"
proof -
  have 1: "rust_loop body' s0 = Some (Done r)" if "rust_loop body s0 = Some r" for r
    by (rule rust_loop_rule [OF that, where P = "\<lambda>s. P s \<and> rust_loop body' s0 = rust_loop body' s"])
      (auto simp: init keep same rust_loop_Inl rust_loop_Inr)
  have 2: "\<exists>r. rust_loop body s0 = Some r" if "rust_loop body' s0 = Some r'" for r'
  proof (rule rust_loop_rule [OF that, where P = "\<lambda>s. P s \<and> rust_loop body s0 = rust_loop body s"])
    show "P s0 \<and> rust_loop body s0 = rust_loop body s0" by (simp add: init)
  next
    fix s s' assume s: "P s \<and> rust_loop body s0 = rust_loop body s" and t: "body' s = Inl s'"
    with same [of s] have "body s = Inl s'" by (cases "body s") simp_all
    with s show "P s' \<and> rust_loop body s0 = rust_loop body s'" by (auto simp: rust_loop_Inl dest: keep)
  next
    fix s r assume s: "P s \<and> rust_loop body s0 = rust_loop body s" and t: "body' s = Inr r"
    with same [of s] obtain x where "body s = Inr x" by (cases "body s") simp_all
    with s show "\<exists>r. rust_loop body s0 = Some r" by (simp add: rust_loop_Inr)
  qed
  show ?thesis
  proof (cases "rust_loop body s0")
    case None
    with 2 show ?thesis by (cases "rust_loop body' s0") auto
  qed (simp add: 1)
qed

text \<open>Total correctness: with a measure that every turn lowers, the loop is left.\<close>

lemma rust_loop_total:
  fixes m :: "'s \<Rightarrow> nat"
  assumes "P s"
    and keep: "\<And>s s'. P s \<Longrightarrow> body s = Inl s' \<Longrightarrow> P s' \<and> m s' < m s"
    and exit: "\<And>s r. P s \<Longrightarrow> body s = Inr r \<Longrightarrow> Q r"
  shows "\<exists>r. rust_loop body s = Some r \<and> Q r"
  using \<open>P s\<close>
proof (induction "m s" arbitrary: s rule: less_induct)
  case less
  show ?case
  proof (cases "body s")
    case (Inl s')
    with less.prems have "P s' \<and> m s' < m s" by (rule keep)
    with less.hyps [of s'] Inl show ?thesis by (simp add: rust_loop_Inl)
  next
    case (Inr r)
    with less.prems show ?thesis by (auto simp: rust_loop_Inr dest: exit)
  qed
qed

text \<open>Divergence: a set of states that the body never leaves.\<close>

lemma rust_loop_diverges:
  assumes "P s" and keep: "\<And>s. P s \<Longrightarrow> \<exists>s'. body s = Inl s' \<and> P s'"
  shows "rust_loop body s = None"
proof (rule ccontr)
  assume "rust_loop body s \<noteq> None"
  then obtain r where "rust_loop body s = Some r" by blast
  then have False
    by (rule rust_loop_rule [where P = P and Q = "\<lambda>_. False"]) (use assms in fastforce)+
  then show False .
qed

section \<open>Little-endian \<open>u32\<close>\<close>

definition le32_encode :: "u32 \<Rightarrow> byte list" where
  "le32_encode w = [ucast w, ucast (drop_bit 8 w), ucast (drop_bit 16 w), ucast (drop_bit 24 w)]"

fun le32_decode :: "byte list \<Rightarrow> u32 option" where
  "le32_decode (a # b # c # d # _) =
     Some (ucast a OR push_bit 8 (ucast b) OR push_bit 16 (ucast c) OR push_bit 24 (ucast d))"
| "le32_decode _ = None"

lemma length_le32_encode [simp]: "length (le32_encode w) = 4"
  by (simp add: le32_encode_def)

lemma le32_roundtrip [simp]: "le32_decode (le32_encode w @ rest) = Some w"
proof -
  have "ucast (ucast w :: 8 word) OR push_bit 8 (ucast (ucast (drop_bit 8 w) :: 8 word))
      OR push_bit 16 (ucast (ucast (drop_bit 16 w) :: 8 word))
      OR push_bit 24 (ucast (ucast (drop_bit 24 w) :: 8 word)) = w"
    proof (rule bit_word_eqI)
    fix n assume "n < LENGTH(32)"
    then have "n < 8 \<or> 8 \<le> n \<and> n < 16 \<or> 16 \<le> n \<and> n < 24 \<or> 24 \<le> n \<and> n < 32"
      by auto
    then show "bit ((ucast (ucast w :: 8 word) OR push_bit 8 (ucast (ucast (drop_bit 8 w) :: 8 word))
      OR push_bit 16 (ucast (ucast (drop_bit 16 w) :: 8 word))
      OR push_bit 24 (ucast (ucast (drop_bit 24 w) :: 8 word))) :: u32) n = bit w n"
      by (elim disjE conjE) (simp_all add: bit_simps, arith+)
  qed
  then show ?thesis by (simp add: le32_encode_def)
qed

section \<open>Lists\<close>

lemma filter_le_gt_sorted:
  fixes f :: "'x \<Rightarrow> 'p::linorder"
  shows "sorted (map f v) \<Longrightarrow> filter (\<lambda>x. f x \<le> p) v @ filter (\<lambda>x. p < f x) v = v"
proof (induction v)
  case (Cons x v)
  have "filter (\<lambda>y. f y \<le> p) v = []" "filter (\<lambda>y. p < f y) v = v" if "p < f x"
    using Cons.prems that by (fastforce simp: filter_empty_conv filter_id_conv)+
  with Cons show ?case
    by (cases "f x \<le> p") (auto simp: not_le)
qed simp

lemma concat_singletons [simp]: "concat (map (\<lambda>x. [f x]) xs) = map f xs"
  by (induction xs) simp_all

lemma map_of_filter_key:
  "map_of (filter (\<lambda>e. P (fst e)) es) k = (if P k then map_of es k else None)"
  by (induction es) auto

section \<open>Fair descent\<close>

text \<open>A quantity that never grows, and again and again is lowered or zero, is zero from some point on.\<close>

lemma fair_descent:
  fixes W :: "nat \<Rightarrow> nat"
  assumes step: "\<And>n. W (Suc n) \<le> W n"
    and fair: "\<And>m. \<exists>n\<ge>m. W n = 0 \<or> W (Suc n) < W n"
  shows "\<exists>N. \<forall>n\<ge>N. W n = 0"
proof -
  have anti: "m \<le> n \<Longrightarrow> W n \<le> W m" for m n
    using step by (rule lift_Suc_antimono_le)
  have "\<exists>N. W N = 0" if "W m = k" for m k
    using that
  proof (induction k arbitrary: m rule: less_induct)
    case (less k)
    from fair obtain n where n: "m \<le> n" "W n = 0 \<or> W (Suc n) < W n" by blast
    from n(2) show ?case
    proof
      assume "W (Suc n) < W n"
      with anti [OF n(1)] less.prems have "W (Suc n) < k" by simp
      from less.IH [OF this refl] show ?thesis .
    qed blast
  qed
  then obtain N where "W N = 0" by blast
  with anti [of N] show ?thesis by (metis le_zero_eq)
qed

end
