(* ===== verification/Errors.thy ===== *)
theory Errors
  imports Prelude
begin

text \<open>
  \<open>src/src/error.rs\<close>: the error type of the crate, its texts, and the part of
  \<open>std::io::Error\<close> that the sockets inspect (its kind). The errors of the serialisation and
  crypto libraries are carried as opaque texts.
\<close>

datatype ErrorKind =
    NotFound | PermissionDenied | ConnectionRefused | ConnectionReset | ConnectionAborted
  | NotConnected | AddrInUse | AddrNotAvailable | BrokenPipe | AlreadyExists | WouldBlock
  | InvalidInput | InvalidData | TimedOut | WriteZero | Interrupted | OtherKind | UnexpectedEof

datatype io_error = IoError (kind: ErrorKind) (io_text: string)

datatype SerialisationError = SerialisationError (ser_text: string)

datatype CryptoError = CryptoError (crypto_text: string)

record UdtError =
  err_msg :: string

datatype SocketError =
    Io io_error
  | UninitialisedSocket
  | PayloadSizeProhibitive
  | Serialisation SerialisationError
  | ZeroByteRead
  | Udt UdtError
  | UnconnectedUdpSocket
  | NoUdtEpoll
  | UdtNegativeBytesRead i32
  | UdtNegativeBytesWrite i32
  | Crypto CryptoError

type_synonym 'a res = "SocketError + 'a"

text \<open>The condition the sockets test before giving up on an I/O error.\<close>

definition is_would_block :: "io_error \<Rightarrow> bool" where
  "is_would_block e \<longleftrightarrow> kind e = WouldBlock \<or> kind e = Interrupted"

section \<open>Texts\<close>

text \<open>Decimal rendering of a number, as \<open>{}\<close> prints it.\<close>

fun show_nat :: "nat \<Rightarrow> string" where
  "show_nat n =
     (if n < 10 then [char_of (48 + n)] else show_nat (n div 10) @ [char_of (48 + n mod 10)])"

declare show_nat.simps [simp del]

definition show_i32 :: "i32 \<Rightarrow> string" where
  "show_i32 w =
     (if sint w < 0 then ''-'' @ show_nat (nat (- sint w)) else show_nat (nat (sint w)))"

fun description :: "SocketError \<Rightarrow> string" where
  "description (Io e) = io_text e"
| "description UninitialisedSocket = ''Socket is uninitialised and invalid for any operation''"
| "description PayloadSizeProhibitive = ''Payload is too large''"
| "description (Serialisation e) = ser_text e"
| "description ZeroByteRead = ''Read zero bytes from the socket - indicates EOF''"
| "description (Udt e) = err_msg e"
| "description UnconnectedUdpSocket = ''UDP Socket is not connected''"
| "description NoUdtEpoll = ''No UDT Epoll while registering/deregistering''"
| "description (UdtNegativeBytesRead val) =
     ''UDT Read has resulted in a negative result. This is an error value.''"
| "description (UdtNegativeBytesWrite val) =
     ''UDT Write has resulted in a negative result. This is an error value.''"
| "description (Crypto e) = ''Crypto''"

text \<open>A variant with no \<open>display\<close> clause is displayed as its description.\<close>

fun display :: "SocketError \<Rightarrow> string" where
  "display (Io e) = ''Io error: '' @ io_text e"
| "display (Serialisation e) = ''Serialisation error: '' @ ser_text e"
| "display (Udt e) = ''Udt error: '' @ err_msg e"
| "display (UdtNegativeBytesRead val) =
     ''UDT Read has resulted in a negative result. This is an error value: '' @ show_i32 val"
| "display (UdtNegativeBytesWrite val) =
     ''UDT Write has resulted in a negative result. This is an error value: '' @ show_i32 val"
| "display (Crypto e) = ''Crypto related error: '' @ crypto_text e"
| "display e = description e"

text \<open>\<open>io::Error::new(ErrorKind::Other, format!("{}", SocketError::UninitialisedSocket))\<close>.\<close>

definition uninitialised_io_error :: io_error where
  "uninitialised_io_error = IoError OtherKind (display UninitialisedSocket)"

section \<open>The \<open>?\<close> operator\<close>

text \<open>
  \<open>e?\<close> leaves the function with the error converted by \<open>From\<close>, or goes on with the value.
\<close>

definition try_op :: "('e \<Rightarrow> SocketError) \<Rightarrow> 'e + 'a \<Rightarrow> ('a \<Rightarrow> 'b res) \<Rightarrow> 'b res" where
  "try_op conv r k = (case r of Inl e \<Rightarrow> Inl (conv e) | Inr x \<Rightarrow> k x)"

lemma try_op_simps [simp]:
  "try_op conv (Inl e) k = Inl (conv e)"
  "try_op conv (Inr x) k = k x"
  by (simp_all add: try_op_def)

lemma try_op_eq_Inr: "try_op conv r k = Inr y \<longleftrightarrow> (\<exists>x. r = Inr x \<and> k x = Inr y)"
  by (cases r) auto

end
