(* ===== verification/Crypto_Ctx.thy ===== *)
theory Crypto_Ctx
  imports Errors
begin

text \<open>
  \<open>src/src/crypto.rs\<close>: the encryption and decryption contexts.

  Serialisation (\<open>maidsafe_utilities\<close>, bincode) and encryption (\<open>safe_crypto\<close>) are not part of
  the repository. They are the parameter \<open>codec\<close> of the definitions, one codec per Rust type that
  a generic function is used at: the \<open>u32\<close> of a frame header and the message type. Encryption
  draws random nonces, so it takes the position \<open>rng\<close> in the generator's output. The three opaque
  key types are the one type variable \<open>'k\<close>.
\<close>

record ('k, 'm) codec =
  serialise :: "'m \<Rightarrow> SerialisationError + byte list"
  deserialise :: "byte list \<Rightarrow> SerialisationError + 'm"
  shared_encrypt :: "'k \<Rightarrow> nat \<Rightarrow> 'm \<Rightarrow> CryptoError + byte list"
  shared_decrypt :: "'k \<Rightarrow> byte list \<Rightarrow> CryptoError + 'm"
  anonymously_encrypt :: "'k \<Rightarrow> nat \<Rightarrow> 'm \<Rightarrow> CryptoError + byte list"
  anonymously_decrypt :: "'k \<Rightarrow> byte list \<Rightarrow> 'k \<Rightarrow> CryptoError + 'm"

definition ENCRYPTED_U32_LEN :: usize where
  "ENCRYPTED_U32_LEN = 52"

definition SERIALIZED_U32_LEN :: usize where
  "SERIALIZED_U32_LEN = 4"

section \<open>Encryption\<close>

datatype 'k EncryptContext =
    Null
  | Authenticated (shared_key: 'k)
  | AnonymousEncrypt (their_pk: 'k)

definition EncryptContext_null :: "'k EncryptContext" where
  "EncryptContext_null = EncryptContext.Null"

definition EncryptContext_authenticated :: "'k \<Rightarrow> 'k EncryptContext" where
  "EncryptContext_authenticated k = EncryptContext.Authenticated k"

definition EncryptContext_anonymous_encrypt :: "'k \<Rightarrow> 'k EncryptContext" where
  "EncryptContext_anonymous_encrypt pk = AnonymousEncrypt pk"

definition EncryptContext_default :: "'k EncryptContext" where
  "EncryptContext_default = EncryptContext_null"

definition encrypt :: "('k, 'm) codec \<Rightarrow> nat \<Rightarrow> 'k EncryptContext \<Rightarrow> 'm \<Rightarrow> byte list res" where
  "encrypt cd rng ctx msg =
     (case ctx of
        EncryptContext.Null \<Rightarrow> try_op Serialisation (serialise cd msg) Inr
      | EncryptContext.Authenticated k \<Rightarrow> try_op Crypto (shared_encrypt cd k rng msg) Inr
      | AnonymousEncrypt pk \<Rightarrow> try_op Crypto (anonymously_encrypt cd pk rng msg) Inr)"

definition enc_size_len :: "'k EncryptContext \<Rightarrow> usize" where
  "enc_size_len ctx =
     (case ctx of
        EncryptContext.Null \<Rightarrow> SERIALIZED_U32_LEN
      | EncryptContext.Authenticated _ \<Rightarrow> ENCRYPTED_U32_LEN
      | AnonymousEncrypt _ \<Rightarrow> ENCRYPTED_U32_LEN)"

section \<open>Decryption\<close>

datatype 'k DecryptContext =
    Null
  | Authenticated (shared_key: 'k)
  | AnonymousDecrypt (our_pk: 'k) (our_sk: 'k)

definition DecryptContext_null :: "'k DecryptContext" where
  "DecryptContext_null = DecryptContext.Null"

definition DecryptContext_authenticated :: "'k \<Rightarrow> 'k DecryptContext" where
  "DecryptContext_authenticated k = DecryptContext.Authenticated k"

definition DecryptContext_anonymous_decrypt :: "'k \<Rightarrow> 'k \<Rightarrow> 'k DecryptContext" where
  "DecryptContext_anonymous_decrypt pk sk = AnonymousDecrypt pk sk"

definition DecryptContext_default :: "'k DecryptContext" where
  "DecryptContext_default = DecryptContext_null"

lemmas context_ctor_defs =
  EncryptContext_null_def EncryptContext_authenticated_def EncryptContext_anonymous_encrypt_def
  EncryptContext_default_def DecryptContext_null_def DecryptContext_authenticated_def
  DecryptContext_anonymous_decrypt_def DecryptContext_default_def

definition decrypt :: "('k, 'm) codec \<Rightarrow> 'k DecryptContext \<Rightarrow> byte list \<Rightarrow> 'm res" where
  "decrypt cd ctx msg =
     (case ctx of
        DecryptContext.Null \<Rightarrow> try_op Serialisation (deserialise cd msg) Inr
      | DecryptContext.Authenticated k \<Rightarrow> try_op Crypto (shared_decrypt cd k msg) Inr
      | AnonymousDecrypt pk sk \<Rightarrow> try_op Crypto (anonymously_decrypt cd sk msg pk) Inr)"

definition dec_size_len :: "'k DecryptContext \<Rightarrow> usize" where
  "dec_size_len ctx =
     (case ctx of
        DecryptContext.Null \<Rightarrow> SERIALIZED_U32_LEN
      | DecryptContext.Authenticated _ \<Rightarrow> ENCRYPTED_U32_LEN
      | AnonymousDecrypt _ _ \<Rightarrow> ENCRYPTED_U32_LEN)"

lemmas size_len_defs =
  enc_size_len_def dec_size_len_def SERIALIZED_U32_LEN_def ENCRYPTED_U32_LEN_def

lemma dec_size_len_pos: "0 < dec_size_len ctx"
  by (simp add: size_len_defs split: DecryptContext.split)

section \<open>What the code relies on\<close>

text \<open>
  Documented behaviour of the two libraries. \<open>keypair pk sk\<close> says that the two keys were
  generated together. Reading back what was written gives the value that was written.
\<close>

definition codec_contract :: "('k \<Rightarrow> 'k \<Rightarrow> bool) \<Rightarrow> ('k, 'm) codec \<Rightarrow> bool" where
  "codec_contract keypair cd \<longleftrightarrow>
     (\<forall>m bs. serialise cd m = Inr bs \<longrightarrow> deserialise cd bs = Inr m) \<and>
     (\<forall>k rng m bs. shared_encrypt cd k rng m = Inr bs \<longrightarrow> shared_decrypt cd k bs = Inr m) \<and>
     (\<forall>pk sk rng m bs. keypair pk sk \<longrightarrow> anonymously_encrypt cd pk rng m = Inr bs \<longrightarrow>
        anonymously_decrypt cd sk bs pk = Inr m)"

text \<open>
  Lengths, as the two libraries fix them: bincode writes a \<open>u32\<close> in 4 bytes. \<open>safe_crypto\<close> serialises a
  value with bincode before it encrypts the bytes; a shared secret puts in front of them a nonce of 24
  bytes and the length of the ciphertext in 8, and a message authentication code of 16; a sealed box
  adds the sender's ephemeral key of 32 bytes and a code of 16. The constants of \<open>crypto.rs\<close> do not
  occur here: that they are the sums of these lengths is what has to be proved.
\<close>

definition header_contract :: "('k, u32) codec \<Rightarrow> bool" where
  "header_contract hc \<longleftrightarrow>
     (\<forall>w bs. serialise hc w = Inr bs \<longrightarrow> length bs = 4) \<and>
     (\<forall>k rng w c. shared_encrypt hc k rng w = Inr c \<longrightarrow>
        (\<exists>bs. serialise hc w = Inr bs \<and> length c = 24 + 8 + (length bs + 16))) \<and>
     (\<forall>pk rng w c. anonymously_encrypt hc pk rng w = Inr c \<longrightarrow>
        (\<exists>bs. serialise hc w = Inr bs \<and> length c = 32 + (length bs + 16)))"

text \<open>The contexts of the two ends of a connection fit together.\<close>

fun contexts_match :: "('k \<Rightarrow> 'k \<Rightarrow> bool) \<Rightarrow> 'k EncryptContext \<Rightarrow> 'k DecryptContext \<Rightarrow> bool" where
  "contexts_match keypair EncryptContext.Null DecryptContext.Null = True"
| "contexts_match keypair (EncryptContext.Authenticated k) (DecryptContext.Authenticated k') = (k = k')"
| "contexts_match keypair (AnonymousEncrypt pk) (AnonymousDecrypt pk' sk) =
     (pk = pk' \<and> keypair pk sk)"
| "contexts_match keypair _ _ = False"

lemma contexts_match_size_len:
  "contexts_match keypair e d \<Longrightarrow> enc_size_len e = dec_size_len d"
  by (cases "(keypair, e, d)" rule: contexts_match.cases) (simp_all add: size_len_defs)

lemma encrypt_decrypt:
  assumes "codec_contract keypair cd" and "contexts_match keypair e d"
    and "encrypt cd rng e m = Inr bs"
  shows "decrypt cd d bs = Inr m"
  using assms
  by (cases "(keypair, e, d)" rule: contexts_match.cases)
    (auto simp: encrypt_def decrypt_def codec_contract_def try_op_eq_Inr)

text \<open>The constants are right: a header has the length that the size functions announce.\<close>

lemma encrypted_header_length:
  assumes "header_contract hc" and "encrypt hc rng e w = Inr bs"
  shows "length bs = enc_size_len e"
  using assms
  by (cases e) (fastforce simp: encrypt_def header_contract_def size_len_defs try_op_eq_Inr)+

section \<open>Concrete codecs\<close>

text \<open>
  Instances on which theorems are evaluated: little-endian headers as bincode writes them, byte
  strings as they are, and a stand-in cipher that appends a pad made from the key.
\<close>

definition pad :: "nat \<Rightarrow> byte list" where
  "pad k = replicate 48 (of_nat k)"

definition unpad :: "nat \<Rightarrow> byte list \<Rightarrow> CryptoError + byte list" where
  "unpad k bs =
     (if 48 \<le> length bs \<and> drop (length bs - 48) bs = pad k then Inr (take (length bs - 48) bs)
      else Inl (CryptoError ''decrypt''))"

definition read_le32 :: "byte list \<Rightarrow> 'e \<Rightarrow> 'e + u32" where
  "read_le32 bs e = (case le32_decode bs of None \<Rightarrow> Inl e | Some w \<Rightarrow> Inr w)"

definition le32_codec :: "(nat, u32) codec" where
  "le32_codec = \<lparr>
     serialise = (\<lambda>w. Inr (le32_encode w)),
     deserialise = (\<lambda>bs. read_le32 bs (SerialisationError ''eof'')),
     shared_encrypt = (\<lambda>k rng w. Inr (le32_encode w @ pad k)),
     shared_decrypt = (\<lambda>k bs. case unpad k bs of Inl e \<Rightarrow> Inl e | Inr b \<Rightarrow> read_le32 b (CryptoError ''eof'')),
     anonymously_encrypt = (\<lambda>pk rng w. Inr (le32_encode w @ pad pk)),
     anonymously_decrypt = (\<lambda>sk bs pk. case unpad pk bs of Inl e \<Rightarrow> Inl e | Inr b \<Rightarrow> read_le32 b (CryptoError ''eof'')) \<rparr>"

definition bytes_codec :: "(nat, byte list) codec" where
  "bytes_codec = \<lparr>
     serialise = (\<lambda>m. Inr m),
     deserialise = (\<lambda>bs. Inr bs),
     shared_encrypt = (\<lambda>k rng m. Inr (m @ pad k)),
     shared_decrypt = unpad,
     anonymously_encrypt = (\<lambda>pk rng m. Inr (m @ pad pk)),
     anonymously_decrypt = (\<lambda>sk bs pk. unpad pk bs) \<rparr>"

lemma unpad_pad [simp]: "unpad k (bs @ pad k) = Inr bs"
  by (simp add: unpad_def pad_def)

lemma read_le32_encode [simp]: "read_le32 (le32_encode w) e = Inr w"
  using le32_roundtrip [of w "[]"] by (simp add: read_le32_def)

lemma le32_codec_contract: "codec_contract keypair le32_codec"
  by (simp add: codec_contract_def le32_codec_def)

lemma bytes_codec_contract: "codec_contract keypair bytes_codec"
  by (simp add: codec_contract_def bytes_codec_def)

lemma le32_codec_header: "header_contract le32_codec"
  by (simp add: header_contract_def le32_codec_def size_len_defs pad_def)

lemmas sample_contracts = le32_codec_contract bytes_codec_contract le32_codec_header

lemmas sample_evals [codec_simps] =
  encrypt_def decrypt_def size_len_defs le32_codec_def bytes_codec_def read_le32_def
  le32_encode_def

section \<open>Properties\<close>

text \<open>
  A frame header encrypted by one end has exactly the length the other end expects of it, as
  the comment on \<open>DecryptContext::encrypted_size_len\<close> demands: the two size functions agree on
  matching contexts and name the true length of an encrypted \<open>u32\<close>.
\<close>

theorem header_length_agrees:
  assumes "header_contract hc" and "contexts_match keypair e d"
    and "encrypt hc rng e w = Inr bs"
  shows "length bs = dec_size_len d \<and> enc_size_len e = dec_size_len d"
  using assms by (simp add: encrypted_header_length contexts_match_size_len)

theorem header_length_agrees_witness:
  "length (le32_encode 5 @ pad 3) = dec_size_len (AnonymousDecrypt 3 (9::nat)) \<and>
     enc_size_len (AnonymousEncrypt (3::nat)) = dec_size_len (AnonymousDecrypt 3 (9::nat))"
  by (rule header_length_agrees [OF le32_codec_header, where keypair = "\<lambda>pk sk. True" and rng = 0 and w = 5])
    (simp_all add: encrypt_def le32_codec_def)

end
