(* ===== verification/Config.thy ===== *)
theory Config
  imports Crypto_Ctx
begin

text \<open>\<open>src/src/lib.rs\<close>: priorities, the default limits and \<open>SocketConfig\<close>.\<close>

type_synonym Priority = u8

definition DEFAULT_MAX_PAYLOAD_SIZE :: usize where
  "DEFAULT_MAX_PAYLOAD_SIZE = 2 * 1024 * 1024"

definition DEFAULT_MSG_DROP_PRIORITY :: u8 where
  "DEFAULT_MSG_DROP_PRIORITY = 2"

definition DEFAULT_MAX_MSG_AGE_SECS :: u64 where
  "DEFAULT_MAX_MSG_AGE_SECS = 60"

record 'k SocketConfig =
  conf_max_payload_size :: usize
  conf_msg_drop_priority :: u8
  conf_max_msg_age_secs :: u64
  conf_enc_ctx :: "'k EncryptContext"
  conf_dec_ctx :: "'k DecryptContext"

definition SocketConfig_default :: "'k SocketConfig" where
  "SocketConfig_default = \<lparr>
     conf_max_payload_size = DEFAULT_MAX_PAYLOAD_SIZE,
     conf_msg_drop_priority = DEFAULT_MSG_DROP_PRIORITY,
     conf_max_msg_age_secs = DEFAULT_MAX_MSG_AGE_SECS,
     conf_enc_ctx = EncryptContext_default,
     conf_dec_ctx = DecryptContext_default \<rparr>"

lemmas config_defaults =
  SocketConfig_default_def DEFAULT_MAX_PAYLOAD_SIZE_def DEFAULT_MSG_DROP_PRIORITY_def
  DEFAULT_MAX_MSG_AGE_SECS_def context_ctor_defs

end
