(* ===== verification/Len_Reader.thy ===== *)
theory Len_Reader
  imports Config
begin

text \<open>
  \<open>src/src/tcp.rs\<close>, lines 395 to 471: length-delimited frames. \<open>serialize_with_len\<close> builds a frame,
  a header holding the encrypted length followed by the encrypted message, and
  \<open>LenDelimitedReader\<close> takes frames out of a byte stream that arrives in arbitrary pieces.

  What the reader does with any stream, well formed or not, is specified in \<open>Stream_Parser\<close>.
\<close>

section \<open>Writing a frame\<close>

text \<open>
  The header is encrypted after the body, hence the generator position \<open>Suc rng\<close>. The length cast
  \<open>as u32\<close> wraps.
\<close>

definition serialize_with_len ::
  "('k, u32) codec \<Rightarrow> ('k, 'm) codec \<Rightarrow> nat \<Rightarrow> 'm \<Rightarrow> 'k EncryptContext \<Rightarrow> byte list res" where
  "serialize_with_len hc mc rng value enc_ctx =
     try_op id (encrypt mc rng enc_ctx value) (\<lambda>encrypted_data.
     try_op id (encrypt hc (Suc rng) enc_ctx (of_nat (length encrypted_data))) (\<lambda>encrypted_len.
     Inr (encrypted_len @ encrypted_data)))"

section \<open>Reading frames\<close>

record 'k LenDelimitedReader =
  read_buffer :: "byte list"
  read_len :: usize
  max_payload_size :: usize
  dec_ctx :: "'k DecryptContext"

definition LenDelimitedReader_new :: "usize \<Rightarrow> 'k LenDelimitedReader" where
  "LenDelimitedReader_new n =
     \<lparr> read_buffer = [], read_len = 0, max_payload_size = n, dec_ctx = DecryptContext_default \<rparr>"

definition put_buf :: "byte list \<Rightarrow> 'k LenDelimitedReader \<Rightarrow> 'k LenDelimitedReader" where
  "put_buf buf rd = rd\<lparr> read_buffer := read_buffer rd @ buf \<rparr>"

text \<open>
  \<open>read_len\<close> is assigned before it is checked: it stays set when the check fails. The slices panic
  when the buffer is too short for them.
\<close>

definition try_read_header ::
  "('k, u32) codec \<Rightarrow> 'k LenDelimitedReader \<Rightarrow> (bool res \<times> 'k LenDelimitedReader) outcome" where
  "try_read_header hc rd =
     (let n = dec_size_len (dec_ctx rd) in
      if length (read_buffer rd) < n then Done (Inr False, rd)
      else
        and_then (slice_to n (read_buffer rd)) (\<lambda>data.
        (case decrypt hc (dec_ctx rd) data of
           Inl e \<Rightarrow> Done (Inl e, rd)
         | Inr data_len \<Rightarrow>
             let rd = rd\<lparr> read_len := unat data_len \<rparr> in
             if max_payload_size rd < read_len rd then Done (Inl PayloadSizeProhibitive, rd)
             else
               and_then (slice_from n (read_buffer rd)) (\<lambda>left.
                 let rd = rd\<lparr> read_buffer := left \<rparr> in
                 Done (Inr (0 < read_len rd), rd)))))"

definition mark_read :: "'k LenDelimitedReader \<Rightarrow> 'k LenDelimitedReader outcome" where
  "mark_read rd =
     and_then (slice_from (read_len rd) (read_buffer rd)) (\<lambda>left.
       Done (rd\<lparr> read_buffer := left, read_len := 0 \<rparr>))"

definition try_read ::
  "('k, u32) codec \<Rightarrow> ('k, 'm) codec \<Rightarrow> 'k LenDelimitedReader \<Rightarrow>
     ('m option res \<times> 'k LenDelimitedReader) outcome" where
  "try_read hc mc rd =
     and_then (if read_len rd = 0 then try_read_header hc rd else Done (Inr True, rd)) (\<lambda>(header, rd).
       (case header of
          Inl e \<Rightarrow> Done (Inl e, rd)
        | Inr False \<Rightarrow> Done (Inr None, rd)
        | Inr True \<Rightarrow>
            if length (read_buffer rd) < read_len rd then Done (Inr None, rd)
            else
              and_then (slice_to (read_len rd) (read_buffer rd)) (\<lambda>data.
              (case decrypt mc (dec_ctx rd) data of
                 Inl e \<Rightarrow> Done (Inl e, rd)
               | Inr result \<Rightarrow> and_then (mark_read rd) (\<lambda>rd. Done (Inr (Some result), rd))))))"

subsection \<open>The slices are in range\<close>

text \<open>
  What the operations do when no slice is out of range. The two guards of the code see to that:
  the operations are these total functions, and never panic.
\<close>

definition try_read_header_pure ::
  "('k, u32) codec \<Rightarrow> 'k LenDelimitedReader \<Rightarrow> bool res \<times> 'k LenDelimitedReader" where
  "try_read_header_pure hc rd =
     (let n = dec_size_len (dec_ctx rd) in
      if length (read_buffer rd) < n then (Inr False, rd)
      else
        (case decrypt hc (dec_ctx rd) (take n (read_buffer rd)) of
           Inl e \<Rightarrow> (Inl e, rd)
         | Inr data_len \<Rightarrow>
             let rd = rd\<lparr> read_len := unat data_len \<rparr> in
             if max_payload_size rd < read_len rd then (Inl PayloadSizeProhibitive, rd)
             else
               let rd = rd\<lparr> read_buffer := drop n (read_buffer rd) \<rparr> in
               (Inr (0 < read_len rd), rd)))"

definition mark_read_pure :: "'k LenDelimitedReader \<Rightarrow> 'k LenDelimitedReader" where
  "mark_read_pure rd = rd\<lparr> read_buffer := drop (read_len rd) (read_buffer rd), read_len := 0 \<rparr>"

definition try_read_pure ::
  "('k, u32) codec \<Rightarrow> ('k, 'm) codec \<Rightarrow> 'k LenDelimitedReader \<Rightarrow>
     'm option res \<times> 'k LenDelimitedReader" where
  "try_read_pure hc mc rd =
     (case (if read_len rd = 0 then try_read_header_pure hc rd else (Inr True, rd)) of
        (Inl e, rd) \<Rightarrow> (Inl e, rd)
      | (Inr False, rd) \<Rightarrow> (Inr None, rd)
      | (Inr True, rd) \<Rightarrow>
          if length (read_buffer rd) < read_len rd then (Inr None, rd)
          else
            (case decrypt mc (dec_ctx rd) (take (read_len rd) (read_buffer rd)) of
               Inl e \<Rightarrow> (Inl e, rd)
             | Inr result \<Rightarrow> (Inr (Some result), mark_read_pure rd)))"

lemma try_read_header_in_range: "try_read_header hc rd = Done (try_read_header_pure hc rd)"
  by (simp add: try_read_header_def try_read_header_pure_def Let_def split: sum.split)

lemma mark_read_in_range:
  "read_len rd \<le> length (read_buffer rd) \<Longrightarrow> mark_read rd = Done (mark_read_pure rd)"
  by (simp add: mark_read_def mark_read_pure_def)

lemma try_read_in_range [simp]: "try_read hc mc rd = Done (try_read_pure hc mc rd)"
  by (auto simp: try_read_def try_read_pure_def try_read_header_in_range mark_read_in_range
      split: prod.split sum.split bool.split)

lemmas reader_defs = try_read_header_pure_def mark_read_pure_def put_buf_def Let_def

section \<open>Frames of one connection\<close>

text \<open>
  The static setting of a connection: the two codecs, the two matching contexts and the reader's
  size limit. \<open>good_frame\<close> are the frames the reader can be expected to deliver: non-empty bodies
  within its limit, and short enough for a 32-bit length.
\<close>

definition linked ::
  "('k \<Rightarrow> 'k \<Rightarrow> bool) \<Rightarrow> ('k, u32) codec \<Rightarrow> ('k, 'm) codec \<Rightarrow> 'k EncryptContext \<Rightarrow>
     'k DecryptContext \<Rightarrow> bool" where
  "linked keypair hc mc e d \<longleftrightarrow>
     codec_contract keypair hc \<and> codec_contract keypair mc \<and> header_contract hc \<and>
     contexts_match keypair e d"

definition body_fits :: "usize \<Rightarrow> 'k EncryptContext \<Rightarrow> byte list \<Rightarrow> bool" where
  "body_fits limit e frame \<longleftrightarrow>
     enc_size_len e < length frame \<and> length frame - enc_size_len e \<le> limit \<and>
     length frame - enc_size_len e < 2 ^ 32"

lemma serialize_with_len_parts:
  assumes "linked keypair hc mc e d" and "serialize_with_len hc mc rng m e = Inr frame"
  obtains hdr body where "frame = hdr @ body" "length hdr = dec_size_len d"
    "decrypt hc d hdr = Inr (of_nat (length body))" "decrypt mc d body = Inr m"
    "enc_size_len e = dec_size_len d"
proof -
  from assms(2) obtain body hdr where
    body: "encrypt mc rng e m = Inr body" and
    hdr: "encrypt hc (Suc rng) e (of_nat (length body)) = Inr hdr" and frame: "frame = hdr @ body"
    by (auto simp: serialize_with_len_def try_op_eq_Inr)
  have same: "enc_size_len e = dec_size_len d"
    using assms(1) by (auto simp: linked_def contexts_match_size_len)
  show thesis
  proof (rule that [OF frame])
    show "length hdr = dec_size_len d"
      using assms(1) encrypted_header_length [OF _ hdr] same by (simp add: linked_def)
    show "decrypt hc d hdr = Inr (of_nat (length body))"
      using assms(1) hdr unfolding linked_def by (blast intro: encrypt_decrypt)
    show "decrypt mc d body = Inr m"
      using assms(1) body unfolding linked_def by (blast intro: encrypt_decrypt)
  qed (rule same)
qed

subsection \<open>One whole frame\<close>

lemma try_read_frame:
  assumes "linked keypair hc mc e (dec_ctx rd)"
    and "serialize_with_len hc mc rng m e = Inr frame"
    and "body_fits (max_payload_size rd) e frame"
    and "read_len rd = 0" and "read_buffer rd = frame @ rest"
  shows "try_read_pure hc mc rd = (Inr (Some m), rd\<lparr> read_buffer := rest \<rparr>)"
proof -
  from assms(1,2) obtain hdr body where frame: "frame = hdr @ body"
    and hdr: "length hdr = dec_size_len (dec_ctx rd)"
      "decrypt hc (dec_ctx rd) hdr = Inr (of_nat (length body))"
    and body: "decrypt mc (dec_ctx rd) body = Inr m"
    and same: "enc_size_len e = dec_size_len (dec_ctx rd)"
    by (rule serialize_with_len_parts)
  have "0 < length body" "length body \<le> max_payload_size rd" "length body < 2 ^ 32"
    using assms(3) by (simp_all add: body_fits_def frame hdr same)
  then have "unat (of_nat (length body) :: u32) = length body"
    by (simp add: unat_of_nat take_bit_nat_eq_self)
  with \<open>0 < length body\<close> \<open>length body \<le> max_payload_size rd\<close> show ?thesis
    using assms(4,5) hdr body
    by (cases rd) (simp add: try_read_pure_def reader_defs frame)
qed

subsection \<open>What is still unread\<close>

text \<open>
  \<open>unread n rd fs fut\<close>: after the bytes \<open>fut\<close> still to arrive, the reader will have seen exactly
  the frames \<open>fs\<close> from where it stands now. Either it is between frames, or it has consumed the
  header (of \<open>n\<close> bytes) of the first of them.
\<close>

fun unread :: "nat \<Rightarrow> 'k LenDelimitedReader \<Rightarrow> byte list list \<Rightarrow> byte list \<Rightarrow> bool" where
  "unread n rd [] fut \<longleftrightarrow> read_len rd = 0 \<and> read_buffer rd @ fut = []"
| "unread n rd (f # fs) fut \<longleftrightarrow>
     (read_len rd = 0 \<and> read_buffer rd @ fut = f @ concat fs) \<or>
     (n < length f \<and> read_len rd = length f - n \<and> read_buffer rd @ fut = drop n f @ concat fs)"

lemma unread_between:
  "read_len rd = 0 \<Longrightarrow> read_buffer rd @ fut = concat fs \<Longrightarrow> unread n rd fs fut"
  by (cases fs) auto

lemma unread_put_buf: "unread n rd fs (buf @ fut) \<Longrightarrow> unread n (put_buf buf rd) fs fut"
  by (cases fs) (auto simp: put_buf_def)

definition frames_of ::
  "('k, u32) codec \<Rightarrow> ('k, 'm) codec \<Rightarrow> 'k EncryptContext \<Rightarrow> usize \<Rightarrow> 'm list \<Rightarrow> byte list list \<Rightarrow> bool" where
  "frames_of hc mc e limit ms fs \<longleftrightarrow>
     list_all2 (\<lambda>m f. (\<exists>rng. serialize_with_len hc mc rng m e = Inr f) \<and> body_fits limit e f) ms fs"

lemma frames_of_simps [simp]:
  "frames_of hc mc e limit [] fs \<longleftrightarrow> fs = []"
  "frames_of hc mc e limit ms [] \<longleftrightarrow> ms = []"
  "frames_of hc mc e limit (m # ms) (f # fs) \<longleftrightarrow>
     (\<exists>rng. serialize_with_len hc mc rng m e = Inr f) \<and> body_fits limit e f \<and>
     frames_of hc mc e limit ms fs"
  by (auto simp: frames_of_def)

text \<open>Inside a frame: the body is waited for, or delivered.\<close>

lemma try_read_body:
  assumes "linked keypair hc mc e (dec_ctx rd)"
    and "serialize_with_len hc mc rng m e = Inr f" and "body_fits limit e f"
    and "read_len rd = length f - dec_size_len (dec_ctx rd)"
    and "read_buffer rd @ fut = drop (dec_size_len (dec_ctx rd)) f @ rest"
  obtains (waits) "try_read_pure hc mc rd = (Inr None, rd)" "fut \<noteq> []"
  | (delivers) rest' where "try_read_pure hc mc rd = (Inr (Some m), rd\<lparr> read_buffer := rest', read_len := 0 \<rparr>)"
      "rest' @ fut = rest"
proof -
  from assms(1,2) obtain hdr body where f: "f = hdr @ body"
    and hdr: "length hdr = dec_size_len (dec_ctx rd)"
    and body: "decrypt mc (dec_ctx rd) body = Inr m"
    and same: "enc_size_len e = dec_size_len (dec_ctx rd)"
    by (rule serialize_with_len_parts)
  have len: "read_len rd = length body" "length body \<noteq> 0"
    using assms(3,4) by (simp_all add: f hdr same body_fits_def)
  have buf: "read_buffer rd @ fut = body @ rest"
    using assms(5) by (simp add: f hdr)
  show thesis
  proof (cases "length (read_buffer rd) < read_len rd")
    case True
    then have "fut \<noteq> []" using buf len(1) by (metis append.right_neutral length_append not_add_less1)
    with True len show thesis by (intro waits) (simp_all add: try_read_pure_def)
  next
    case False
    then obtain rest' where "read_buffer rd = body @ rest'" "rest' @ fut = rest"
      using buf len(1) by (auto simp: append_eq_append_conv2)
    with len body False show thesis
      by (intro delivers [of rest']) (simp_all add: try_read_pure_def mark_read_pure_def)
  qed
qed

text \<open>Between frames: the header is waited for, or consumed.\<close>

lemma try_read_head:
  assumes "linked keypair hc mc e (dec_ctx rd)"
    and "serialize_with_len hc mc rng m e = Inr f" and "body_fits (max_payload_size rd) e f"
    and "read_len rd = 0" and "read_buffer rd @ fut = f @ rest"
  obtains (waits) "try_read_pure hc mc rd = (Inr None, rd)" "fut \<noteq> []"
  | (goes_on) rd' where "try_read_pure hc mc rd = try_read_pure hc mc rd'"
      "read_len rd' = length f - dec_size_len (dec_ctx rd)"
      "read_buffer rd' @ fut = drop (dec_size_len (dec_ctx rd)) f @ rest"
      "dec_ctx rd' = dec_ctx rd" "max_payload_size rd' = max_payload_size rd"
proof -
  let ?n = "dec_size_len (dec_ctx rd)"
  from assms(1,2) obtain hdr body where f: "f = hdr @ body"
    and hdr: "length hdr = ?n" "decrypt hc (dec_ctx rd) hdr = Inr (of_nat (length body))"
    and same: "enc_size_len e = ?n"
    by (rule serialize_with_len_parts)
  have body: "0 < length body" "length body \<le> max_payload_size rd"
      "unat (of_nat (length body) :: u32) = length body"
    using assms(3) by (simp_all add: body_fits_def f hdr same unat_of_nat take_bit_nat_eq_self)
  show thesis
  proof (cases "length (read_buffer rd) < ?n")
    case True
    then have "fut \<noteq> []" using assms(5) by (auto simp: f hdr dest: arg_cong [of _ _ length])
    with True assms(4) show thesis
      by (intro waits) (simp_all add: try_read_pure_def try_read_header_pure_def)
  next
    case False
    define left where "left = drop ?n (read_buffer rd)"
    have "take ?n (read_buffer rd @ fut) = hdr" "drop ?n (read_buffer rd @ fut) = body @ rest"
      using assms(5) hdr(1) by (simp_all add: f)
    with False have left: "read_buffer rd = hdr @ left" "left @ fut = body @ rest"
      by (auto simp: left_def)
    let ?rd = "rd\<lparr> read_len := length body, read_buffer := left \<rparr>"
    have "try_read_header_pure hc rd = (Inr True, ?rd)"
      using left(1) hdr body by (simp add: try_read_header_pure_def Let_def)
    then have "try_read_pure hc mc rd = try_read_pure hc mc ?rd"
      using assms(4) body(1) by (simp add: try_read_pure_def)
    then show thesis by (rule goes_on) (simp_all add: f hdr left(2))
  qed
qed

lemma try_read_progress:
  assumes link: "linked keypair hc mc e (dec_ctx rd)"
    and frames: "frames_of hc mc e (max_payload_size rd) ms fs"
    and unread: "unread (dec_size_len (dec_ctx rd)) rd fs fut"
  obtains (waits) rd' where "try_read_pure hc mc rd = (Inr None, rd')" "fut \<noteq> [] \<or> fs = []"
      "unread (dec_size_len (dec_ctx rd)) rd' fs fut"
      "dec_ctx rd' = dec_ctx rd" "max_payload_size rd' = max_payload_size rd"
  | (delivers) m ms' f fs' rd' where "try_read_pure hc mc rd = (Inr (Some m), rd')"
      "ms = m # ms'" "fs = f # fs'" "unread (dec_size_len (dec_ctx rd)) rd' fs' fut"
      "dec_ctx rd' = dec_ctx rd" "max_payload_size rd' = max_payload_size rd"
proof (cases fs)
  case Nil
  then have "try_read_pure hc mc rd = (Inr None, rd)"
    using unread dec_size_len_pos [of "dec_ctx rd"]
    by (simp add: try_read_pure_def try_read_header_pure_def)
  with Nil unread show thesis by (intro waits) auto
next
  case (Cons f fs')
  let ?n = "dec_size_len (dec_ctx rd)"
  from Cons frames obtain m ms' rng where ms: "ms = m # ms'"
    and ser: "serialize_with_len hc mc rng m e = Inr f" and fits: "body_fits (max_payload_size rd) e f"
    by (cases ms) auto
  have "?n < length f"
    using fits link by (auto simp: body_fits_def linked_def dest: contexts_match_size_len)
  have inside: thesis
    if eq: "try_read_pure hc mc rd = try_read_pure hc mc rd1" and rd1: "read_len rd1 = length f - ?n"
      "read_buffer rd1 @ fut = drop ?n f @ concat fs'" "dec_ctx rd1 = dec_ctx rd"
      "max_payload_size rd1 = max_payload_size rd" for rd1
  proof (rule try_read_body [of keypair hc mc e rd1 rng m f "max_payload_size rd" fut "concat fs'"])
    assume "try_read_pure hc mc rd1 = (Inr None, rd1)" "fut \<noteq> []"
    with eq rd1 \<open>?n < length f\<close> show thesis by (intro waits [of rd1]) (simp_all add: Cons)
  next
    fix rest' assume "try_read_pure hc mc rd1 = (Inr (Some m), rd1\<lparr> read_buffer := rest', read_len := 0 \<rparr>)"
      "rest' @ fut = concat fs'"
    with eq rd1(3,4) show thesis
      by (intro delivers [OF _ ms Cons, of "rd1\<lparr> read_buffer := rest', read_len := 0 \<rparr>"])
        (simp_all add: unread_between)
  qed (simp_all add: link ser fits rd1)
  from unread Cons consider "read_len rd = 0" "read_buffer rd @ fut = f @ concat fs'"
    | "read_len rd = length f - ?n" "read_buffer rd @ fut = drop ?n f @ concat fs'" by auto
  then show thesis
  proof cases
    case 1
    from link ser fits this show thesis
      by (rule try_read_head) (use waits [of rd] unread inside in auto)
  qed (use inside [of rd] in simp)
qed

section \<open>Draining a reader and receiving in pieces\<close>

text \<open>
  How the reader is used: after every piece of data, messages are taken until there is none. The
  recursion ends because each message delivered shortens the buffer.
\<close>

lemma try_read_header_len:
  "try_read_header_pure hc rd = (r, rd') \<Longrightarrow> length (read_buffer rd') \<le> length (read_buffer rd)
     \<and> (r = Inr True \<longrightarrow> 0 < read_len rd')"
  by (auto simp: try_read_header_pure_def Let_def split: if_splits sum.splits)

lemma try_read_Some_shrinks:
  assumes "try_read_pure hc mc rd = (Inr (Some m), rd')"
  shows "length (read_buffer rd') < length (read_buffer rd)"
proof (cases "read_len rd = 0")
  case True
  obtain r rd1 where "try_read_header_pure hc rd = (r, rd1)" by (cases "try_read_header_pure hc rd")
  with True assms try_read_header_len [OF this] show ?thesis
    by (auto simp: try_read_pure_def mark_read_pure_def split: sum.splits bool.splits if_splits)
next
  case False
  with assms show ?thesis
    by (auto simp: try_read_pure_def mark_read_pure_def split: sum.splits if_splits)
qed

function read_all_pure ::
  "('k, u32) codec \<Rightarrow> ('k, 'm) codec \<Rightarrow> 'k LenDelimitedReader \<Rightarrow>
     'm list \<times> SocketError option \<times> 'k LenDelimitedReader" where
  "read_all_pure hc mc rd =
     (case try_read_pure hc mc rd of
        (Inl e, rd') \<Rightarrow> ([], Some e, rd')
      | (Inr None, rd') \<Rightarrow> ([], None, rd')
      | (Inr (Some m), rd') \<Rightarrow>
          (case read_all_pure hc mc rd' of (ms, e, rd'') \<Rightarrow> (m # ms, e, rd'')))"
  by pat_completeness auto
termination
  by (relation "measure (\<lambda>(hc, mc, rd). length (read_buffer rd))")
    (auto intro: try_read_Some_shrinks [OF sym])

declare read_all_pure.simps [simp del]

fun receive_pure ::
  "('k, u32) codec \<Rightarrow> ('k, 'm) codec \<Rightarrow> 'k LenDelimitedReader \<Rightarrow> byte list list \<Rightarrow>
     'm list \<times> SocketError option \<times> 'k LenDelimitedReader" where
  "receive_pure hc mc rd [] = ([], None, rd)"
| "receive_pure hc mc rd (c # cs) =
     (case read_all_pure hc mc (put_buf c rd) of
        (ms, Some e, rd') \<Rightarrow> (ms, Some e, rd')
      | (ms, None, rd') \<Rightarrow> (case receive_pure hc mc rd' cs of (ms', e, rd'') \<Rightarrow> (ms @ ms', e, rd'')))"

text \<open>The same over the operations that may panic: these are what the properties are about.\<close>

function read_all ::
  "('k, u32) codec \<Rightarrow> ('k, 'm) codec \<Rightarrow> 'k LenDelimitedReader \<Rightarrow>
     ('m list \<times> SocketError option \<times> 'k LenDelimitedReader) outcome" where
  "read_all hc mc rd =
     (case try_read hc mc rd of
        Panicked \<Rightarrow> Panicked
      | Done (Inl e, rd') \<Rightarrow> Done ([], Some e, rd')
      | Done (Inr None, rd') \<Rightarrow> Done ([], None, rd')
      | Done (Inr (Some m), rd') \<Rightarrow>
          and_then (read_all hc mc rd') (\<lambda>(ms, e, rd''). Done (m # ms, e, rd'')))"
  by pat_completeness auto
termination
  by (relation "measure (\<lambda>(hc, mc, rd). length (read_buffer rd))")
    (auto dest: try_read_Some_shrinks [OF sym] try_read_Some_shrinks)

declare read_all.simps [simp del]

lemma read_all_in_range [simp]: "read_all hc mc rd = Done (read_all_pure hc mc rd)"
  by (induction hc mc rd rule: read_all_pure.induct)
    (subst read_all.simps, subst read_all_pure.simps, auto split: prod.split sum.split option.split)

fun receive ::
  "('k, u32) codec \<Rightarrow> ('k, 'm) codec \<Rightarrow> 'k LenDelimitedReader \<Rightarrow> byte list list \<Rightarrow>
     ('m list \<times> SocketError option \<times> 'k LenDelimitedReader) outcome" where
  "receive hc mc rd [] = Done ([], None, rd)"
| "receive hc mc rd (c # cs) =
     and_then (read_all hc mc (put_buf c rd)) (\<lambda>(ms, e, rd').
       (case e of
          Some e \<Rightarrow> Done (ms, Some e, rd')
        | None \<Rightarrow> and_then (receive hc mc rd' cs) (\<lambda>(ms', e, rd''). Done (ms @ ms', e, rd''))))"

lemma receive_in_range: "receive hc mc rd cs = Done (receive_pure hc mc rd cs)"
  by (induction hc mc rd cs rule: receive_pure.induct) (auto split: prod.split option.split)

lemma read_all_frames:
  assumes "linked keypair hc mc e (dec_ctx rd)"
    and "frames_of hc mc e (max_payload_size rd) ms fs"
    and "unread (dec_size_len (dec_ctx rd)) rd fs fut"
  shows "\<exists>got left fs' rd'. read_all_pure hc mc rd = (got, None, rd') \<and> ms = got @ left \<and>
    frames_of hc mc e (max_payload_size rd) left fs' \<and>
    unread (dec_size_len (dec_ctx rd)) rd' fs' fut \<and> (fut = [] \<longrightarrow> fs' = []) \<and>
    dec_ctx rd' = dec_ctx rd \<and> max_payload_size rd' = max_payload_size rd"
  using assms
proof (induction "length (read_buffer rd)" arbitrary: rd ms fs rule: less_induct)
  case less
  from less.prems show ?case
  proof (cases rule: try_read_progress)
    case (waits rd')
    then have "read_all_pure hc mc rd = ([], None, rd')" by (simp add: read_all_pure.simps [of hc mc rd])
    with waits less.prems(2) show ?thesis by fastforce
  next
    case (delivers m ms' f fs' rd')
    have "length (read_buffer rd') < length (read_buffer rd)"
      using delivers(1) by (rule try_read_Some_shrinks)
    from less.hyps [OF this, of ms' fs'] delivers less.prems
    obtain got left fs'' rd'' where "read_all_pure hc mc rd' = (got, None, rd'')" "ms' = got @ left"
      "frames_of hc mc e (max_payload_size rd) left fs''"
      "unread (dec_size_len (dec_ctx rd)) rd'' fs'' fut" "fut = [] \<longrightarrow> fs'' = []"
      "dec_ctx rd'' = dec_ctx rd" "max_payload_size rd'' = max_payload_size rd"
      by auto
    with delivers show ?thesis
      by (intro exI [of _ "m # got"] exI [of _ left] exI [of _ fs''] exI [of _ rd''])
        (simp add: read_all_pure.simps [of hc mc rd])
  qed
qed

lemma receive_frames:
  assumes "linked keypair hc mc e (dec_ctx rd)"
    and "frames_of hc mc e (max_payload_size rd) ms fs"
    and "unread (dec_size_len (dec_ctx rd)) rd fs (concat cs @ fut)"
    and "cs \<noteq> []"
  shows "\<exists>got left fs' rd'. receive_pure hc mc rd cs = (got, None, rd') \<and> ms = got @ left \<and>
    frames_of hc mc e (max_payload_size rd) left fs' \<and>
    unread (dec_size_len (dec_ctx rd)) rd' fs' fut \<and> (fut = [] \<longrightarrow> fs' = []) \<and>
    dec_ctx rd' = dec_ctx rd \<and> max_payload_size rd' = max_payload_size rd"
  using assms
proof (induction cs arbitrary: rd ms fs)
  case (Cons c cs)
  have put: "dec_ctx (put_buf c rd) = dec_ctx rd" "max_payload_size (put_buf c rd) = max_payload_size rd"
    by (simp_all add: put_buf_def)
  have "unread (dec_size_len (dec_ctx rd)) (put_buf c rd) fs (concat cs @ fut)"
    using Cons.prems(3) by (intro unread_put_buf) simp
  with read_all_frames [of keypair hc mc e "put_buf c rd" ms fs "concat cs @ fut"] Cons.prems
  obtain got left fs' rd' where one: "read_all_pure hc mc (put_buf c rd) = (got, None, rd')"
    "ms = got @ left" "frames_of hc mc e (max_payload_size rd) left fs'"
    "unread (dec_size_len (dec_ctx rd)) rd' fs' (concat cs @ fut)"
    "concat cs @ fut = [] \<longrightarrow> fs' = []" "dec_ctx rd' = dec_ctx rd"
    "max_payload_size rd' = max_payload_size rd"
    by (auto simp: put simp del: append_is_Nil_conv concat_eq_Nil_conv)
  show ?case
  proof (cases "cs = []")
    case True
    with one show ?thesis by auto
  next
    case False
    with Cons.IH [of rd' left fs'] one Cons.prems(1)
    obtain got' left' fs'' rd'' where "receive_pure hc mc rd' cs = (got', None, rd'')"
      "left = got' @ left'" "frames_of hc mc e (max_payload_size rd) left' fs''"
      "unread (dec_size_len (dec_ctx rd)) rd'' fs'' fut" "fut = [] \<longrightarrow> fs'' = []"
      "dec_ctx rd'' = dec_ctx rd" "max_payload_size rd'' = max_payload_size rd"
      by auto
    with one show ?thesis
      by (intro exI [of _ "got @ got'"] exI [of _ left'] exI [of _ fs''] exI [of _ rd'']) simp
  qed
qed simp

section \<open>Errors and edge cases\<close>

lemma try_read_oversize:
  assumes "read_len rd = 0" and "dec_size_len (dec_ctx rd) \<le> length (read_buffer rd)"
    and "decrypt hc (dec_ctx rd) (take (dec_size_len (dec_ctx rd)) (read_buffer rd)) = Inr w"
    and "max_payload_size rd < unat w"
  shows "try_read_pure hc mc rd = (Inl PayloadSizeProhibitive, rd\<lparr> read_len := unat w \<rparr>)"
  using assms by (simp add: try_read_pure_def try_read_header_pure_def Let_def)

lemma try_read_mid_body:
  assumes "0 < read_len rd"
  shows "try_read_pure hc mc rd =
    (if length (read_buffer rd) < read_len rd then (Inr None, rd)
     else case decrypt mc (dec_ctx rd) (take (read_len rd) (read_buffer rd)) of
        Inl e \<Rightarrow> (Inl e, rd) | Inr m \<Rightarrow> (Inr (Some m), mark_read_pure rd))"
  using assms by (simp add: try_read_pure_def)

lemma try_read_error_stuck:
  assumes "try_read_pure hc mc rd = (Inl e, rd')" and "e \<noteq> PayloadSizeProhibitive"
  shows "try_read_pure hc mc rd' = (Inl e, rd')"
proof (cases "read_len rd = 0")
  case False
  with assms show ?thesis by (auto simp: try_read_mid_body split: if_splits sum.splits)
next
  case True
  obtain r rd1 where h: "try_read_header_pure hc rd = (r, rd1)" by (cases "try_read_header_pure hc rd")
  show ?thesis
  proof (cases r)
    case (Inl e1)
    with True h assms have "rd' = rd1" "e1 = e" by (simp_all add: try_read_pure_def)
    with Inl h assms(2) have "rd' = rd"
      by (auto simp: try_read_header_pure_def Let_def split: if_splits sum.splits)
    with assms show ?thesis by simp
  next
    case (Inr b)
    with True h assms have b: "b" by (auto simp: try_read_pure_def split: bool.splits)
    with Inr try_read_header_len [OF h] have "0 < read_len rd1" by simp
    moreover have "try_read_pure hc mc rd1 = (Inl e, rd')"
      using True h Inr b assms(1) calculation by (simp add: try_read_pure_def)
    ultimately show ?thesis by (auto simp: try_read_mid_body split: if_splits sum.splits)
  qed
qed

lemma try_read_len_bound:
  assumes "try_read_pure hc mc rd = (r, rd')" and "read_len rd \<le> max_payload_size rd"
  shows "max_payload_size rd' = max_payload_size rd \<and>
    (r \<noteq> Inl PayloadSizeProhibitive \<longrightarrow> read_len rd' \<le> max_payload_size rd')"
  using assms
  by (auto simp: try_read_pure_def try_read_header_pure_def mark_read_pure_def Let_def
      split: if_splits sum.splits bool.splits)

section \<open>Properties\<close>

definition sample_frame :: "byte list \<Rightarrow> byte list" where
  "sample_frame m = le32_encode (of_nat (length m)) @ m"

lemma sample_linked: "linked (=) le32_codec bytes_codec EncryptContext.Null DecryptContext.Null"
  by (simp add: linked_def sample_contracts)

lemma sample_serialize:
  "serialize_with_len le32_codec bytes_codec rng m EncryptContext.Null = Inr (sample_frame m)"
  by (simp add: serialize_with_len_def encrypt_def le32_codec_def bytes_codec_def sample_frame_def)

lemma sample_body_fits: "m \<noteq> [] \<Longrightarrow> length m \<le> limit \<Longrightarrow> length m < 2 ^ 32 \<Longrightarrow>
    body_fits limit EncryptContext.Null (sample_frame m)"
  by (simp add: body_fits_def sample_frame_def size_len_defs)

text \<open>
  Frame round trip: with matching contexts, the reader takes a frame written by
  \<open>serialize_with_len\<close> off the front of its buffer, returns the very message that was written and
  leaves the bytes behind the frame untouched, for every non-empty body within the size limit and
  in each encryption mode.
\<close>

theorem frame_roundtrip:
  assumes "linked keypair hc mc e (dec_ctx rd)"
    and "serialize_with_len hc mc rng m e = Inr frame"
    and "body_fits (max_payload_size rd) e frame"
    and "read_len rd = 0" and "read_buffer rd = frame @ rest"
  shows "try_read hc mc rd = Done (Inr (Some m), rd\<lparr> read_buffer := rest \<rparr>)"
  using assms by (simp add: try_read_frame)

theorem frame_roundtrip_witness:
  "try_read le32_codec bytes_codec
     \<lparr> read_buffer = sample_frame [1, 2, 3] @ [9], read_len = 0, max_payload_size = 10,
       dec_ctx = DecryptContext.Null \<rparr> =
   Done (Inr (Some [1, 2, 3]),
     \<lparr> read_buffer = [9], read_len = 0, max_payload_size = 10, dec_ctx = DecryptContext.Null \<rparr>)"
  by (subst frame_roundtrip [OF _ sample_serialize [of 0 "[1, 2, 3]"], where rest = "[9]" and keypair = "(=)"])
    (simp_all add: sample_linked sample_body_fits)

text \<open>
  C6. Reassembly. The contexts of the two ends match, and every frame is one the reader accepts: its
  encrypted body is not empty, not longer than the reader's \<open>max_payload_size\<close> and shorter than
  2^32 bytes (\<open>body_fits\<close>). However the bytes of a sequence of such frames are cut into pieces,
  feeding the pieces to the reader and taking messages after each of them delivers every message
  exactly once and in order, with no error and no panic, and ends with an empty buffer between two
  frames.
\<close>

theorem reassembly:
  assumes "linked keypair hc mc e (dec_ctx rd)"
    and "frames_of hc mc e (max_payload_size rd) ms fs"
    and "read_len rd = 0" and "read_buffer rd = []"
    and "pieces \<noteq> []" and "concat pieces = concat fs"
  shows "\<exists>rd'. receive hc mc rd pieces = Done (ms, None, rd') \<and> read_buffer rd' = [] \<and> read_len rd' = 0"
proof -
  have "unread (dec_size_len (dec_ctx rd)) rd fs (concat pieces @ [])"
    using assms(3,4,6) by (intro unread_between) simp_all
  from receive_frames [OF assms(1,2) this assms(5)] show ?thesis by (auto simp: receive_in_range)
qed

theorem reassembly_witness:
  "\<exists>rd'. receive le32_codec bytes_codec
     \<lparr> read_buffer = [], read_len = 0, max_payload_size = 10, dec_ctx = DecryptContext.Null \<rparr>
     [[2, 0, 0], [0, 7], [8, 1, 0, 0, 0, 5]] = Done ([[7, 8], [5]], None, rd') \<and>
     read_buffer rd' = [] \<and> read_len rd' = 0"
  by (rule reassembly [where fs = "[sample_frame [7, 8], sample_frame [5]]"
        and e = EncryptContext.Null and keypair = "(=)"])
    (simp_all add: sample_linked sample_serialize sample_body_fits,
      simp add: sample_frame_def le32_encode_def)

text \<open>
  C27. A frame announcing more than \<open>max_payload_size\<close> is refused, but only once: the refusal leaves
  the announced length in \<open>read_len\<close> and the header in the buffer, so no later call checks the
  limit again. Until that many bytes are buffered the reader quietly asks for more, and then it
  decrypts the header bytes as if they were the start of the body.
\<close>

theorem oversize_refused_only_once:
  assumes "read_len rd = 0" and "dec_size_len (dec_ctx rd) \<le> length (read_buffer rd)"
    and "decrypt hc (dec_ctx rd) (take (dec_size_len (dec_ctx rd)) (read_buffer rd)) = Inr w"
    and "max_payload_size rd < unat w"
  shows "\<exists>rd'. try_read hc mc rd = Done (Inl PayloadSizeProhibitive, rd') \<and>
    (\<forall>more. try_read hc mc (put_buf more rd') =
      (if length (read_buffer rd @ more) < unat w then Done (Inr None, put_buf more rd')
       else case decrypt mc (dec_ctx rd) (take (unat w) (read_buffer rd @ more)) of
          Inl e \<Rightarrow> Done (Inl e, put_buf more rd')
        | Inr m \<Rightarrow> Done (Inr (Some m), rd'\<lparr> read_buffer := drop (unat w) (read_buffer rd @ more), read_len := 0 \<rparr>)))"
proof -
  have "0 < unat w" using assms(4) by simp
  then show ?thesis
    by (simp add: try_read_oversize [OF assms] put_buf_def mark_read_pure_def try_read_mid_body split: sum.split)
qed

theorem oversize_refused_only_once_witness:
  "\<exists>rd'. try_read le32_codec bytes_codec
      \<lparr> read_buffer = [6, 0, 0, 0], read_len = 0, max_payload_size = 5, dec_ctx = DecryptContext.Null \<rparr>
      = Done (Inl PayloadSizeProhibitive, rd') \<and>
    try_read le32_codec bytes_codec (put_buf [1] rd') = Done (Inr None, put_buf [1] rd') \<and>
    try_read le32_codec bytes_codec (put_buf [1, 2] rd') =
      Done (Inr (Some [6, 0, 0, 0, 1, 2]), rd'\<lparr> read_buffer := [], read_len := 0 \<rparr>)"
  using oversize_refused_only_once [where mc = bytes_codec and hc = le32_codec and w = 6
      and rd = "\<lparr> read_buffer = [6, 0, 0, 0], read_len = 0, max_payload_size = 5,
        dec_ctx = DecryptContext.Null \<rparr>"]
  by (auto simp: codec_simps simp del: try_read_in_range)

text \<open>
  C28. A frame with an empty body is consumed without being delivered: the reader drops its header
  and reports that there is not enough data, even when a complete frame follows in the buffer.
\<close>

theorem empty_frame_swallowed:
  assumes "linked keypair hc mc e (dec_ctx rd)"
    and "serialize_with_len hc mc rng m e = Inr frame" and "length frame = enc_size_len e"
    and "read_len rd = 0" and "read_buffer rd = frame @ rest"
  shows "try_read hc mc rd = Done (Inr None, rd\<lparr> read_buffer := rest \<rparr>)"
proof -
  from assms(1,2) obtain hdr body where "frame = hdr @ body"
    "length hdr = dec_size_len (dec_ctx rd)" "decrypt hc (dec_ctx rd) hdr = Inr (of_nat (length body))"
    "decrypt mc (dec_ctx rd) body = Inr m" "enc_size_len e = dec_size_len (dec_ctx rd)"
    by (rule serialize_with_len_parts)
  with assms(3-5) show ?thesis
    by (cases rd) (simp add: try_read_pure_def try_read_header_pure_def Let_def)
qed

theorem empty_frame_swallowed_witness:
  "try_read le32_codec bytes_codec
     \<lparr> read_buffer = sample_frame [] @ sample_frame [4], read_len = 0, max_payload_size = 10,
       dec_ctx = DecryptContext.Null \<rparr> =
   Done (Inr None, \<lparr> read_buffer = sample_frame [4], read_len = 0, max_payload_size = 10,
       dec_ctx = DecryptContext.Null \<rparr>)"
  by (subst empty_frame_swallowed [OF _ sample_serialize [of 0 "[]"], where keypair = "(=)" and rest = "sample_frame [4]"])
    (simp_all add: sample_linked, simp add: sample_frame_def size_len_defs)

text \<open>
  A frame that does not decrypt blocks the stream: the error is returned again, from the same
  state, by every further call.
\<close>

theorem decrypt_error_is_permanent:
  assumes "try_read hc mc rd = Done (Inl e, rd')" and "e \<noteq> PayloadSizeProhibitive"
  shows "try_read hc mc rd' = Done (Inl e, rd')"
  using assms by (simp add: try_read_error_stuck)

theorem decrypt_error_is_permanent_witness:
  "\<exists>rd'. try_read le32_codec bytes_codec
      \<lparr> read_buffer = replicate 52 0, read_len = 0, max_payload_size = 5,
        dec_ctx = DecryptContext.Authenticated 1 \<rparr> = Done (Inl (Crypto (CryptoError ''decrypt'')), rd') \<and>
    try_read le32_codec bytes_codec rd' = Done (Inl (Crypto (CryptoError ''decrypt'')), rd')"
proof -
  let ?rd = "\<lparr> read_buffer = replicate 52 0, read_len = 0, max_payload_size = 5,
    dec_ctx = DecryptContext.Authenticated (1 :: nat) \<rparr>"
  have "try_read le32_codec bytes_codec ?rd = Done (Inl (Crypto (CryptoError ''decrypt'')), ?rd)"
    by (simp add: try_read_pure_def try_read_header_pure_def codec_simps unpad_def pad_def Let_def
        flip: replicate_Suc)
  with decrypt_error_is_permanent [OF this] show ?thesis by blast
qed

text \<open>
  Bound: as long as no call has reported \<open>PayloadSizeProhibitive\<close>, the length the reader waits
  for never exceeds \<open>max_payload_size\<close>, so a frame within the limit is never waited for with more
  than that many bytes.
\<close>

theorem read_len_bounded:
  assumes "try_read hc mc rd = Done (r, rd')" and "read_len rd \<le> max_payload_size rd"
    and "r \<noteq> Inl PayloadSizeProhibitive"
  shows "read_len rd' \<le> max_payload_size rd' \<and> max_payload_size rd' = max_payload_size rd"
  using try_read_len_bound [of hc mc rd r rd'] assms by simp

theorem read_len_bounded_witness:
  "\<exists>rd'. try_read le32_codec bytes_codec
     \<lparr> read_buffer = [5, 0, 0, 0, 1], read_len = 0, max_payload_size = 5,
       dec_ctx = DecryptContext.Null \<rparr> = Done (Inr None, rd') \<and> read_len rd' \<le> 5"
proof -
  let ?rd = "\<lparr> read_buffer = [5, 0, 0, 0, 1], read_len = 0, max_payload_size = 5,
    dec_ctx = DecryptContext.Null :: nat DecryptContext \<rparr>"
  have t: "try_read le32_codec bytes_codec ?rd = Done (Inr None, ?rd\<lparr> read_buffer := [1], read_len := 5 \<rparr>)"
    by (simp add: try_read_pure_def try_read_header_pure_def codec_simps Let_def)
  show ?thesis using read_len_bounded [OF t] t by auto
qed

end
