(* ===== verification/Btree_Map.thy ===== *)
theory Btree_Map
  imports Prelude
begin

text \<open>
  The part of \<open>std::collections::BTreeMap\<close> that the crate uses: \<open>entry\<close>/\<open>insert\<close>, \<open>get\<close>,
  \<open>remove\<close> and iteration in ascending key order. A map is the list of its entries in that order.
  The interface its clients rely on is the locale \<open>ordered_map\<close>, interpreted here.
\<close>

type_synonym ('k, 'v) btree = "('k \<times> 'v) list"

definition btree_ok :: "('k::linorder, 'v) btree \<Rightarrow> bool" where
  "btree_ok m \<longleftrightarrow> sorted_wrt (<) (map fst m)"

fun btree_get :: "('k::linorder, 'v) btree \<Rightarrow> 'k \<Rightarrow> 'v option" where
  "btree_get [] k = None"
| "btree_get ((k', v) # m) k = (if k = k' then Some v else btree_get m k)"

fun btree_insert :: "'k::linorder \<Rightarrow> 'v \<Rightarrow> ('k, 'v) btree \<Rightarrow> ('k, 'v) btree" where
  "btree_insert k v [] = [(k, v)]"
| "btree_insert k v ((k', v') # m) =
     (if k < k' then (k, v) # (k', v') # m
      else if k = k' then (k, v) # m
      else (k', v') # btree_insert k v m)"

fun btree_remove :: "'k::linorder \<Rightarrow> ('k, 'v) btree \<Rightarrow> ('k, 'v) btree" where
  "btree_remove k [] = []"
| "btree_remove k ((k', v') # m) = (if k = k' then m else (k', v') # btree_remove k m)"

section \<open>The interface\<close>

locale ordered_map =
  fixes entries :: "'m \<Rightarrow> ('k::linorder \<times> 'v) list"
    and get :: "'m \<Rightarrow> 'k \<Rightarrow> 'v option"
    and insert_entry :: "'k \<Rightarrow> 'v \<Rightarrow> 'm \<Rightarrow> 'm"
    and remove_entry :: "'k \<Rightarrow> 'm \<Rightarrow> 'm"
    and invar :: "'m \<Rightarrow> bool"
  assumes ascending: "invar m \<Longrightarrow> sorted_wrt (<) (map fst (entries m))"
    and get_entries: "invar m \<Longrightarrow> get m k = map_of (entries m) k"
    and entries_insert: "invar m \<Longrightarrow> entries (insert_entry k v m) =
          filter (\<lambda>e. fst e < k) (entries m) @ (k, v) # filter (\<lambda>e. k < fst e) (entries m)"
    and invar_insert: "invar m \<Longrightarrow> invar (insert_entry k v m)"
    and entries_remove: "invar m \<Longrightarrow> entries (remove_entry k m) = filter (\<lambda>e. fst e \<noteq> k) (entries m)"
    and invar_remove: "invar m \<Longrightarrow> invar (remove_entry k m)"
begin

lemma distinct_keys: "invar m \<Longrightarrow> distinct (map fst (entries m))"
  using ascending strict_sorted_iff by blast

lemma get_insert: "invar m \<Longrightarrow> get (insert_entry k v m) k' = (if k' = k then Some v else get m k')"
  by (cases k' k rule: linorder_cases)
    (auto simp: get_entries entries_insert invar_insert map_add_def map_of_filter_key [where P = "\<lambda>x. x < k"]
      map_of_filter_key [where P = "\<lambda>x. k < x"] split: option.splits)

lemma get_remove: "invar m \<Longrightarrow> get (remove_entry k m) k' = (if k' = k then None else get m k')"
  by (simp add: get_entries entries_remove invar_remove map_of_filter_key [where P = "\<lambda>x. x \<noteq> k"])

lemma get_Some_iff: "invar m \<Longrightarrow> get m k = Some v \<longleftrightarrow> (k, v) \<in> set (entries m)"
  by (simp add: get_entries distinct_keys)

lemma first_is_least:
  "invar m \<Longrightarrow> entries m = (k, v) # es \<Longrightarrow> e \<in> set es \<Longrightarrow> k < fst e"
  using ascending [of m] by auto

lemma replace_first:
  assumes "invar m" and "entries m = (k, v) # es"
  shows "entries (insert_entry k v' m) = (k, v') # es"
proof -
  have "\<forall>e\<in>set es. k < fst e"
    using first_is_least [OF assms] by blast
  then have "filter (\<lambda>e. fst e < k) es = []" "filter (\<lambda>e. k < fst e) es = es"
    by (auto simp: filter_empty_conv filter_id_conv less_asym)
  with assms show ?thesis by (simp add: entries_insert)
qed

end

section \<open>The provider\<close>

lemma btree_ok_Cons:
  "btree_ok ((k, v) # m) \<longleftrightarrow> (\<forall>e\<in>set m. k < fst e) \<and> btree_ok m"
  by (auto simp: btree_ok_def)

lemma btree_ok_append:
  "btree_ok (m @ n) \<longleftrightarrow>
     btree_ok m \<and> btree_ok n \<and> (\<forall>e\<in>set m. \<forall>f\<in>set n. fst e < fst f)"
  by (auto simp: btree_ok_def sorted_wrt_append)

lemma filter_keys_above:
  fixes m :: "('k::linorder \<times> 'v) list"
  assumes "\<forall>e\<in>set m. k' < fst e" and "k \<le> k'"
  shows "filter (\<lambda>e. fst e < k) m = []" and "filter (\<lambda>e. k < fst e) m = m"
    and "filter (\<lambda>e. fst e \<noteq> k) m = m"
proof -
  have "k < fst e" if "e \<in> set m" for e
    using assms(2) by (rule le_less_trans) (use assms(1) that in blast)
  then have "\<forall>e\<in>set m. \<not> fst e < k" "\<forall>e\<in>set m. k < fst e" "\<forall>e\<in>set m. fst e \<noteq> k"
    using less_asym by blast+
  then show "filter (\<lambda>e. fst e < k) m = []" and "filter (\<lambda>e. k < fst e) m = m"
    and "filter (\<lambda>e. fst e \<noteq> k) m = m"
    by (simp_all only: filter_empty_conv filter_id_conv simp_thms)
qed

lemma btree_insert_entries:
  "btree_ok m \<Longrightarrow> btree_insert k v m =
     filter (\<lambda>e. fst e < k) m @ (k, v) # filter (\<lambda>e. k < fst e) m"
proof (induction k v m rule: btree_insert.induct)
  case (2 k v k' v' m)
  then have above: "\<forall>e\<in>set m. k' < fst e" and "btree_ok m"
    by (auto simp: btree_ok_Cons)
  with 2 show ?case
    using filter_keys_above [OF above, of k] by (cases k k' rule: linorder_cases) auto
qed simp

lemma btree_ok_insert: "btree_ok m \<Longrightarrow> btree_ok (btree_insert k v m)"
  by (auto simp: btree_insert_entries btree_ok_def sorted_wrt_append sorted_wrt_map
      sorted_wrt_filter)

lemma btree_remove_entries: "btree_ok m \<Longrightarrow> btree_remove k m = filter (\<lambda>e. fst e \<noteq> k) m"
proof (induction k m rule: btree_remove.induct)
  case (2 k k' v' m)
  then show ?case
    using filter_keys_above(3) [of m k' k] by (auto simp: btree_ok_Cons)
qed simp

lemma btree_ok_remove: "btree_ok m \<Longrightarrow> btree_ok (btree_remove k m)"
  by (simp add: btree_remove_entries) (simp add: btree_ok_def sorted_wrt_map sorted_wrt_filter)

lemma btree_get_map_of: "btree_get m = map_of m"
proof
  show "btree_get m k = map_of m k" for k
    by (induction m k rule: btree_get.induct) auto
qed

interpretation bt: ordered_map "\<lambda>m. m" btree_get btree_insert btree_remove btree_ok
proof
  fix m :: "('a::linorder, 'b) btree" and k v
  assume m: "btree_ok m"
  show "sorted_wrt (<) (map fst m)"
    using m by (simp add: btree_ok_def)
  show "btree_get m k = map_of m k"
    by (simp add: btree_get_map_of)
  show "btree_insert k v m = filter (\<lambda>e. fst e < k) m @ (k, v) # filter (\<lambda>e. k < fst e) m"
    using m by (rule btree_insert_entries)
  show "btree_remove k m = filter (\<lambda>e. fst e \<noteq> k) m"
    using m by (rule btree_remove_entries)
qed (simp_all add: btree_ok_insert btree_ok_remove)

end
