(* ===== verification/Out_Queue.thy ===== *)
theory Out_Queue
  imports Config Btree_Map
begin

text \<open>
  \<open>src/src/out_queue.rs\<close>: the queue of outgoing messages with priorities and expiration, shared by
  the TCP and the UDP socket. Operations that consult the clock take its readings: expiration looks at
  the front of each queue at most once, and \<open>now p\<close> is the reading it takes for the priority \<open>p\<close>.

  The abstract view of a queue is the list of its messages in the order they will be sent. The
  operations refine three simple list functions on that view.
\<close>

type_synonym readings = "Priority \<Rightarrow> instant"

record ('k, 'a) OutQueue =
  inner :: "(Priority, (instant \<times> 'a) list) btree"
  conf :: "'k SocketConfig"

definition OutQueue_new :: "'k SocketConfig \<Rightarrow> ('k, 'a) OutQueue" where
  "OutQueue_new c = \<lparr> inner = [], conf = c \<rparr>"

text \<open>Checks if the given message queue should not be dropped.\<close>

definition is_queue_valid ::
  "instant \<Rightarrow> u8 \<Rightarrow> (instant \<times> 'a) list \<Rightarrow> 'k SocketConfig \<Rightarrow> bool" where
  "is_queue_valid now priority queue c \<longleftrightarrow>
     priority < conf_msg_drop_priority c \<or>
     (case queue of
        [] \<Rightarrow> True
      | (timestamp, _) # _ \<Rightarrow> elapsed_secs now timestamp \<le> unat (conf_max_msg_age_secs c))"

definition expired_queues :: "readings \<Rightarrow> ('k, 'a) OutQueue \<Rightarrow> u8 list" where
  "expired_queues now q =
     map fst (dropWhile (\<lambda>(priority, queue). is_queue_valid (now priority) priority queue (conf q)) (inner q))"

definition push_at :: "instant \<Rightarrow> 'a \<Rightarrow> Priority \<Rightarrow> ('k, 'a) OutQueue \<Rightarrow> ('k, 'a) OutQueue" where
  "push_at when msg priority q =
     (let entry = (case btree_get (inner q) priority of None \<Rightarrow> [] | Some queue \<Rightarrow> queue)
      in q\<lparr> inner := btree_insert priority (entry @ [(when, msg)]) (inner q) \<rparr>)"

definition push :: "instant \<Rightarrow> 'a \<Rightarrow> Priority \<Rightarrow> ('k, 'a) OutQueue \<Rightarrow> ('k, 'a) OutQueue" where
  "push now msg priority q = push_at now msg priority q"

text \<open>
  \<open>expired_keys.iter().filter_map(|priority| self.inner.remove(priority))\<close>: the queues removed, and
  the map without them.
\<close>

fun remove_each ::
  "'p::linorder list \<Rightarrow> ('p, 'v) btree \<Rightarrow> 'v list \<times> ('p, 'v) btree" where
  "remove_each [] m = ([], m)"
| "remove_each (k # ks) m =
     (case remove_each ks (btree_remove k m) of
        (vs, m') \<Rightarrow> (case btree_get m k of None \<Rightarrow> (vs, m') | Some v \<Rightarrow> (v # vs, m')))"

definition drop_expired :: "readings \<Rightarrow> ('k, 'a) OutQueue \<Rightarrow> nat \<times> ('k, 'a) OutQueue" where
  "drop_expired now q =
     (case remove_each (expired_queues now q) (inner q) of
        (removed, m) \<Rightarrow> (sum_list (map length removed), q\<lparr> inner := m \<rparr>))"

text \<open>
  The first queue of the map is popped through a mutable reference, and removed from the map when
  that leaves it empty. \<open>unwrap!\<close> panics on an empty queue.
\<close>

definition next_msg :: "('k, 'a) OutQueue \<Rightarrow> ('a option \<times> ('k, 'a) OutQueue) outcome" where
  "next_msg q =
     (case inner q of
        [] \<Rightarrow> Done (None, q)
      | (key, []) # _ \<Rightarrow> Panicked
      | (key, (_, data) # queue) # _ \<Rightarrow>
          (let m = btree_insert key queue (inner q);
               m' = (if queue = [] then btree_remove key m else m)
           in Done (Some data, q\<lparr> inner := m' \<rparr>)))"

section \<open>Invariant and abstract view\<close>

definition oq_ok :: "('k, 'a) OutQueue \<Rightarrow> bool" where
  "oq_ok q \<longleftrightarrow> btree_ok (inner q) \<and> (\<forall>e\<in>set (inner q). snd e \<noteq> [])"

type_synonym 'a queued = "Priority \<times> instant \<times> 'a"

fun flatten :: "('p \<times> (instant \<times> 'a) list) list \<Rightarrow> ('p \<times> instant \<times> 'a) list" where
  "flatten [] = []"
| "flatten ((p, queue) # m) = map (\<lambda>e. (p, e)) queue @ flatten m"

definition view :: "('k, 'a) OutQueue \<Rightarrow> 'a queued list" where
  "view q = flatten (inner q)"

abbreviation msgs :: "'a queued list \<Rightarrow> 'a list" where
  "msgs v \<equiv> map (snd \<circ> snd) v"

subsection \<open>Specification on the view\<close>

definition spec_push :: "'a queued \<Rightarrow> 'a queued list \<Rightarrow> 'a queued list" where
  "spec_push e v = filter (\<lambda>x. fst x \<le> fst e) v @ e # filter (\<lambda>x. fst e < fst x) v"

text \<open>A priority is expired when it may be dropped and its oldest message is too old.\<close>

definition expired_priority ::
  "readings \<Rightarrow> 'k SocketConfig \<Rightarrow> 'a queued list \<Rightarrow> Priority \<Rightarrow> bool" where
  "expired_priority now c v p \<longleftrightarrow>
     conf_msg_drop_priority c \<le> p \<and>
     (case filter (\<lambda>x. fst x = p) v of
        [] \<Rightarrow> False
      | x # _ \<Rightarrow> unat (conf_max_msg_age_secs c) < elapsed_secs (now p) (fst (snd x)))"

definition spec_drop :: "readings \<Rightarrow> 'k SocketConfig \<Rightarrow> 'a queued list \<Rightarrow> 'a queued list" where
  "spec_drop now c v = takeWhile (\<lambda>x. \<not> expired_priority now c v (fst x)) v"

subsection \<open>Flattening\<close>

lemma flatten_append [simp]: "flatten (m @ n) = flatten m @ flatten n"
  by (induction m rule: flatten.induct) auto

lemma set_flatten: "(p, e) \<in> set (flatten m) \<longleftrightarrow> (\<exists>queue. (p, queue) \<in> set m \<and> e \<in> set queue)"
  by (induction m rule: flatten.induct) auto

lemma flatten_key: "x \<in> set (flatten m) \<Longrightarrow> \<exists>e\<in>set m. fst x = fst e"
  by (induction m rule: flatten.induct) auto

lemma flatten_filter: "flatten (filter (\<lambda>e. P (fst e)) m) = filter (\<lambda>x. P (fst x)) (flatten m)"
  by (induction m rule: flatten.induct) (auto simp: filter_map o_def)

lemma flatten_takeWhile:
  "\<forall>e\<in>set m. snd e \<noteq> [] \<Longrightarrow>
     flatten (takeWhile (\<lambda>e. P (fst e)) m) = takeWhile (\<lambda>x. P (fst x)) (flatten m)"
proof (induction m rule: flatten.induct)
  case (2 p queue m)
  show ?case
  proof (cases "P p")
    case True
    with 2 show ?thesis by (simp add: takeWhile_append)
  next
    case False
    with 2 show ?thesis by (cases queue) simp_all
  qed
qed simp

lemma flatten_eq_Nil: "flatten m = [] \<longleftrightarrow> (\<forall>e\<in>set m. snd e = [])"
  by (induction m rule: flatten.induct) auto

lemma length_flatten: "length (flatten m) = sum_list (map (length \<circ> snd) m)"
  by (induction m rule: flatten.induct) auto

lemma sorted_flatten: "btree_ok m \<Longrightarrow> sorted (map fst (flatten m))"
proof (induction m rule: flatten.induct)
  case (2 p queue m)
  have "sorted (map fst (map (\<lambda>e. (p, e)) queue))"
    by (induction queue) auto
  moreover have "\<forall>x\<in>set (flatten m). p \<le> fst x"
    using 2(2) by (fastforce simp: btree_ok_Cons dest: flatten_key)
  ultimately show ?case
    using 2 by (auto simp: btree_ok_Cons sorted_append)
qed simp

lemma flatten_class:
  "btree_ok m \<Longrightarrow> filter (\<lambda>x. fst x = p) (flatten m) =
     (case btree_get m p of None \<Rightarrow> [] | Some queue \<Rightarrow> map (\<lambda>e. (p, e)) queue)"
proof (induction m rule: flatten.induct)
  case (2 k queue m)
  have "filter (\<lambda>x. fst x = p) (flatten m) = []" if "p = k"
    using 2(2) that by (fastforce simp: filter_empty_conv btree_ok_Cons dest: flatten_key)
  with 2 show ?case
    by (auto simp: btree_ok_Cons filter_map o_def split: option.splits)
qed simp

lemma sorted_three_way:
  fixes f :: "'x \<Rightarrow> 'p::linorder"
  shows "sorted (map f v) \<Longrightarrow>
     filter (\<lambda>x. f x < p) v @ filter (\<lambda>x. f x = p) v = filter (\<lambda>x. f x \<le> p) v"
proof (induction v)
  case (Cons x v)
  have "filter (\<lambda>x. f x < p) v = []" if "p \<le> f x"
    using Cons.prems that by (fastforce simp: filter_empty_conv)
  with Cons show ?case
    by (cases "f x" p rule: linorder_cases) auto
qed simp

section \<open>Every operation keeps the invariant and refines its specification\<close>

lemma oq_ok_new: "oq_ok (OutQueue_new c)"
  by (simp add: OutQueue_new_def oq_ok_def btree_ok_def)

lemma view_new: "view (OutQueue_new c) = []"
  by (simp add: OutQueue_new_def view_def)

lemma view_sorted: "oq_ok q \<Longrightarrow> sorted (map fst (view q))"
  by (simp add: oq_ok_def view_def sorted_flatten)

lemma push_at_ok: "oq_ok q \<Longrightarrow> oq_ok (push_at t msg p q)"
proof -
  assume ok: "oq_ok q"
  then have "btree_ok (inner q)" by (simp add: oq_ok_def)
  then have "btree_ok (btree_insert p (queue @ [(t, msg)]) (inner q))" for queue
    by (rule btree_ok_insert)
  moreover have "\<forall>e\<in>set (btree_insert p (queue @ [(t, msg)]) (inner q)). snd e \<noteq> []" for queue
    using ok by (auto simp: oq_ok_def btree_insert_entries)
  ultimately show ?thesis by (simp add: oq_ok_def push_at_def)
qed

lemma push_at_view: "oq_ok q \<Longrightarrow> view (push_at t msg p q) = spec_push (p, t, msg) (view q)"
proof -
  assume "oq_ok q"
  then have m: "btree_ok (inner q)" by (simp add: oq_ok_def)
  define entry where "entry = (case btree_get (inner q) p of None \<Rightarrow> [] | Some queue \<Rightarrow> queue)"
  have "map (\<lambda>e. (p, e)) entry = filter (\<lambda>x. fst x = p) (view q)"
    using flatten_class [OF m, of p] by (auto simp: entry_def view_def split: option.splits)
  then show ?thesis
    using m sorted_three_way [OF view_sorted [OF \<open>oq_ok q\<close>], of p]
      flatten_filter [of "\<lambda>k. k < p" "inner q"] flatten_filter [of "\<lambda>k. p < k" "inner q"]
    by (simp add: push_at_def view_def spec_push_def bt.entries_insert
        flip: entry_def append_assoc)
qed

lemma push_at_conf [simp]: "conf (push_at t msg p q) = conf q"
  by (simp add: push_at_def Let_def)

lemma next_msg_empty: "oq_ok q \<Longrightarrow> view q = [] \<Longrightarrow> next_msg q = Done (None, q)"
  by (cases "inner q") (auto simp: oq_ok_def view_def next_msg_def flatten_eq_Nil)

lemma next_msg_first:
  assumes ok: "oq_ok q" and v: "view q = (p, t, msg) # v"
  shows "\<exists>q'. next_msg q = Done (Some msg, q') \<and> oq_ok q' \<and> view q' = v \<and> conf q' = conf q"
proof -
  from v obtain k queue m where m: "inner q = (k, queue) # m"
    by (cases "inner q") (auto simp: view_def)
  from ok m have "queue \<noteq> []" and bt: "btree_ok (inner q)" and ne: "\<forall>e\<in>set m. snd e \<noteq> []"
    by (auto simp: oq_ok_def)
  with v m obtain rest where q: "queue = (t, msg) # rest" and "k = p"
    by (cases queue) (auto simp: view_def)
  have ins: "btree_insert k rest (inner q) = (k, rest) # m"
    using bt.replace_first [OF bt m] .
  have "btree_ok m"
    using bt m by (simp add: btree_ok_Cons)
  then show ?thesis
    using v m q bt ne ins \<open>k = p\<close>
    by (auto simp: next_msg_def view_def oq_ok_def Let_def btree_ok_Cons)
qed

lemma remove_each_suffix:
  "btree_ok (m @ n) \<Longrightarrow> remove_each (map fst n) (m @ n) = (map snd n, m)"
proof (induction n)
  case (Cons e n)
  obtain k queue where e: "e = (k, queue)" by (cases e)
  have ok: "btree_ok (m @ (k, queue) # n)" using Cons.prems e by simp
  then have "\<forall>e\<in>set m \<union> set n. fst e \<noteq> k"
    by (auto simp: btree_ok_def sorted_wrt_append)
  then have "filter (\<lambda>e. fst e \<noteq> k) m = m" "filter (\<lambda>e. fst e \<noteq> k) n = n"
    by (simp_all add: filter_id_conv)
  then have "btree_remove k (m @ (k, queue) # n) = m @ n"
    using ok by (simp add: bt.entries_remove)
  moreover have "btree_get (m @ (k, queue) # n) k = Some queue"
    using ok by (simp add: bt.get_Some_iff)
  moreover have "btree_ok (m @ n)"
    using ok by (auto simp: btree_ok_def sorted_wrt_append)
  ultimately show ?case
    using Cons.IH e by simp
qed simp

lemma expired_priority_entry:
  assumes ok: "oq_ok q" and e: "(p, queue) \<in> set (inner q)"
  shows "is_queue_valid (now p) p queue (conf q) \<longleftrightarrow> \<not> expired_priority now (conf q) (view q) p"
proof -
  from ok e have "btree_get (inner q) p = Some queue"
    by (simp add: oq_ok_def bt.get_Some_iff)
  then have "filter (\<lambda>x. fst x = p) (view q) = map (\<lambda>e. (p, e)) queue"
    using ok flatten_class [of "inner q" p] by (simp add: oq_ok_def view_def)
  then show ?thesis
    by (cases queue) (auto simp: is_queue_valid_def expired_priority_def)
qed

lemma drop_expired_inner:
  fixes now :: readings
  assumes "oq_ok q"
  defines "valid \<equiv> \<lambda>e. \<not> expired_priority now (conf q) (view q) (fst e)"
  shows "drop_expired now q =
    (length (flatten (dropWhile valid (inner q))), q\<lparr> inner := takeWhile valid (inner q) \<rparr>)"
proof -
  have "dropWhile (\<lambda>(p, queue). is_queue_valid (now p) p queue (conf q)) (inner q) = dropWhile valid (inner q)"
    using expired_priority_entry [OF assms(1)]
    by (intro dropWhile_cong) (auto simp: valid_def)
  moreover have "btree_ok (takeWhile valid (inner q) @ dropWhile valid (inner q))"
    using assms(1) by (simp add: oq_ok_def)
  ultimately show ?thesis
    using remove_each_suffix [of "takeWhile valid (inner q)" "dropWhile valid (inner q)"]
    by (simp add: drop_expired_def expired_queues_def length_flatten o_def)
qed

lemma drop_expired_refines:
  assumes ok: "oq_ok q" and drop: "drop_expired now q = (n, q')"
  shows "oq_ok q' \<and> view q' = spec_drop now (conf q) (view q) \<and> conf q' = conf q
    \<and> n + length (view q') = length (view q)"
proof -
  define valid where "valid = (\<lambda>e :: u8 \<times> (instant \<times> 'b) list. \<not> expired_priority now (conf q) (view q) (fst e))"
  have q': "q' = q\<lparr> inner := takeWhile valid (inner q) \<rparr>" and n: "n = length (flatten (dropWhile valid (inner q)))"
    using drop_expired_inner [OF ok, of now] drop by (simp_all add: valid_def)
  have split: "takeWhile valid (inner q) @ dropWhile valid (inner q) = inner q" by simp
  have "oq_ok q'"
    using ok btree_ok_append [of "takeWhile valid (inner q)" "dropWhile valid (inner q)"]
    by (auto simp: oq_ok_def q' dest: set_takeWhileD)
  moreover have "view q' = spec_drop now (conf q) (view q)"
    using ok flatten_takeWhile [of "inner q" "\<lambda>p. \<not> expired_priority now (conf q) (view q) p"]
    by (simp add: view_def q' oq_ok_def spec_drop_def valid_def)
  moreover have "n + length (view q') = length (view q)"
    using arg_cong [OF split, of "\<lambda>m. length (flatten m)"]
    unfolding flatten_append length_append by (simp add: view_def q' n)
  ultimately show ?thesis by (simp add: q')
qed

section \<open>The interface its clients rely on\<close>

text \<open>
  \<open>self.current_write.take().or_else(|| self.out_queue.next_msg())\<close>, the expression each socket
  starts a turn of its flush loop with: the message being written first, then the queue.
\<close>

definition take_or_next ::
  "('q \<Rightarrow> ('a option \<times> 'q) outcome) \<Rightarrow> 'a option \<Rightarrow> 'q \<Rightarrow> ('a option \<times> 'q) outcome" where
  "take_or_next nxt current q = (case current of Some d \<Rightarrow> Done (Some d, q) | None \<Rightarrow> nxt q)"

lemma next_msg_conf: "next_msg q = Done (r, q') \<Longrightarrow> conf q' = conf q"
  by (auto simp: next_msg_def Let_def split: list.splits prod.splits)

lemma take_or_next_conf: "take_or_next next_msg c q = Done (r, q') \<Longrightarrow> conf q' = conf q"
  by (auto simp: take_or_next_def split: option.splits dest: next_msg_conf)

text \<open>What is still to be sent, in order: the current message and the queue behind it.\<close>

definition pending_of :: "'a option \<Rightarrow> 'a queued list \<Rightarrow> 'a list" where
  "pending_of current v = (case current of None \<Rightarrow> [] | Some d \<Rightarrow> [d]) @ msgs v"

text \<open>Taking messages until the queue says there are none, at most \<open>n\<close> times.\<close>

fun drain :: "('q \<Rightarrow> ('a option \<times> 'q) outcome) \<Rightarrow> nat \<Rightarrow> 'q \<Rightarrow> ('a list \<times> 'q) outcome" where
  "drain nxt 0 q = Done ([], q)"
| "drain nxt (Suc n) q =
     (case nxt q of
        Panicked \<Rightarrow> Panicked
      | Done (None, q') \<Rightarrow> Done ([], q')
      | Done (Some d, q') \<Rightarrow>
          (case drain nxt n q' of Panicked \<Rightarrow> Panicked | Done (ds, q'') \<Rightarrow> Done (d # ds, q'')))"

locale send_queue =
  fixes enqueue :: "instant \<Rightarrow> 'a \<Rightarrow> Priority \<Rightarrow> 'q \<Rightarrow> 'q"
    and nxt :: "'q \<Rightarrow> ('a option \<times> 'q) outcome"
    and expire :: "readings \<Rightarrow> 'q \<Rightarrow> nat \<times> 'q"
    and contents :: "'q \<Rightarrow> 'a queued list"
    and ok :: "'q \<Rightarrow> bool"
  assumes sorted_contents: "ok q \<Longrightarrow> sorted (map fst (contents q))"
    and enqueue_ok: "ok q \<Longrightarrow> ok (enqueue t d p q)"
    and enqueue_contents: "ok q \<Longrightarrow> contents (enqueue t d p q) = spec_push (p, t, d) (contents q)"
    and nxt_empty: "ok q \<Longrightarrow> contents q = [] \<Longrightarrow> nxt q = Done (None, q)"
    and nxt_first: "ok q \<Longrightarrow> contents q = (p, t, d) # v \<Longrightarrow>
          \<exists>q'. nxt q = Done (Some d, q') \<and> ok q' \<and> contents q' = v"
    and expire_prefix: "ok q \<Longrightarrow> expire now q = (n, q') \<Longrightarrow>
          ok q' \<and> (\<exists>dropped. contents q = contents q' @ dropped \<and> n = length dropped)"
begin

lemma nxt_cases:
  assumes "ok q"
  obtains (empty) "contents q = []" "nxt q = Done (None, q)"
  | (first) p t d v q' where "contents q = (p, t, d) # v" "nxt q = Done (Some d, q')"
      "ok q'" "contents q' = v"
  using assms nxt_empty nxt_first by (cases "contents q") force+

lemma take_or_next_cases:
  assumes "ok q"
  obtains (none) "current = None" "contents q = []" "take_or_next nxt current q = Done (None, q)"
  | (some) d q' where "take_or_next nxt current q = Done (Some d, q')" "ok q'"
      "pending_of current (contents q) = d # msgs (contents q')"
      "length (contents q') + (if current = None then 1 else 0) = length (contents q)"
proof (cases current)
  case None
  from assms show ?thesis
  proof (cases rule: nxt_cases)
    case empty
    with None show ?thesis by (intro none) (simp_all add: take_or_next_def)
  next
    case (first p t d v q')
    with None show ?thesis
      by (intro some [of d q']) (simp_all add: take_or_next_def pending_of_def)
  qed
next
  case (Some d)
  with assms show ?thesis
    by (intro some [of d q]) (simp_all add: take_or_next_def pending_of_def)
qed

lemma take_or_next_tagged:
  assumes "ok q"
  obtains (none) "current = None" "contents q = []" "take_or_next nxt current q = Done (None, q)"
  | (current) d where "current = Some d" "take_or_next nxt current q = Done (Some d, q)"
  | (queued) p t d q' where "current = None" "take_or_next nxt current q = Done (Some d, q')"
      "ok q'" "contents q = (p, t, d) # contents q'"
proof (cases current)
  case None
  from assms show ?thesis
    by (cases rule: nxt_cases) (use None none queued in \<open>auto simp: take_or_next_def\<close>)
qed (simp add: current take_or_next_def)

lemma drain_all:
  "ok q \<Longrightarrow> length (contents q) < n \<Longrightarrow>
     \<exists>q'. drain nxt n q = Done (msgs (contents q), q') \<and> ok q' \<and> contents q' = []"
proof (induction n arbitrary: q)
  case (Suc n)
  from Suc.prems(1) show ?case
  proof (cases rule: nxt_cases)
    case empty
    with Suc.prems show ?thesis by simp
  next
    case (first p t d v q')
    with Suc.IH [of q'] Suc.prems obtain q'' where "drain nxt n q' = Done (msgs v, q'')"
      "ok q''" "contents q'' = []" by auto
    with first show ?thesis by simp
  qed
qed simp

text \<open>Any batch of messages comes out sorted by priority, in arrival order within a priority.\<close>

lemma enqueue_all:
  assumes "ok q"
  defines "q' \<equiv> \<lambda>es. fold (\<lambda>(p, t, d). enqueue t d p) es q"
  shows "ok (q' es) \<and> mset (contents (q' es)) = mset (contents q) + mset es \<and>
    filter (\<lambda>x. fst x = k) (contents (q' es)) =
      filter (\<lambda>x. fst x = k) (contents q) @ filter (\<lambda>x. fst x = k) es"
  unfolding q'_def using assms(1)
proof (induction es arbitrary: q)
  case (Cons e es)
  obtain p t d where e: "e = (p, t, d)" by (cases e)
  let ?q = "enqueue t d p q"
  have none: "filter (\<lambda>x. k < fst x \<and> fst x = k) v = []" for v :: "'a queued list"
    by (rule filter_False) auto
  have split: "mset (contents ?q) = mset (contents q) + {#e#}"
    "filter (\<lambda>x. fst x = k) (contents ?q) = filter (\<lambda>x. fst x = k) (contents q) @ filter (\<lambda>x. fst x = k) [e]"
    using arg_cong [OF filter_le_gt_sorted [OF sorted_contents [OF Cons.prems], of p], of mset]
      arg_cong [OF filter_le_gt_sorted [OF sorted_contents [OF Cons.prems], of p], of "filter (\<lambda>x. fst x = k)"]
    by (auto simp: enqueue_contents Cons.prems spec_push_def e none)
  show ?case
    using Cons.IH [OF enqueue_ok [OF Cons.prems], of t d p] split
    by (simp add: e)
qed simp

lemma enqueue_all_sorts:
  assumes "ok q" and "contents q = []"
  shows "contents (fold (\<lambda>(p, t, d). enqueue t d p) es q) = sort_key fst es"
proof -
  let ?v = "contents (fold (\<lambda>(p, t, d). enqueue t d p) es q)"
  note all = enqueue_all [OF assms(1), of es]
  have "filter (\<lambda>x. k = fst x) ?v = filter (\<lambda>x. k = fst x) es" for k
    using all [of k] assms(2) by (simp add: eq_commute [of k])
  then have "sort_key fst es = ?v"
    using all assms(2) by (intro properties_for_sort_key) (simp_all add: sorted_contents)
  then show ?thesis by simp
qed

end

interpretation oq: send_queue push_at next_msg drop_expired view oq_ok
proof
  fix q :: "('k, 'a) OutQueue" and now n q'
  assume ok: "oq_ok q" and d: "drop_expired now q = (n, q')"
  have "view q = view q' @ dropWhile (\<lambda>x. \<not> expired_priority now (conf q) (view q) (fst x)) (view q)"
    using drop_expired_refines [OF ok d] by (simp add: spec_drop_def)
  with drop_expired_refines [OF ok d]
  show "oq_ok q' \<and> (\<exists>dropped. view q = view q' @ dropped \<and> n = length dropped)"
    by (metis add.commute add_left_cancel length_append)
qed (auto simp: view_sorted push_at_ok push_at_view next_msg_empty dest: next_msg_first)

text \<open>
  What a socket's \<open>write\<close> does to its queue before it flushes: expired messages are dropped, then
  the new message, if there is one, is queued.
\<close>

definition queued_after ::
  "readings \<Rightarrow> instant \<Rightarrow> 'k SocketConfig \<Rightarrow> (Priority \<times> 'a) option \<Rightarrow> 'a queued list \<Rightarrow> 'a queued list" where
  "queued_after t_drop t_push c new v =
     (case new of
        None \<Rightarrow> spec_drop t_drop c v
      | Some (p, msg) \<Rightarrow> spec_push (p, t_push, msg) (spec_drop t_drop c v))"

lemma drop_expired_steps:
  assumes "oq_ok q"
  shows "oq_ok (snd (drop_expired t q))" "view (snd (drop_expired t q)) = spec_drop t (conf q) (view q)"
    "conf (snd (drop_expired t q)) = conf q"
  using drop_expired_refines [OF assms, of t "fst (drop_expired t q)" "snd (drop_expired t q)"] by simp_all

lemma push_steps:
  assumes "oq_ok q"
  shows "oq_ok (push t msg p q)" "view (push t msg p q) = spec_push (p, t, msg) (view q)"
    "conf (push t msg p q) = conf q"
  using assms by (simp_all add: push_def push_at_ok push_at_view)

section \<open>Expiration\<close>

text \<open>Within a priority the messages are in the order of their timestamps.\<close>

definition fifo_times :: "'a queued list \<Rightarrow> bool" where
  "fifo_times v \<longleftrightarrow> sorted_wrt (\<lambda>x y. fst x = fst y \<longrightarrow> fst (snd x) \<le> fst (snd y)) v"

lemma fifo_times_push:
  assumes "fifo_times v" and "\<forall>x\<in>set v. fst (snd x) \<le> now"
  shows "fifo_times (spec_push (p, now, msg) v)"
  using assms
  by (auto simp: fifo_times_def spec_push_def sorted_wrt_append sorted_wrt_filter)

lemma expired_priority_first:
  assumes "fifo_times v" and "x \<in> set v" and "conf_msg_drop_priority c \<le> fst x"
    and "unat (conf_max_msg_age_secs c) < elapsed_secs (now (fst x)) (fst (snd x))"
  shows "expired_priority now c v (fst x)"
proof -
  let ?c = "filter (\<lambda>y. fst y = fst x) v"
  have "x \<in> set ?c" using assms(2) by simp
  then obtain y ys where y: "?c = y # ys" by (cases ?c) auto
  have "sorted_wrt (\<lambda>x y. fst x = fst y \<longrightarrow> fst (snd x) \<le> fst (snd y)) (y # ys)"
    using assms(1) unfolding fifo_times_def y [symmetric] by (rule sorted_wrt_filter)
  moreover have "fst y = fst x" using y by (metis (mono_tags) list.set_intros(1) mem_Collect_eq set_filter)
  ultimately have "fst (snd y) \<le> fst (snd x)"
    using \<open>x \<in> set ?c\<close> y by auto
  then have "elapsed_secs (now (fst x)) (fst (snd x)) \<le> elapsed_secs (now (fst x)) (fst (snd y))"
    by (rule elapsed_secs_antimono)
  then show ?thesis
    using assms(3,4) y by (simp add: expired_priority_def)
qed

lemma spec_drop_fresh:
  assumes "fifo_times v" and "x \<in> set (spec_drop now c v)" and "conf_msg_drop_priority c \<le> fst x"
  shows "elapsed_secs (now (fst x)) (fst (snd x)) \<le> unat (conf_max_msg_age_secs c)"
  using assms expired_priority_first [OF assms(1), of x c now]
  by (fastforce simp: spec_drop_def dest: set_takeWhileD)

text \<open>The messages kept are those more urgent than every expired priority.\<close>

lemma spec_drop_filter:
  assumes "sorted (map fst v)"
  shows "spec_drop now c v = filter (\<lambda>x. \<forall>p\<in>fst ` set v. expired_priority now c v p \<longrightarrow> fst x < p) v"
proof -
  let ?E = "expired_priority now c v"
  have "filter (\<lambda>x. \<forall>p\<in>fst ` set v. ?E p \<longrightarrow> fst x < p) w = takeWhile (\<lambda>x. \<not> ?E (fst x)) w"
    if "sorted (map fst w)" and "set w \<subseteq> set v" and "\<forall>y\<in>set v - set w. \<not> ?E (fst y)" for w
    using that
  proof (induction w)
    case (Cons x w)
    show ?case
    proof (cases "?E (fst x)")
      case True
      have "\<not> fst y < fst x" if "y \<in> set (x # w)" for y
        using Cons.prems(1) that by auto
      with True Cons.prems(2) show ?thesis
        by (auto simp: filter_empty_conv)
    next
      case False
      have "filter (\<lambda>x. \<forall>p\<in>fst ` set v. ?E p \<longrightarrow> fst x < p) w = takeWhile (\<lambda>x. \<not> ?E (fst x)) w"
        using Cons.prems False by (intro Cons.IH) auto
      moreover have "fst x < fst y" if "y \<in> set v" "?E (fst y)" for y
      proof -
        have "y \<in> set (x # w)" using Cons.prems(3) that by blast
        then have "fst x \<le> fst y" using Cons.prems(1) by auto
        moreover have "fst x \<noteq> fst y" using False that(2) by auto
        ultimately show ?thesis by simp
      qed
      ultimately show ?thesis using False by auto
    qed
  qed simp
  from this [of v] assms show ?thesis by (simp add: spec_drop_def)
qed

lemma spec_drop_keeps_urgent:
  assumes "sorted (map fst v)"
  shows "filter (\<lambda>x. fst x < conf_msg_drop_priority c) (spec_drop now c v) =
    filter (\<lambda>x. fst x < conf_msg_drop_priority c) v"
proof -
  have "fst x < p" if "fst x < conf_msg_drop_priority c" "expired_priority now c v p" for x p
    using that by (auto simp: expired_priority_def intro: less_le_trans)
  then show ?thesis
    unfolding spec_drop_filter [OF assms] by (auto intro!: filter_cong)
qed

section \<open>Concrete readings and configurations\<close>

text \<open>\<open>secs n\<close> is \<open>n\<close> seconds, as a duration or as a reading so long after the origin.\<close>

definition secs :: "nat \<Rightarrow> instant" where
  "secs n = n * 1000000000"

definition test_conf :: "u8 \<Rightarrow> u64 \<Rightarrow> nat SocketConfig" where
  "test_conf p age = SocketConfig_default\<lparr> conf_msg_drop_priority := p, conf_max_msg_age_secs := age \<rparr>"

lemmas queue_evals [queue_simps] =
  OutQueue_new_def push_def push_at_def next_msg_def drop_expired_def expired_queues_def
  is_queue_valid_def elapsed_secs_def secs_def test_conf_def config_defaults Let_def

section \<open>Properties\<close>

text \<open>
  Queueing a message refines insertion into the sending order: it is placed behind every
  message of the same or a more urgent priority and before all less urgent ones, and the queue's
  invariant (keys in order, no empty queue left in the map) is kept.
\<close>

theorem push_refines:
  assumes "oq_ok q"
  shows "oq_ok (push now msg p q) \<and> view (push now msg p q) = spec_push (p, now, msg) (view q)"
  using assms by (simp add: push_def oq.enqueue_ok oq.enqueue_contents)

definition sample_queue :: "(nat, string) OutQueue" where
  "sample_queue = push_at (secs 3) ''b'' 2 (push_at (secs 2) ''a'' 1 (OutQueue_new (test_conf 2 10)))"

lemma sample_queue_ok: "oq_ok sample_queue"
  by (simp add: sample_queue_def oq_ok_new push_at_ok)

lemma sample_queue_view: "view sample_queue = [(1, secs 2, ''a''), (2, secs 3, ''b'')]"
  by (simp add: sample_queue_def view_def queue_simps)

lemma sample_queue_conf: "conf sample_queue = test_conf 2 10"
  by (simp add: sample_queue_def OutQueue_new_def)

theorem push_refines_witness:
  "view (push (secs 4) ''c'' 1 sample_queue) =
     [(1, secs 2, ''a''), (1, secs 4, ''c''), (2, secs 3, ''b'')]"
  using push_refines [OF sample_queue_ok, of "secs 4" "''c''" 1]
  by (simp add: sample_queue_view spec_push_def word_le_nat_alt)

text \<open>
  Taking the next message never panics on a queue the crate can build (the \<open>unwrap!\<close> in
  \<open>next_msg\<close> is safe), returns the oldest message of the most urgent priority, removes exactly
  that message, and returns \<open>None\<close> only when nothing is queued.
\<close>

theorem next_msg_pops_first:
  assumes "oq_ok q"
  shows "\<exists>q'. oq_ok q' \<and>
    next_msg q = Done (case view q of [] \<Rightarrow> None | (p, t, msg) # v \<Rightarrow> Some msg, q') \<and>
    view q' = tl (view q)"
  using assms by (cases rule: oq.nxt_cases) (use assms in auto)

theorem next_msg_pops_first_witness:
  "\<exists>q'. oq_ok q' \<and> next_msg sample_queue = Done (Some ''a'', q') \<and>
     view q' = [(2, secs 3, ''b'')]"
  using next_msg_pops_first [OF sample_queue_ok] by (simp add: sample_queue_view)

text \<open>
  C9. Dropping expired messages refines the specification on the sending order: everything from
  the first expired priority on is dropped (a priority is expired when it may be dropped and its
  oldest message is too old), the rest stays in order, and the number returned counts what was
  dropped.
\<close>

theorem drop_expired_spec:
  assumes "oq_ok q" and "drop_expired now q = (n, q')"
  shows "oq_ok q' \<and> view q' = spec_drop now (conf q) (view q) \<and>
    n = length (view q) - length (view q')"
  using drop_expired_refines [OF assms] by auto

theorem drop_expired_spec_witness:
  "fst (drop_expired (\<lambda>_. secs 100) sample_queue) = 1 \<and>
     view (snd (drop_expired (\<lambda>_. secs 100) sample_queue)) = [(1, secs 2, ''a'')]"
proof -
  obtain n q' where d: "drop_expired (\<lambda>_. secs 100) sample_queue = (n, q')"
    by (cases "drop_expired (\<lambda>_. secs 100) sample_queue")
  have "spec_drop (\<lambda>_. secs 100) (test_conf 2 10) (view sample_queue) = [(1, secs 2, ''a'')]"
    by (simp add: sample_queue_view spec_drop_def expired_priority_def word_le_nat_alt
        elapsed_secs_def secs_def test_conf_def)
  then show ?thesis
    using drop_expired_spec [OF sample_queue_ok d] by (simp add: d sample_queue_conf sample_queue_view)
qed

text \<open>
  Messages whose priority value is below \<open>msg_drop_priority\<close> are never dropped, whatever
  their age and whatever else is queued, and they keep their order.
\<close>

theorem urgent_never_dropped:
  assumes "oq_ok q"
  shows "filter (\<lambda>x. fst x < conf_msg_drop_priority (conf q)) (view (snd (drop_expired now q))) =
    filter (\<lambda>x. fst x < conf_msg_drop_priority (conf q)) (view q)"
proof -
  obtain n q' where "drop_expired now q = (n, q')" by (cases "drop_expired now q")
  with drop_expired_refines [OF assms this] show ?thesis
    using spec_drop_keeps_urgent [OF view_sorted [OF assms]] by simp
qed

theorem urgent_never_dropped_witness:
  "filter (\<lambda>x. fst x < 2) (view (snd (drop_expired (\<lambda>_. secs 100) sample_queue))) = [(1, secs 2, ''a'')]"
  using urgent_never_dropped [OF sample_queue_ok, of "\<lambda>_. secs 100"]
  by (simp add: sample_queue_view) (simp add: sample_queue_def OutQueue_new_def test_conf_def)

text \<open>
  As long as messages are queued with non-decreasing timestamps, after \<open>drop_expired\<close> no
  droppable message older than \<open>max_msg_age_secs\<close> is left, although only the front of each queue
  was looked at.
\<close>

theorem no_stale_message_left:
  assumes "oq_ok q" and "fifo_times (view q)"
    and "(p, t, msg) \<in> set (view (snd (drop_expired now q)))"
    and "conf_msg_drop_priority (conf q) \<le> p"
  shows "elapsed_secs (now p) t \<le> unat (conf_max_msg_age_secs (conf q))"
proof -
  obtain n q' where "drop_expired now q = (n, q')" by (cases "drop_expired now q")
  with drop_expired_refines [OF assms(1) this] assms(2-4) show ?thesis
    using spec_drop_fresh [of "view q" "(p, t, msg)" now "conf q"] by simp
qed

theorem no_stale_message_left_witness: "elapsed_secs (secs 10) (secs 3) \<le> 10"
proof -
  have "view (snd (drop_expired (\<lambda>_. secs 10) sample_queue)) = view sample_queue"
    by (simp add: sample_queue_def view_def queue_simps)
  then have "elapsed_secs (secs 10) (secs 3) \<le> unat (conf_max_msg_age_secs (conf sample_queue))"
    by (intro no_stale_message_left [OF sample_queue_ok, of 2 _ "''b''"])
      (simp_all add: sample_queue_view fifo_times_def, simp add: sample_queue_def queue_simps)
  then show ?thesis by (simp add: sample_queue_def queue_simps)
qed

text \<open>
  C8. A batch of messages queued on an empty queue and then taken out one by one comes out as a
  stable sort by priority: the most urgent first, and first in first out within a priority.
\<close>

theorem queue_is_stable_sort:
  fixes es :: "'a queued list"
  shows "\<exists>q'. drain next_msg (Suc (length es))
      (fold (\<lambda>(p, t, msg). push t msg p) es (OutQueue_new c)) = Done (msgs (sort_key fst es), q')
    \<and> view q' = []"
proof -
  let ?q = "fold (\<lambda>(p, t, msg). push_at t msg p) es (OutQueue_new c)"
  have eq: "fold (\<lambda>(p, t, msg). push t msg p) es (OutQueue_new c) = ?q"
    by (rule fold_cong) (auto simp: push_def)
  have v: "view ?q = sort_key fst es"
    by (rule oq.enqueue_all_sorts) (simp_all add: oq_ok_new view_new)
  have ok: "oq_ok ?q"
    using oq.enqueue_all [OF oq_ok_new, of es] by blast
  have "length (view ?q) < Suc (length es)"
    by (simp add: v)
  from oq.drain_all [OF ok this] show ?thesis by (auto simp: v eq)
qed

end
