(* ===== verification/Mailbox.thy ===== *)
theory Mailbox
  imports Out_Queue "HOL-Library.Sublist"
begin

text \<open>
  The abstract specification of a sending socket, for any transport: a mailbox in which messages
  wait, tagged with their priority and time of arrival, and from which they depart, most urgent
  first. Nothing of the code's queue, buffers, retries or framing is left in it. \<open>Send_Order\<close> and
  the theories of the sessions show that the sockets implement it; what holds of every run of the
  mailbox holds of every session.
\<close>

section \<open>Priority classes\<close>

abbreviation of_class :: "Priority \<Rightarrow> 'a queued list \<Rightarrow> 'a queued list" where
  "of_class k v \<equiv> filter (\<lambda>x. fst x = k) v"

abbreviation retag :: "('a \<Rightarrow> 'b) \<Rightarrow> 'a queued list \<Rightarrow> 'b queued list" where
  "retag f v \<equiv> map (apsnd (apsnd f)) v"

lemma retag_class: "of_class k (retag f v) = retag f (of_class k v)"
  by (induction v) auto

lemma expired_priority_retag: "expired_priority now c (retag f v) = expired_priority now c v"
  by (rule ext) (simp add: expired_priority_def retag_class split: list.split)

lemma queued_after_retag:
  "queued_after t t' c (map_option (apsnd f) new) (retag f v) = retag f (queued_after t t' c new v)"
proof -
  have drop: "spec_drop t c (retag f v) = retag f (spec_drop t c v)"
    by (simp add: spec_drop_def takeWhile_map o_def expired_priority_retag)
  have push: "spec_push (p, t', f x) (retag f w) = retag f (spec_push (p, t', x) w)" for p x w
    by (simp add: spec_push_def filter_map o_def)
  show ?thesis
    by (cases new) (auto simp: queued_after_def drop push)
qed

lemma spec_drop_prefix:
  obtains dropped where "v = spec_drop t c v @ dropped"
  unfolding spec_drop_def by (metis takeWhile_dropWhile_id)

lemma pending_of_drop: "\<exists>dropped. pending_of current v = pending_of current (spec_drop t c v) @ dropped"
  by (rule spec_drop_prefix [of v t c]) (metis append_assoc map_append pending_of_def)

lemma spec_drop_sorted: "sorted (map fst v) \<Longrightarrow> sorted (map fst (spec_drop t c v))"
  by (rule spec_drop_prefix [of v t c]) (metis map_append sorted_append)

lemma spec_drop_class_subseq: "subseq (of_class k (spec_drop t c v)) (of_class k v)"
proof (rule spec_drop_prefix [of v t c])
  fix dropped assume "v = spec_drop t c v @ dropped"
  then have "of_class k v = of_class k (spec_drop t c v) @ of_class k dropped"
    by (metis filter_append)
  then show ?thesis by (simp add: prefix_imp_subseq)
qed

lemma spec_drop_class_urgent:
  assumes "sorted (map fst v)" and "k < conf_msg_drop_priority c"
  shows "of_class k (spec_drop t c v) = of_class k v"
proof -
  have "of_class k w = of_class k (filter (\<lambda>x. fst x < conf_msg_drop_priority c) w)" for w :: "'a queued list"
    using assms(2) by (auto intro: filter_cong)
  then show ?thesis using spec_drop_keeps_urgent [OF assms(1), of c t] by metis
qed

lemma spec_push_class:
  assumes "sorted (map fst v)"
  shows "of_class k (spec_push (p, t, x) v) = of_class k v @ of_class k [(p, t, x)]"
proof -
  have "of_class k (filter (\<lambda>x. fst x \<le> p) v) @ of_class k (filter (\<lambda>x. p < fst x) v) = of_class k v"
    using arg_cong [OF filter_le_gt_sorted [OF assms], of "of_class k" p] by simp
  moreover have "of_class k (filter (\<lambda>x. k < fst x) v) = []"
    by (rule filter_False) auto
  moreover have "of_class p (filter (\<lambda>x. fst x \<le> p) v) = of_class p v"
    by (auto intro: filter_cong)
  ultimately show ?thesis by (auto simp: spec_push_def)
qed

lemma spec_push_sorted:
  assumes "sorted (map fst v)"
  shows "sorted (map fst (spec_push e v))"
  using assms by (auto simp: spec_push_def sorted_append intro: sorted_filter)

section \<open>What has been delivered\<close>

text \<open>
  \<open>delivered c es out v\<close>: of the messages \<open>es\<close> accepted so far, \<open>out\<close> have gone to the wire and \<open>v\<close>
  are queued. Within each priority the order is kept and nothing is duplicated; for the
  priorities that may not be dropped, nothing is missing either.
\<close>

definition delivered ::
  "'k SocketConfig \<Rightarrow> 'a queued list \<Rightarrow> 'a queued list \<Rightarrow> 'a queued list \<Rightarrow> bool" where
  "delivered c es out v \<longleftrightarrow>
     (\<forall>k. subseq (of_class k out @ of_class k v) (of_class k es)) \<and>
     (\<forall>k < conf_msg_drop_priority c. of_class k out @ of_class k v = of_class k es)"

lemma delivered_subset:
  assumes "delivered c es out v"
  shows "set out \<union> set v \<subseteq> set es"
proof
  fix x assume "x \<in> set out \<union> set v"
  then have "x \<in> set (of_class (fst x) out @ of_class (fst x) v)" by auto
  moreover have "subseq (of_class (fst x) out @ of_class (fst x) v) (of_class (fst x) es)"
    using assms by (simp add: delivered_def)
  ultimately have "x \<in> set (of_class (fst x) es)" by (blast elim: list_emb_set)
  then show "x \<in> set es" by simp
qed

section \<open>The mailbox\<close>

record 'a mailbox =
  waiting :: "'a queued list"
  departed :: "'a queued list"

datatype 'a mail_event =
    Expire readings
  | Accept Priority instant 'a
  | Depart

definition empty_mailbox :: "'a mailbox" where
  "empty_mailbox = \<lparr> waiting = [], departed = [] \<rparr>"

text \<open>
  Expiration discards whole classes from the back, a message that is accepted goes behind those of
  its priority, the first one departs. Nothing departs from an empty mailbox.
\<close>

definition mail_step :: "'k SocketConfig \<Rightarrow> 'a mail_event \<Rightarrow> 'a mailbox \<Rightarrow> 'a mailbox option" where
  "mail_step c e m =
     (case e of
        Expire now \<Rightarrow> Some (m\<lparr> waiting := spec_drop now c (waiting m) \<rparr>)
      | Accept p t x \<Rightarrow> Some (m\<lparr> waiting := spec_push (p, t, x) (waiting m) \<rparr>)
      | Depart \<Rightarrow>
          (case waiting m of
             [] \<Rightarrow> None
           | x # v \<Rightarrow> Some (m\<lparr> waiting := v, departed := departed m @ [x] \<rparr>)))"

fun mail_run :: "'k SocketConfig \<Rightarrow> 'a mail_event list \<Rightarrow> 'a mailbox \<Rightarrow> 'a mailbox option" where
  "mail_run c [] m = Some m"
| "mail_run c (e # evs) m = Option.bind (mail_step c e m) (mail_run c evs)"

text \<open>What the events of a run have brought in.\<close>

fun arrivals :: "'a mail_event list \<Rightarrow> 'a queued list" where
  "arrivals [] = []"
| "arrivals (Accept p t x # evs) = (p, t, x) # arrivals evs"
| "arrivals (_ # evs) = arrivals evs"

lemma mail_run_append: "mail_run c (evs @ evs') m = Option.bind (mail_run c evs m) (mail_run c evs')"
  by (induction evs arbitrary: m) (simp_all split: bind_splits)

lemma arrivals_append [simp]: "arrivals (evs @ evs') = arrivals evs @ arrivals evs'"
  by (induction evs rule: arrivals.induct) simp_all

lemma arrivals_depart [simp]: "arrivals (replicate n Depart) = []"
  by (induction n) simp_all

text \<open>
  Every step keeps the waiting messages sorted by priority, and the mailbox delivers: within each
  priority the order is kept, nothing is duplicated, and what may not be dropped is not lost.
\<close>

definition mail_ok :: "'k SocketConfig \<Rightarrow> 'a queued list \<Rightarrow> 'a mailbox \<Rightarrow> bool" where
  "mail_ok c es m \<longleftrightarrow> sorted (map fst (waiting m)) \<and> delivered c es (departed m) (waiting m)"

lemma mail_ok_empty: "mail_ok c [] empty_mailbox"
  by (simp add: mail_ok_def empty_mailbox_def delivered_def)

lemma delivered_drop:
  assumes "delivered c es out v" and "sorted (map fst v)"
  shows "delivered c es out (spec_drop t c v)"
proof -
  have "subseq (of_class k out @ of_class k (spec_drop t c v)) (of_class k out @ of_class k v)" for k
    by (intro list_emb_append_mono spec_drop_class_subseq) simp
  with assms show ?thesis
    by (auto simp: delivered_def spec_drop_class_urgent intro: subseq_order.trans)
qed

lemma delivered_push:
  assumes "delivered c es out v" and "sorted (map fst v)"
  shows "delivered c (es @ [(p, t, x)]) out (spec_push (p, t, x) v)"
proof -
  have "of_class k out @ of_class k (spec_push (p, t, x) v) =
      (of_class k out @ of_class k v) @ of_class k [(p, t, x)]" for k
    by (simp only: spec_push_class [OF assms(2)] append_assoc)
  moreover have "of_class k (es @ [(p, t, x)]) = of_class k es @ of_class k [(p, t, x)]" for k
    by (rule filter_append)
  ultimately show ?thesis
    using assms(1) unfolding delivered_def by (simp only:) (intro conjI allI impI list_emb_append_mono, auto)
qed

lemma delivered_depart: "delivered c es (out @ [x]) v \<longleftrightarrow> delivered c es out (x # v)"
proof -
  have "of_class k (out @ [x]) @ of_class k v = of_class k out @ of_class k (x # v)" for k
    by simp
  then show ?thesis unfolding delivered_def by (simp only:)
qed

lemma mail_ok_step:
  assumes "mail_step c e m = Some m'" and "mail_ok c es m"
  shows "mail_ok c (es @ arrivals [e]) m'"
proof (cases e)
  case (Expire t)
  with assms show ?thesis
    by (auto simp: mail_ok_def mail_step_def spec_drop_sorted delivered_drop)
next
  case (Accept p t x)
  with assms show ?thesis
    by (auto simp: mail_ok_def mail_step_def spec_push_sorted delivered_push)
next
  case Depart
  with assms show ?thesis
    by (auto simp: mail_ok_def mail_step_def delivered_depart split: list.splits)
qed

lemma mail_ok_run:
  "mail_run c evs m = Some m' \<Longrightarrow> mail_ok c es m \<Longrightarrow> mail_ok c (es @ arrivals evs) m'"
proof (induction evs arbitrary: es m)
  case (Cons e evs)
  then obtain m1 where "mail_step c e m = Some m1" "mail_run c evs m1 = Some m'"
    by (auto split: bind_splits)
  with mail_ok_step [of c e m m1 es] Cons have "mail_ok c ((es @ arrivals [e]) @ arrivals evs) m'"
    by blast
  moreover have "arrivals (e # evs) = arrivals [e] @ arrivals evs"
    using arrivals_append [of "[e]" evs] by simp
  ultimately show ?case by simp
qed simp

section \<open>The events of a call\<close>

text \<open>The message a write adds, tagged with the time of its arrival.\<close>

definition arrival :: "instant \<Rightarrow> (Priority \<times> 'a) option \<Rightarrow> 'a queued list" where
  "arrival t' new = (case new of None \<Rightarrow> [] | Some (p, x) \<Rightarrow> [(p, t', x)])"

text \<open>A write expires, accepts its message if it has one, and lets \<open>n\<close> messages depart.\<close>

definition write_events :: "readings \<Rightarrow> instant \<Rightarrow> (Priority \<times> 'a) option \<Rightarrow> nat \<Rightarrow> 'a mail_event list" where
  "write_events t t' new n =
     Expire t # (case new of None \<Rightarrow> [] | Some (p, x) \<Rightarrow> [Accept p t' x]) @ replicate n Depart"

lemma arrivals_write: "arrivals (write_events t t' new n) = arrival t' new"
  by (auto simp: write_events_def arrival_def split: option.split)

lemma mail_run_depart:
  "waiting m = taken @ v \<Longrightarrow> mail_run c (replicate (length taken) Depart) m =
     Some (m\<lparr> waiting := v, departed := departed m @ taken \<rparr>)"
  by (induction taken arbitrary: m) (simp_all add: mail_step_def)

lemma mail_run_write:
  assumes "queued_after t t' c new (waiting m) = taken @ v"
  shows "mail_run c (write_events t t' new (length taken)) m =
    Some (m\<lparr> waiting := v, departed := departed m @ taken \<rparr>)"
proof -
  let ?m = "m\<lparr> waiting := taken @ v \<rparr>"
  have "mail_run c (write_events t t' new (length taken)) m = mail_run c (replicate (length taken) Depart) ?m"
    using assms by (auto simp: write_events_def queued_after_def mail_step_def split: option.splits)
  also have "\<dots> = Some (?m\<lparr> waiting := v, departed := departed ?m @ taken \<rparr>)"
    by (rule mail_run_depart) simp
  finally show ?thesis by simp
qed

end
