(* ===== verification/Mio.thy ===== *)
theory Mio
  imports Errors
begin

text \<open>
  The interface of the crate to \<open>mio\<close> and the operating system. Sockets, the poll and the network
  are not part of the repository: they are a state of the type \<open>'s\<close> and a record of the calls the
  crate makes on it, a parameter of every definition that performs I/O. A read returns the bytes
  it stored in the caller's buffer, whose length it is given: the caller's \<open>buffer[..n]\<close> is that
  answer itself, so the system's promise that the count is not beyond the buffer is in the type.
\<close>

datatype SocketAddr = V4 u32 u16 | V6 "128 word" u16 u32 u32

type_synonym Token = nat
type_synonym Ready = u64
type_synonym PollOpt = u64
type_synonym Poll = nat

text \<open>A duration in nanoseconds.\<close>

type_synonym Duration = nat

text \<open>The reading window: \<open>[0; 64 * 1024]\<close>.\<close>

definition BUF_LEN :: usize where
  "BUF_LEN = 64 * 1024"

record 's tcp_ops =
  ts_connect :: "'s \<Rightarrow> SocketAddr \<Rightarrow> io_error + 's"
  ts_read :: "'s \<Rightarrow> usize \<Rightarrow> (io_error + byte list) \<times> 's"
  ts_write :: "'s \<Rightarrow> byte list \<Rightarrow> (io_error + usize) \<times> 's"
  ts_set_linger :: "'s \<Rightarrow> Duration option \<Rightarrow> (io_error + unit) \<times> 's"
  ts_set_ttl :: "'s \<Rightarrow> u32 \<Rightarrow> (io_error + unit) \<times> 's"
  ts_ttl :: "'s \<Rightarrow> (io_error + u32) \<times> 's"
  ts_local_addr :: "'s \<Rightarrow> (io_error + SocketAddr) \<times> 's"
  ts_peer_addr :: "'s \<Rightarrow> (io_error + SocketAddr) \<times> 's"
  ts_take_error :: "'s \<Rightarrow> (io_error + io_error option) \<times> 's"
  ts_register :: "'s \<Rightarrow> Poll \<Rightarrow> Token \<Rightarrow> Ready \<Rightarrow> PollOpt \<Rightarrow> (io_error + unit) \<times> 's"
  ts_reregister :: "'s \<Rightarrow> Poll \<Rightarrow> Token \<Rightarrow> Ready \<Rightarrow> PollOpt \<Rightarrow> (io_error + unit) \<times> 's"
  ts_deregister :: "'s \<Rightarrow> Poll \<Rightarrow> (io_error + unit) \<times> 's"
  ts_shutdown_both :: "'s \<Rightarrow> (io_error + unit) \<times> 's"

record 's udp_ops =
  us_bind :: "'s \<Rightarrow> SocketAddr \<Rightarrow> io_error + 's"
  us_connect :: "'s \<Rightarrow> SocketAddr \<Rightarrow> (io_error + unit) \<times> 's"
  us_recv :: "'s \<Rightarrow> usize \<Rightarrow> (io_error + byte list) \<times> 's"
  us_recv_from :: "'s \<Rightarrow> usize \<Rightarrow> (io_error + (byte list \<times> SocketAddr)) \<times> 's"
  us_send :: "'s \<Rightarrow> byte list \<Rightarrow> (io_error + usize) \<times> 's"
  us_send_to :: "'s \<Rightarrow> byte list \<Rightarrow> SocketAddr \<Rightarrow> (io_error + usize) \<times> 's"
  us_set_ttl :: "'s \<Rightarrow> u32 \<Rightarrow> (io_error + unit) \<times> 's"
  us_ttl :: "'s \<Rightarrow> (io_error + u32) \<times> 's"
  us_local_addr :: "'s \<Rightarrow> (io_error + SocketAddr) \<times> 's"
  us_take_error :: "'s \<Rightarrow> (io_error + io_error option) \<times> 's"
  us_register :: "'s \<Rightarrow> Poll \<Rightarrow> Token \<Rightarrow> Ready \<Rightarrow> PollOpt \<Rightarrow> (io_error + unit) \<times> 's"
  us_reregister :: "'s \<Rightarrow> Poll \<Rightarrow> Token \<Rightarrow> Ready \<Rightarrow> PollOpt \<Rightarrow> (io_error + unit) \<times> 's"
  us_deregister :: "'s \<Rightarrow> Poll \<Rightarrow> (io_error + unit) \<times> 's"

section \<open>The lazily initialised socket\<close>

text \<open>
  Both socket types hold an \<open>Option<Inner>\<close> and start each method with
  \<open>self.inner.as_mut().ok_or(SocketError::UninitialisedSocket)?\<close>: the method's body runs on the
  inner state, if there is one. The second form is that of the loops, which may diverge.
\<close>

definition with_inner :: "'i option \<Rightarrow> ('i \<Rightarrow> 'a res \<times> 'i) \<Rightarrow> 'a res \<times> 'i option" where
  "with_inner sock f =
     (case sock of
        None \<Rightarrow> (Inl UninitialisedSocket, None)
      | Some i \<Rightarrow> (case f i of (r, i') \<Rightarrow> (r, Some i')))"

definition with_inner_loop ::
  "'i option \<Rightarrow> ('i \<Rightarrow> ('a res \<times> 'i) outcome option) \<Rightarrow> ('a res \<times> 'i option) outcome option" where
  "with_inner_loop sock f =
     (case sock of
        None \<Rightarrow> Some (Done (Inl UninitialisedSocket, None))
      | Some i \<Rightarrow> map_option (map_outcome (\<lambda>(r, i'). (r, Some i'))) (f i))"

text \<open>The methods of \<open>Evented\<close> answer with an \<open>io::Error\<close> instead.\<close>

definition with_inner_io ::
  "'i option \<Rightarrow> ('i \<Rightarrow> (io_error + unit) \<times> 'i) \<Rightarrow> (io_error + unit) \<times> 'i option" where
  "with_inner_io sock f =
     (case sock of
        None \<Rightarrow> (Inl uninitialised_io_error, None)
      | Some i \<Rightarrow> (case f i of (r, i') \<Rightarrow> (r, Some i')))"

lemmas guard_defs = with_inner_def with_inner_loop_def with_inner_io_def

text \<open>\<open>Ok(f()?)\<close> on an I/O result.\<close>

definition io_res :: "io_error + 'a \<Rightarrow> 'a res" where
  "io_res r = try_op Io r Inr"

lemma io_res_simps [simp]: "io_res (Inl e) = Inl (Io e)" "io_res (Inr x) = Inr x"
  by (simp_all add: io_res_def)

end
