(* ===== verification/Flush_Loop.thy ===== *)
theory Flush_Loop
  imports Out_Queue Mio
begin

text \<open>
  What the flush loops of the sockets have in common. Each turn takes the message being written
  or the next one of the queue and hands it to the operating system, which accepts it (perhaps
  only in part), would block, or fails. The locale states one turn in terms of the list of
  messages still to be sent and of the errors that end the loop; the TCP loop and the two UDP
  loops are its instances.
\<close>

text \<open>The errors with which the TCP and the UDP loop give up.\<close>

definition io_failure :: "SocketError \<Rightarrow> bool" where
  "io_failure e \<longleftrightarrow> (\<exists>x. e = Io x \<and> \<not> is_would_block x)"

locale flush_loop =
  fixes turn :: "'i \<Rightarrow> 'i + (bool res \<times> 'i) outcome"
    and pend :: "'i \<Rightarrow> 'a list"
    and ok :: "'i \<Rightarrow> bool"
    and genuine :: "SocketError \<Rightarrow> bool"
  assumes turn_empty: "ok i \<Longrightarrow> pend i = [] \<Longrightarrow>
        \<exists>i'. turn i = Inr (Done (Inr True, i')) \<and> ok i' \<and> pend i' = []"
    and turn_first: "ok i \<Longrightarrow> pend i = d # ds \<Longrightarrow>
        (\<exists>i'. turn i = Inl i' \<and> ok i' \<and> (pend i' = ds \<or> (\<exists>d'. pend i' = d' # ds))) \<or>
        (\<exists>i'. turn i = Inr (Done (Inr False, i')) \<and> ok i' \<and> pend i' = d # ds) \<or>
        (\<exists>i' e. turn i = Inr (Done (Inl e, i')) \<and> ok i' \<and> pend i' = ds \<and> genuine e)"
begin

lemma turn_cases:
  assumes "ok i"
  obtains (empty) i' where "pend i = []" "turn i = Inr (Done (Inr True, i'))" "ok i'" "pend i' = []"
  | (accepted) d ds i' where "pend i = d # ds" "turn i = Inl i'" "ok i'"
      "pend i' = ds \<or> (\<exists>d'. pend i' = d' # ds)"
  | (blocked) d ds i' where "pend i = d # ds" "turn i = Inr (Done (Inr False, i'))" "ok i'"
      "pend i' = d # ds"
  | (failed) d ds i' e where "pend i = d # ds" "turn i = Inr (Done (Inl e, i'))" "ok i'"
      "pend i' = ds" "genuine e"
proof (cases "pend i")
  case Nil
  with turn_empty [OF assms] empty show thesis by blast
next
  case (Cons d ds)
  from turn_first [OF assms Cons] show thesis
    using accepted [OF Cons] blocked [OF Cons] failed [OF Cons] by metis
qed

text \<open>The number of messages still to be sent never grows, and the order behind the first one is kept.\<close>

definition behind :: "'a list \<Rightarrow> 'a list \<Rightarrow> bool" where
  "behind old new \<longleftrightarrow> (\<exists>sent. old = sent @ new) \<or> (\<exists>sent d d' rest. old = sent @ d # rest \<and> new = d' # rest)"

lemma behind_refl: "behind xs xs"
  by (auto simp: behind_def)

lemma behind_step:
  assumes "behind old (d # ds)" and "new = ds \<or> (\<exists>d'. new = d' # ds)"
  shows "behind old new"
proof -
  from assms(1) obtain sent d0 where "old = sent @ d0 # ds"
    by (auto simp: behind_def)
  then have "old = (sent @ [d0]) @ ds" "old = sent @ d0 # ds" by simp_all
  with assms(2) show ?thesis unfolding behind_def by blast
qed

lemma flush_result:
  assumes "rust_loop turn i = Some out" and "ok i"
  shows "\<exists>r i'. out = Done (r, i') \<and> ok i' \<and> behind (pend i) (pend i') \<and>
    (r = Inr True \<and> pend i' = [] \<or> r = Inr False \<and> pend i' \<noteq> [] \<or>
     (\<exists>e. r = Inl e \<and> genuine e))"
proof (rule rust_loop_rule [OF assms(1), where P = "\<lambda>j. ok j \<and> behind (pend i) (pend j)"])
  show "ok i \<and> behind (pend i) (pend i)" using assms(2) by (simp add: behind_refl)
next
  fix j j' assume j: "ok j \<and> behind (pend i) (pend j)" and t: "turn j = Inl j'"
  from j have "ok j" by simp
  then show "ok j' \<and> behind (pend i) (pend j')"
  proof (cases rule: turn_cases)
    case (accepted d ds j1)
    with j t show ?thesis by (auto intro: behind_step)
  qed (use t in simp_all)
next
  fix j out assume j: "ok j \<and> behind (pend i) (pend j)" and t: "turn j = Inr out"
  from j have "ok j" by simp
  then show "\<exists>r i'. out = Done (r, i') \<and> ok i' \<and> behind (pend i) (pend i') \<and>
    (r = Inr True \<and> pend i' = [] \<or> r = Inr False \<and> pend i' \<noteq> [] \<or>
     (\<exists>e. r = Inl e \<and> genuine e))"
  proof (cases rule: turn_cases)
    case (failed d ds j1 e)
    have "behind (pend i) (pend j1)"
      using j failed by (auto intro: behind_step [of _ d ds])
    with failed t show ?thesis by auto
  qed (use t j in auto)
qed

text \<open>
  The loop is left if every accepted turn makes the messages to be sent lighter, for some weight.
\<close>

lemma flush_total:
  fixes weight :: "'a \<Rightarrow> nat"
  assumes "ok i"
    and lighter: "\<And>i i'. ok i \<Longrightarrow> turn i = Inl i' \<Longrightarrow>
      sum_list (map weight (pend i')) < sum_list (map weight (pend i))"
  shows "\<exists>out. rust_loop turn i = Some out"
proof -
  have "\<exists>out. rust_loop turn i = Some out \<and> True"
  proof (rule rust_loop_total [where P = ok and m = "\<lambda>i. sum_list (map weight (pend i))"])
    fix j j' assume "ok j" and t: "turn j = Inl j'"
    then have "ok j'" by (cases rule: turn_cases) auto
    with lighter [OF \<open>ok j\<close> t]
    show "ok j' \<and> sum_list (map weight (pend j')) < sum_list (map weight (pend j))" by simp
  qed (use assms(1) in auto)
  then show ?thesis by simp
qed

end

text \<open>
  Datagram sockets: a message leaves whole or not at all. \<open>sent\<close> is the list of those accepted.
\<close>

locale whole_flush = flush_loop turn pend ok genuine
  for turn :: "'i \<Rightarrow> 'i + (bool res \<times> 'i) outcome" and pend :: "'i \<Rightarrow> 'a list"
    and ok :: "'i \<Rightarrow> bool" and genuine :: "SocketError \<Rightarrow> bool" +
  fixes sent :: "'i \<Rightarrow> 'a list"
  assumes accepted_whole: "ok i \<Longrightarrow> pend i = d # ds \<Longrightarrow> turn i = Inl i' \<Longrightarrow>
        pend i' = ds \<and> sent i' = sent i @ [d]"
    and left_unsent: "ok i \<Longrightarrow> turn i = Inr (Done (r, i')) \<Longrightarrow> sent i' = sent i"
begin

lemma turn_shortens:
  assumes "ok i" and "turn i = Inl i'"
  shows "ok i' \<and> pend i = hd (pend i) # pend i' \<and> sent i' = sent i @ [hd (pend i)]"
  using assms(1)
proof (cases rule: turn_cases)
  case (accepted d ds j)
  with assms accepted_whole [OF assms(1) accepted(1)] show ?thesis by auto
qed (use assms(2) in simp_all)

lemma whole_returns:
  assumes "ok i"
  shows "\<exists>out. rust_loop turn i = Some out"
proof (rule flush_total [OF assms, where weight = "\<lambda>_. 1"])
  fix i i' assume "ok i" and "turn i = Inl i'"
  from turn_shortens [OF this] show "(\<Sum>d\<leftarrow>pend i'. 1) < (\<Sum>d\<leftarrow>pend i. (1 :: nat))"
    by (cases "pend i") auto
qed

text \<open>
  The messages are sent in order. When the loop reports an error, the message that caused it is
  gone: it is neither sent nor still to be sent.
\<close>

lemma whole_sends:
  assumes "rust_loop turn i = Some (Done (r, i'))" and "ok i"
  shows "\<exists>taken. sent i' = sent i @ taken \<and>
    (case r of Inr b \<Rightarrow> pend i = taken @ pend i' | Inl e \<Rightarrow> \<exists>d. pend i = taken @ d # pend i')"
proof -
  have "\<forall>r i'. out = Done (r, i') \<longrightarrow> (\<exists>taken. sent i' = sent i @ taken \<and>
      (case r of Inr b \<Rightarrow> pend i = taken @ pend i' | Inl e \<Rightarrow> \<exists>d. pend i = taken @ d # pend i'))"
    if "rust_loop turn i = Some out" for out
  proof (rule rust_loop_rule [OF that, where
        P = "\<lambda>j. ok j \<and> (\<exists>taken. sent j = sent i @ taken \<and> pend i = taken @ pend j)"])
    show "ok i \<and> (\<exists>taken. sent i = sent i @ taken \<and> pend i = taken @ pend i)" using assms(2) by simp
  next
    fix j j' assume j: "ok j \<and> (\<exists>taken. sent j = sent i @ taken \<and> pend i = taken @ pend j)"
      and t: "turn j = Inl j'"
    then obtain taken where "sent j = sent i @ taken" "pend i = taken @ pend j" by blast
    with turn_shortens [of j j'] j t
    have "ok j'" "sent j' = sent i @ (taken @ [hd (pend j)])" "pend i = (taken @ [hd (pend j)]) @ pend j'"
      by auto
    then show "ok j' \<and> (\<exists>taken. sent j' = sent i @ taken \<and> pend i = taken @ pend j')" by blast
  next
    fix j out assume j: "ok j \<and> (\<exists>taken. sent j = sent i @ taken \<and> pend i = taken @ pend j)"
      and t: "turn j = Inr out"
    then have ok: "ok j" and s: "\<And>r j'. out = Done (r, j') \<Longrightarrow> sent j' = sent j"
      by (auto dest: left_unsent)
    from ok j t s show "\<forall>r i'. out = Done (r, i') \<longrightarrow> (\<exists>taken. sent i' = sent i @ taken \<and>
      (case r of Inr b \<Rightarrow> pend i = taken @ pend i' | Inl e \<Rightarrow> \<exists>d. pend i = taken @ d # pend i'))"
      by (cases rule: turn_cases) auto
  qed
  with assms(1) show ?thesis by blast
qed

end

end
