(* ===== verification/Send_Order.thy ===== *)
theory Send_Order
  imports Mailbox Flush_Loop
begin

text \<open>
  How a socket implements the mailbox. \<open>mirrors\<close> relates a mailbox to a queue and to what has gone to
  the wire; the locale is the step from one turn of a flush loop to whole calls: if a turn only
  moves messages from the front of the queue to the end of what is sent, then a call is the events
  of \<open>write_events\<close>, and every session is a run of the mailbox.
\<close>

section \<open>The simulation relation\<close>

text \<open>
  \<open>f\<close> gives the queued form of a message (its frame, its datagram) and \<open>render\<close> what that adds to the
  line \<open>l\<close>.
\<close>

definition mirrors :: "('x \<Rightarrow> 'a) \<Rightarrow> ('a \<Rightarrow> 'b list) \<Rightarrow> 'x mailbox \<Rightarrow> 'a queued list \<Rightarrow> 'b list \<Rightarrow> bool" where
  "mirrors f render m q l \<longleftrightarrow>
     q = retag f (waiting m) \<and> l = concat (map render (msgs (retag f (departed m))))"

lemma mirrors_empty: "mirrors f render empty_mailbox [] []"
  by (simp add: mirrors_def empty_mailbox_def)

lemma mirrors_write:
  assumes "mirrors f render m q l"
    and moves: "queued_after t t' c (map_option (apsnd f) new) q = taken @ q'"
      "l' = l @ concat (map render (msgs taken))"
  shows "\<exists>m'. mail_run c (write_events t t' new (length taken)) m = Some m' \<and> mirrors f render m' q' l'"
proof -
  have q: "q = retag f (waiting m)" and l: "l = concat (map render (msgs (retag f (departed m))))"
    using assms(1) by (simp_all add: mirrors_def)
  from moves(1) have "retag f (queued_after t t' c new (waiting m)) = taken @ q'"
    unfolding q by (simp only: queued_after_retag)
  then obtain a b where ab: "queued_after t t' c new (waiting m) = a @ b" "retag f a = taken" "retag f b = q'"
    by (auto simp: map_eq_append_conv)
  let ?m = "m\<lparr> waiting := b, departed := departed m @ a \<rparr>"
  have "length taken = length a" using ab(2) by auto
  with mail_run_write [OF ab(1)] have "mail_run c (write_events t t' new (length taken)) m = Some ?m"
    by (simp only:)
  moreover have "mirrors f render ?m q' l'"
    using moves(2) l ab(2,3) by (simp add: mirrors_def)
  ultimately show ?thesis by blast
qed

text \<open>
  The transport fails in the middle of what was to be sent: the queue is still that of the mailbox,
  but the line ends early.
\<close>

definition cut_short :: "('x \<Rightarrow> 'a) \<Rightarrow> ('a \<Rightarrow> 'b list) \<Rightarrow> 'x mailbox \<Rightarrow> 'a queued list \<Rightarrow> 'b list \<Rightarrow> bool" where
  "cut_short f render m q l \<longleftrightarrow>
     q = retag f (waiting m) \<and> prefix l (concat (map render (msgs (retag f (departed m)))))"

text \<open>The same with a condition on what is missing from the line.\<close>

definition cut_by ::
  "('b list \<Rightarrow> bool) \<Rightarrow> ('x \<Rightarrow> 'a) \<Rightarrow> ('a \<Rightarrow> 'b list) \<Rightarrow> 'x mailbox \<Rightarrow> 'a queued list \<Rightarrow> 'b list \<Rightarrow> bool" where
  "cut_by missing f render m q l \<longleftrightarrow>
     q = retag f (waiting m) \<and>
     (\<exists>lost. missing lost \<and> l @ lost = concat (map render (msgs (retag f (departed m)))))"

lemma cut_by_anything [simp]: "cut_by (\<lambda>_. True) = cut_short"
  by (intro ext) (simp add: cut_by_def cut_short_def prefix_def eq_commute)

lemma cut_by_write:
  assumes "mirrors f render m q l"
    and "queued_after t t' c (map_option (apsnd f) new) q = taken @ q'"
    and "missing lost" and "l' @ lost = l @ concat (map render (msgs taken))"
  shows "\<exists>m'. mail_run c (write_events t t' new (length taken)) m = Some m' \<and> cut_by missing f render m' q' l'"
  using mirrors_write [OF assms(1,2) refl] assms(3,4) by (auto simp: mirrors_def cut_by_def)

text \<open>A call that is refused has only dropped expired messages.\<close>

lemma mirrors_refused:
  assumes "mirrors f render m q l"
  shows "\<exists>m'. mail_run c [Expire t] m = Some m' \<and> mirrors f render m' (spec_drop t c q) l"
  using mirrors_write [OF assms, of t 0 c None "[]" "spec_drop t c q" l]
  by (simp add: queued_after_def write_events_def)

section \<open>Sessions as runs of the mailbox\<close>

text \<open>
  \<open>in_order c f render es l q\<close>: some run of the mailbox accepts exactly the messages \<open>es\<close>, one after
  the other, and ends in a state that the queue \<open>q\<close> and the line \<open>l\<close> mirror.
\<close>

definition in_order ::
  "'k SocketConfig \<Rightarrow> ('x \<Rightarrow> 'a) \<Rightarrow> ('a \<Rightarrow> 'b list) \<Rightarrow> 'x queued list \<Rightarrow> 'b list \<Rightarrow> 'a queued list \<Rightarrow> bool" where
  "in_order c f render es l q \<longleftrightarrow>
     (\<exists>evs m. mail_run c evs empty_mailbox = Some m \<and> arrivals evs = es \<and> mirrors f render m q l)"

lemma in_order_start: "in_order c f render [] [] []"
  unfolding in_order_def using mirrors_empty by (metis arrivals.simps(1) mail_run.simps(1))

lemma in_order_more:
  assumes "in_order c f render es l q"
    and "\<And>m. mirrors f render m q l \<Longrightarrow>
      \<exists>evs m'. arrivals evs = new \<and> mail_run c evs m = Some m' \<and> mirrors f render m' q' l'"
  shows "in_order c f render (es @ new) l' q'"
proof -
  from assms(1) obtain evs0 m where run: "mail_run c evs0 empty_mailbox = Some m" "arrivals evs0 = es"
    and "mirrors f render m q l" by (auto simp: in_order_def)
  with assms(2) obtain evs m' where "arrivals evs = new" "mail_run c evs m = Some m'" "mirrors f render m' q' l'"
    by blast
  with run have "mail_run c (evs0 @ evs) empty_mailbox = Some m'" "arrivals (evs0 @ evs) = es @ new"
    by (simp_all add: mail_run_append)
  with \<open>mirrors f render m' q' l'\<close> show ?thesis unfolding in_order_def by blast
qed

text \<open>So the session delivers as the mailbox does.\<close>

lemma in_order_delivered:
  assumes "in_order c f render es l q"
  obtains out v where "q = retag f v" "l = concat (map render (msgs (retag f out)))" "delivered c es out v"
  using assms mail_ok_run [OF _ mail_ok_empty]
  by (fastforce simp: in_order_def mirrors_def mail_ok_def)

text \<open>Frames of messages: what was encoded and what was written.\<close>

abbreviation frames :: "('m \<times> byte list) queued list \<Rightarrow> byte list list" where
  "frames v \<equiv> map (snd \<circ> snd \<circ> snd) v"

abbreviation messages :: "('m \<times> byte list) queued list \<Rightarrow> 'm list" where
  "messages v \<equiv> map (fst \<circ> snd \<circ> snd) v"

lemma in_order_frames:
  "in_order c snd (\<lambda>d. d) es l q \<Longrightarrow>
     \<exists>out v. q = retag snd v \<and> l = concat (frames out) \<and> delivered c es out v"
  by (rule in_order_delivered) (auto simp: o_def)

text \<open>For datagrams, where a message adds itself to the line.\<close>

lemma concat_units: "concat (map (\<lambda>d. [d]) ds) = ds"
  by (induction ds) simp_all

lemma in_order_datagrams:
  assumes "in_order c f (\<lambda>d. [d]) es l q"
  obtains (whole) out v where "q = retag f v" "l = msgs (retag f out)" "delivered c es out v"
  by (rule in_order_delivered [OF assms]) (rule whole, simp_all only: concat_units)

section \<open>From turns to calls\<close>

locale ordered_flush =
  fixes turn :: "'i \<Rightarrow> 'i + (bool res \<times> 'i) outcome"
    and queue :: "'i \<Rightarrow> 'a queued list"
    and line :: "'i \<Rightarrow> 'b list"
    and render :: "'a \<Rightarrow> 'b list"
    and missing :: "'b list \<Rightarrow> bool"
    and good :: "'i \<Rightarrow> bool"
    and env :: "'i \<Rightarrow> 'e"
  assumes turn_effect: "good i \<Longrightarrow> turn i = Inl i' \<and> r = Inr b \<or> turn i = Inr (Done (r, i')) \<Longrightarrow>
        good i' \<and> env i' = env i \<and>
        (\<exists>taken. queue i = taken @ queue i' \<and>
           (case r of
              Inr _ \<Rightarrow> line i' = line i @ concat (map render (msgs taken))
            | Inl _ \<Rightarrow> \<exists>lost. missing lost \<and> line i' @ lost = line i @ concat (map render (msgs taken))))"
begin

definition reaches :: "'i \<Rightarrow> 'i \<Rightarrow> bool" where
  "reaches i i' \<longleftrightarrow> good i' \<and> env i' = env i \<and>
     (\<exists>taken. queue i = taken @ queue i' \<and> line i' = line i @ concat (map render (msgs taken)))"

lemma reaches_refl: "good i \<Longrightarrow> reaches i i"
  by (simp add: reaches_def)

lemma reaches_turn:
  assumes "reaches i j" and "turn j = Inl k \<or> turn j = Inr (Done (Inr b, k))"
  shows "reaches i k"
proof -
  from assms(1) obtain taken where i: "good j" "env j = env i" "queue i = taken @ queue j"
    "line j = line i @ concat (map render (msgs taken))" by (auto simp: reaches_def)
  from turn_effect [OF i(1), of k "Inr b" b] assms(2) obtain taken' where
    "good k" "env k = env j" "queue j = taken' @ queue k"
    "line k = line j @ concat (map render (msgs taken'))" by auto
  with i have "good k" "env k = env i" "queue i = (taken @ taken') @ queue k"
    "line k = line i @ concat (map render (msgs (taken @ taken')))" by simp_all
  then show ?thesis unfolding reaches_def by blast
qed

lemma loop_reaches:
  assumes "rust_loop turn i = Some (Done (Inr b, i'))" and "good i"
  shows "reaches i i'"
proof -
  have "\<forall>b i'. out = Done (Inr b, i') \<longrightarrow> reaches i i'" if "rust_loop turn i = Some out" for out
    by (rule rust_loop_rule [OF that, where P = "reaches i"])
      (use assms(2) in \<open>auto intro: reaches_refl reaches_turn\<close>)
  with assms(1) show ?thesis by blast
qed

lemma loop_breaks:
  assumes "rust_loop turn i = Some (Done (Inl e, i'))" and "good i"
  shows "good i' \<and> env i' = env i \<and>
    (\<exists>taken lost. queue i = taken @ queue i' \<and> missing lost \<and>
      line i' @ lost = line i @ concat (map render (msgs taken)))"
proof -
  let ?broken = "\<lambda>i'. good i' \<and> env i' = env i \<and>
    (\<exists>taken lost. queue i = taken @ queue i' \<and> missing lost \<and>
      line i' @ lost = line i @ concat (map render (msgs taken)))"
  have exit: "?broken i'" if "reaches i j" "turn j = Inr (Done (Inl e, i'))" for j e i'
  proof -
    from that(1) obtain taken where j: "good j" "env j = env i" "queue i = taken @ queue j"
      "line j = line i @ concat (map render (msgs taken))" by (auto simp: reaches_def)
    from turn_effect [OF j(1), of i' "Inl e"] that(2) obtain taken' lost where "good i'" "env i' = env j"
      "queue j = taken' @ queue i'" "missing lost" "line i' @ lost = line j @ concat (map render (msgs taken'))" by auto
    with j have "good i'" "env i' = env i" "queue i = (taken @ taken') @ queue i'" "missing lost"
      "line i' @ lost = line i @ concat (map render (msgs (taken @ taken')))" by simp_all
    then show ?thesis by blast
  qed
  have "\<forall>e i'. out = Done (Inl e, i') \<longrightarrow> ?broken i'" if "rust_loop turn i = Some out" for out
  proof (rule rust_loop_rule [OF that, where P = "reaches i"])
    show "reaches i i" using assms(2) by (rule reaches_refl)
    show "reaches i k" if "reaches i j" "turn j = Inl k" for j k
      using reaches_turn [OF that(1)] that(2) by blast
    show "\<forall>e i'. out = Done (Inl e, i') \<longrightarrow> ?broken i'" if "reaches i j" "turn j = Inr out" for j out
      using exit [OF that(1)] that(2) by blast
  qed
  with assms(1) show ?thesis by blast
qed

end

section \<open>Sockets as senders\<close>

text \<open>
  A session: writes that answer \<open>Ok\<close>, writes of messages that cannot be encoded, and between them
  anything that leaves the sending half of the socket alone (\<open>same\<close>). \<open>encode\<close> says what the argument
  of a write adds to the queue, if anything, or with which error it is refused. An error of the
  transport ends the session.
\<close>

inductive session ::
  "('i \<Rightarrow> 'w \<Rightarrow> (Priority \<times> 'x) option res) \<Rightarrow>
     (readings \<Rightarrow> instant \<Rightarrow> 'w \<Rightarrow> 'i \<Rightarrow> (bool res \<times> 'i) outcome option) \<Rightarrow> ('i \<Rightarrow> 'i \<Rightarrow> bool) \<Rightarrow>
     'i \<Rightarrow> 'x queued list \<Rightarrow> 'i \<Rightarrow> bool" for encode wr same i0 where
  opened: "session encode wr same i0 [] i0"
| wrote: "session encode wr same i0 es i \<Longrightarrow> wr t t' w i = Some (Done (Inr b, i')) \<Longrightarrow>
    encode i w = Inr new \<Longrightarrow> session encode wr same i0 (es @ arrival t' new) i'"
| refused: "session encode wr same i0 es i \<Longrightarrow> wr t t' w i = Some (Done (Inl e, i')) \<Longrightarrow>
    encode i w = Inl e \<Longrightarrow> session encode wr same i0 es i'"
| elsewhere: "session encode wr same i0 es i \<Longrightarrow> same i i' \<Longrightarrow> session encode wr same i0 es i'"

text \<open>
  The contract of a \<open>write\<close>: it either refuses its message, having dropped what is expired, or
  queues it and flushes.
\<close>

locale mail_sender = ordered_flush turn queue line render missing good env
  for turn :: "'i \<Rightarrow> 'i + (bool res \<times> 'i) outcome"
    and queue :: "'i \<Rightarrow> 'a queued list" and line :: "'i \<Rightarrow> 'b list" and render :: "'a \<Rightarrow> 'b list"
    and missing :: "'b list \<Rightarrow> bool" and good :: "'i \<Rightarrow> bool" and env :: "'i \<Rightarrow> 'e" +
  fixes form :: "'x \<Rightarrow> 'a"
    and conf_of :: "'i \<Rightarrow> 'k SocketConfig"
    and encode :: "'i \<Rightarrow> 'w \<Rightarrow> (Priority \<times> 'x) option res"
    and wr :: "readings \<Rightarrow> instant \<Rightarrow> 'w \<Rightarrow> 'i \<Rightarrow> (bool res \<times> 'i) outcome option"
    and same :: "'i \<Rightarrow> 'i \<Rightarrow> bool"
  assumes env_decides: "env i' = env i \<Longrightarrow> conf_of i' = conf_of i \<and> encode i' = encode i"
    and write_refuses: "good i \<Longrightarrow> encode i w = Inl e \<Longrightarrow>
        \<exists>j. wr t t' w i = Some (Done (Inl e, j)) \<and> good j \<and> env j = env i \<and> line j = line i \<and>
          queue j = spec_drop t (conf_of i) (queue i)"
    and write_flushes: "good i \<Longrightarrow> encode i w = Inr new \<Longrightarrow>
        \<exists>j. wr t t' w i = rust_loop turn j \<and> good j \<and> env j = env i \<and> line j = line i \<and>
          queue j = queued_after t t' (conf_of i) (map_option (apsnd form) new) (queue i)"
    and same_keeps: "good i \<Longrightarrow> same i i' \<Longrightarrow>
        good i' \<and> env i' = env i \<and> queue i' = queue i \<and> line i' = line i"
begin

text \<open>
  The refinement: a call is a run of the mailbox, whatever it answers. Only if the transport fails is
  the line cut short, by something that is \<open>missing\<close>.
\<close>

lemma write_simulates:
  assumes "good i" and m: "mirrors form render m (queue i) (line i)"
    and w: "wr t t' w i = Some (Done (r, i'))"
  shows "good i' \<and> env i' = env i \<and>
    (case encode i w of
       Inl e \<Rightarrow> r = Inl e \<and>
         (\<exists>m'. mail_run (conf_of i) [Expire t] m = Some m' \<and> mirrors form render m' (queue i') (line i'))
     | Inr new \<Rightarrow>
         \<exists>n m'. mail_run (conf_of i) (write_events t t' new n) m = Some m' \<and>
           (case r of
              Inr _ \<Rightarrow> mirrors form render m' (queue i') (line i')
            | Inl _ \<Rightarrow> cut_by missing form render m' (queue i') (line i')))"
proof (cases "encode i w")
  case (Inl e)
  from write_refuses [OF assms(1) Inl, of t t'] w mirrors_refused [OF m, of "conf_of i" t] Inl
  show ?thesis by auto
next
  case (Inr new)
  from write_flushes [OF assms(1) Inr, of t t'] w obtain j where
    j: "rust_loop turn j = Some (Done (r, i'))" "good j" "env j = env i" "line j = line i"
      "queue j = queued_after t t' (conf_of i) (map_option (apsnd form) new) (queue i)" by auto
  show ?thesis
  proof (cases r)
    case (Inr b)
    with loop_reaches [of j b i'] j obtain taken where "good i'" "env i' = env i"
      "queue j = taken @ queue i'" "line i' = line i @ concat (map render (msgs taken))"
      by (auto simp: reaches_def)
    with mirrors_write [OF m, of t t' "conf_of i" new taken "queue i'" "line i'"] j(5) Inr \<open>encode i w = _\<close>
    show ?thesis by auto
  next
    case (Inl e)
    with loop_breaks [of j e i'] j obtain taken lost where "good i'" "env i' = env i"
      "queue j = taken @ queue i'" "missing lost" "line i' @ lost = line i @ concat (map render (msgs taken))" by auto
    with cut_by_write [OF m, of t t' "conf_of i" new taken "queue i'" missing lost "line i'"] j(5) Inl \<open>encode i w = _\<close>
    show ?thesis by auto
  qed
qed

text \<open>So a session is a run of the mailbox, and what it accepted was encoded under the first environment.\<close>

lemma session_invariant:
  assumes "session encode wr same i0 es i" and "good i0" and "queue i0 = []" and "line i0 = []"
  shows "good i \<and> env i = env i0 \<and> in_order (conf_of i0) form render es (line i) (queue i) \<and>
    (\<forall>x\<in>set es. \<exists>w. encode i0 w = Inr (Some (fst x, snd (snd x))))"
  using assms(1)
proof induction
  case opened
  with assms(2-4) in_order_start show ?case by simp
next
  case (wrote es i t t' w b i' new)
  then have i: "good i" "conf_of i = conf_of i0" "encode i = encode i0"
    and order: "in_order (conf_of i0) form render es (line i) (queue i)"
    using env_decides [of i i0] by auto
  have step: "good i' \<and> env i' = env i \<and> (\<exists>n m'. mail_run (conf_of i) (write_events t t' new n) m = Some m' \<and>
      mirrors form render m' (queue i') (line i'))" if "mirrors form render m (queue i) (line i)" for m
    using write_simulates [OF i(1) that wrote(2)] wrote(3) by auto
  have "in_order (conf_of i0) form render (es @ arrival t' new) (line i') (queue i')"
    by (rule in_order_more [OF order]) (use step i(2) arrivals_write in metis)
  moreover have "good i' \<and> env i' = env i"
    using order step by (auto simp: in_order_def)
  moreover have "\<forall>x\<in>set (arrival t' new). \<exists>w. encode i0 w = Inr (Some (fst x, snd (snd x)))"
    using wrote(3) i(3) by (auto simp: arrival_def split: option.splits)
  ultimately show ?case using wrote.IH by auto
next
  case (refused es i t t' w e i')
  then have i: "good i" "conf_of i = conf_of i0"
    and order: "in_order (conf_of i0) form render es (line i) (queue i)"
    using env_decides [of i i0] by auto
  have step: "good i' \<and> env i' = env i \<and> (\<exists>m'. mail_run (conf_of i) [Expire t] m = Some m' \<and>
      mirrors form render m' (queue i') (line i'))" if "mirrors form render m (queue i) (line i)" for m
    using write_simulates [OF i(1) that refused(2)] refused(3) by auto
  have "in_order (conf_of i0) form render (es @ []) (line i') (queue i')"
  proof (rule in_order_more [OF order])
    fix m assume "mirrors form render m (queue i) (line i)"
    from step [OF this] i(2) show "\<exists>evs m'. arrivals evs = [] \<and> mail_run (conf_of i0) evs m = Some m' \<and>
        mirrors form render m' (queue i') (line i')"
      by (metis arrivals.simps(1,3))
  qed
  moreover have "good i' \<and> env i' = env i"
    using order step by (auto simp: in_order_def)
  ultimately show ?case using refused.IH by auto
next
  case (elsewhere es i i')
  with same_keeps [of i i'] show ?case by simp
qed

end

end
