(* ===== verification/Tcp_Sock.thy ===== *)
theory Tcp_Sock
  imports Len_Reader Send_Order
begin

text \<open>
  \<open>src/src/tcp.rs\<close>: the TCP socket. \<open>TcpInner\<close> is the struct \<open>Inner\<close> of that file and
  \<open>TcpSock\<close> the option around it.
\<close>

record ('s, 'k) TcpInner =
  stream :: 's
  msg_reader :: "'k LenDelimitedReader"
  out_queue :: "('k, byte list) OutQueue"
  current_write :: "byte list option"
  enc_ctx :: "'k EncryptContext"

type_synonym ('s, 'k) TcpSock = "('s, 'k) TcpInner option"

section \<open>\<open>Inner\<close>\<close>

definition TcpInner_new_with_conf :: "'s \<Rightarrow> 'k SocketConfig \<Rightarrow> ('s, 'k) TcpInner" where
  "TcpInner_new_with_conf s c =
     (let msg_reader = (LenDelimitedReader_new (conf_max_payload_size c))\<lparr> dec_ctx := conf_dec_ctx c \<rparr>
      in \<lparr> stream = s, msg_reader = msg_reader, out_queue = OutQueue_new c, current_write = None,
           enc_ctx = conf_enc_ctx c \<rparr>)"

definition TcpInner_new :: "'s \<Rightarrow> ('s, 'k) TcpInner" where
  "TcpInner_new s = TcpInner_new_with_conf s SocketConfig_default"

definition TcpInner_set_encrypt_ctx :: "'k EncryptContext \<Rightarrow> ('s, 'k) TcpInner \<Rightarrow> ('s, 'k) TcpInner" where
  "TcpInner_set_encrypt_ctx ctx i = i\<lparr> enc_ctx := ctx \<rparr>"

definition TcpInner_set_decrypt_ctx :: "'k DecryptContext \<Rightarrow> ('s, 'k) TcpInner \<Rightarrow> ('s, 'k) TcpInner" where
  "TcpInner_set_decrypt_ctx ctx i = i\<lparr> msg_reader := (msg_reader i)\<lparr> dec_ctx := ctx \<rparr> \<rparr>"

subsection \<open>Reading\<close>

text \<open>\<open>self.msg_reader.try_read()\<close>, with the reader put back.\<close>

definition inner_try_read ::
  "('k, u32) codec \<Rightarrow> ('k, 'm) codec \<Rightarrow> ('s, 'k) TcpInner \<Rightarrow> ('m option res \<times> ('s, 'k) TcpInner) outcome" where
  "inner_try_read hc mc i =
     and_then (try_read hc mc (msg_reader i)) (\<lambda>(r, rd). Done (r, i\<lparr> msg_reader := rd \<rparr>))"

text \<open>One turn of the \<open>loop\<close> in \<open>Inner::read\<close>; the flag is \<open>is_something_read\<close>.\<close>

definition read_turn ::
  "'s tcp_ops \<Rightarrow> ('k, u32) codec \<Rightarrow> ('k, 'm) codec \<Rightarrow> bool \<times> ('s, 'k) TcpInner \<Rightarrow>
     (bool \<times> ('s, 'k) TcpInner) + ('m option res \<times> ('s, 'k) TcpInner) outcome" where
  "read_turn ops hc mc = (\<lambda>(is_something_read, i).
     (case ts_read ops (stream i) BUF_LEN of
        (Inr buffer, s) \<Rightarrow>
          (let i = i\<lparr> stream := s \<rparr> in
           if buffer = [] then
             (if is_something_read then
                Inr (case inner_try_read hc mc i of
                   Done (Inr None, i) \<Rightarrow> Done (Inl ZeroByteRead, i)
                 | r \<Rightarrow> r)
              else Inr (Done (Inl ZeroByteRead, i)))
           else Inl (True, i\<lparr> msg_reader := put_buf buffer (msg_reader i) \<rparr>))
      | (Inl error, s) \<Rightarrow>
          (let i = i\<lparr> stream := s \<rparr> in
           if is_would_block error then
             (if is_something_read then Inr (inner_try_read hc mc i) else Inr (Done (Inr None, i)))
           else Inr (Done (Inl (Io error), i)))))"

definition TcpInner_read ::
  "'s tcp_ops \<Rightarrow> ('k, u32) codec \<Rightarrow> ('k, 'm) codec \<Rightarrow> ('s, 'k) TcpInner \<Rightarrow>
     ('m option res \<times> ('s, 'k) TcpInner) outcome option" where
  "TcpInner_read ops hc mc i =
     (case inner_try_read hc mc i of
        Panicked \<Rightarrow> Some Panicked
      | Done (Inl e, i) \<Rightarrow> Some (Done (Inl e, i))
      | Done (Inr (Some message), i) \<Rightarrow> Some (Done (Inr (Some message), i))
      | Done (Inr None, i) \<Rightarrow> rust_loop (read_turn ops hc mc) (False, i))"

text \<open>The same over the total functions of \<open>Len_Reader\<close>: what reading does, as it never panics.\<close>

definition inner_try_read_pure ::
  "('k, u32) codec \<Rightarrow> ('k, 'm) codec \<Rightarrow> ('s, 'k) TcpInner \<Rightarrow> 'm option res \<times> ('s, 'k) TcpInner" where
  "inner_try_read_pure hc mc i =
     (case try_read_pure hc mc (msg_reader i) of (r, rd) \<Rightarrow> (r, i\<lparr> msg_reader := rd \<rparr>))"

definition read_turn_pure ::
  "'s tcp_ops \<Rightarrow> ('k, u32) codec \<Rightarrow> ('k, 'm) codec \<Rightarrow> bool \<times> ('s, 'k) TcpInner \<Rightarrow>
     (bool \<times> ('s, 'k) TcpInner) + ('m option res \<times> ('s, 'k) TcpInner)" where
  "read_turn_pure ops hc mc = (\<lambda>(is_something_read, i).
     (case ts_read ops (stream i) BUF_LEN of
        (Inr buffer, s) \<Rightarrow>
          (let i = i\<lparr> stream := s \<rparr> in
           if buffer = [] then
             (if is_something_read then
                (case inner_try_read_pure hc mc i of
                   (Inr None, i) \<Rightarrow> Inr (Inl ZeroByteRead, i)
                 | (r, i) \<Rightarrow> Inr (r, i))
              else Inr (Inl ZeroByteRead, i))
           else Inl (True, i\<lparr> msg_reader := put_buf buffer (msg_reader i) \<rparr>))
      | (Inl error, s) \<Rightarrow>
          (let i = i\<lparr> stream := s \<rparr> in
           if is_would_block error then
             (if is_something_read then Inr (inner_try_read_pure hc mc i) else Inr (Inr None, i))
           else Inr (Inl (Io error), i))))"

definition TcpInner_read_pure ::
  "'s tcp_ops \<Rightarrow> ('k, u32) codec \<Rightarrow> ('k, 'm) codec \<Rightarrow> ('s, 'k) TcpInner \<Rightarrow>
     ('m option res \<times> ('s, 'k) TcpInner) option" where
  "TcpInner_read_pure ops hc mc i =
     (case inner_try_read_pure hc mc i of
        (Inl e, i) \<Rightarrow> Some (Inl e, i)
      | (Inr (Some message), i) \<Rightarrow> Some (Inr (Some message), i)
      | (Inr None, i) \<Rightarrow> rust_loop (read_turn_pure ops hc mc) (False, i))"

lemma inner_try_read_in_range [simp]: "inner_try_read hc mc i = Done (inner_try_read_pure hc mc i)"
  by (simp add: inner_try_read_def inner_try_read_pure_def split: prod.split)

lemma read_turn_in_range: "read_turn ops hc mc s = map_sum id Done (read_turn_pure ops hc mc s)"
  by (cases s) (auto simp: read_turn_def read_turn_pure_def Let_def split: prod.split sum.split option.split)

lemma TcpInner_read_in_range: "TcpInner_read ops hc mc i = map_option Done (TcpInner_read_pure ops hc mc i)"
proof -
  have "rust_loop (read_turn ops hc mc) s = map_option Done (rust_loop (read_turn_pure ops hc mc) s)" for s
    by (rule rust_loop_lift [where P = "\<lambda>_. True"]) (simp_all add: read_turn_in_range)
  then show ?thesis
    by (simp add: TcpInner_read_def TcpInner_read_pure_def split: prod.split sum.split option.split)
qed

lemma TcpInner_read_Some:
  "TcpInner_read ops hc mc i = Some out \<longleftrightarrow> (\<exists>r. TcpInner_read_pure ops hc mc i = Some r \<and> out = Done r)"
  by (auto simp: TcpInner_read_in_range)

subsection \<open>Writing\<close>

text \<open>One turn of \<open>flush_write_until_would_block\<close>.\<close>

definition flush_turn ::
  "'s tcp_ops \<Rightarrow> ('s, 'k) TcpInner \<Rightarrow> ('s, 'k) TcpInner + (bool res \<times> ('s, 'k) TcpInner) outcome" where
  "flush_turn ops i =
     (case take_or_next next_msg (current_write i) (out_queue i) of
        Panicked \<Rightarrow> Inr Panicked
      | Done (None, q) \<Rightarrow> Inr (Done (Inr True, i\<lparr> current_write := None, out_queue := q \<rparr>))
      | Done (Some data, q) \<Rightarrow>
          (case ts_write ops (stream i) data of
             (Inr bytes_txd, s) \<Rightarrow>
               (let i = i\<lparr> stream := s, current_write := None, out_queue := q \<rparr> in
                if bytes_txd < length data
                then (case slice_from bytes_txd data of
                    Panicked \<Rightarrow> Inr Panicked
                  | Done left \<Rightarrow> Inl (i\<lparr> current_write := Some left \<rparr>))
                else Inl i)
           | (Inl error, s) \<Rightarrow>
               (let i = i\<lparr> stream := s, current_write := None, out_queue := q \<rparr> in
                Inr (if is_would_block error
                     then Done (Inr False, i\<lparr> current_write := Some data \<rparr>)
                     else Done (Inl (Io error), i)))))"

text \<open>The guard keeps the slice in range.\<close>

lemma flush_turn_eq:
  "flush_turn ops i =
     (case take_or_next next_msg (current_write i) (out_queue i) of
        Panicked \<Rightarrow> Inr Panicked
      | Done (None, q) \<Rightarrow> Inr (Done (Inr True, i\<lparr> current_write := None, out_queue := q \<rparr>))
      | Done (Some data, q) \<Rightarrow>
          (case ts_write ops (stream i) data of
             (Inr bytes_txd, s) \<Rightarrow>
               (let i = i\<lparr> stream := s, current_write := None, out_queue := q \<rparr> in
                Inl (if bytes_txd < length data
                     then i\<lparr> current_write := Some (drop bytes_txd data) \<rparr> else i))
           | (Inl error, s) \<Rightarrow>
               (let i = i\<lparr> stream := s, current_write := None, out_queue := q \<rparr> in
                Inr (if is_would_block error
                     then Done (Inr False, i\<lparr> current_write := Some data \<rparr>)
                     else Done (Inl (Io error), i)))))"
  by (simp add: flush_turn_def Let_def split: outcome.split prod.split option.split sum.split)

definition flush_write_until_would_block ::
  "'s tcp_ops \<Rightarrow> ('s, 'k) TcpInner \<Rightarrow> (bool res \<times> ('s, 'k) TcpInner) outcome option" where
  "flush_write_until_would_block ops i = rust_loop (flush_turn ops) i"

definition enqueue_data ::
  "('k, u32) codec \<Rightarrow> ('k, 'm) codec \<Rightarrow> nat \<Rightarrow> instant \<Rightarrow> Priority \<Rightarrow> 'm \<Rightarrow> ('s, 'k) TcpInner \<Rightarrow>
     unit res \<times> ('s, 'k) TcpInner" where
  "enqueue_data hc mc rng now priority msg i =
     (case serialize_with_len hc mc rng msg (enc_ctx i) of
        Inl e \<Rightarrow> (Inl e, i)
      | Inr buf \<Rightarrow> (Inr (), i\<lparr> out_queue := push now buf priority (out_queue i) \<rparr>))"

text \<open>\<open>t_drop\<close> and \<open>t_push\<close> are the clock readings of \<open>drop_expired\<close> and the one of \<open>push\<close>.\<close>

definition TcpInner_write ::
  "'s tcp_ops \<Rightarrow> ('k, u32) codec \<Rightarrow> ('k, 'm) codec \<Rightarrow> nat \<Rightarrow> readings \<Rightarrow> instant \<Rightarrow>
     ('m \<times> Priority) option \<Rightarrow> ('s, 'k) TcpInner \<Rightarrow>
     (bool res \<times> ('s, 'k) TcpInner) outcome option" where
  "TcpInner_write ops hc mc rng t_drop t_push msg i =
     (let i = i\<lparr> out_queue := snd (drop_expired t_drop (out_queue i)) \<rparr> in
      case msg of
        None \<Rightarrow> flush_write_until_would_block ops i
      | Some (msg, priority) \<Rightarrow>
          (case enqueue_data hc mc rng t_push priority msg i of
             (Inl e, i) \<Rightarrow> Some (Done (Inl e, i))
           | (Inr _, i) \<Rightarrow> flush_write_until_would_block ops i))"

subsection \<open>\<open>Evented\<close> and \<open>Drop\<close>\<close>

definition TcpInner_register ::
  "'s tcp_ops \<Rightarrow> Poll \<Rightarrow> Token \<Rightarrow> Ready \<Rightarrow> PollOpt \<Rightarrow> ('s, 'k) TcpInner \<Rightarrow>
     (io_error + unit) \<times> ('s, 'k) TcpInner" where
  "TcpInner_register ops poll token interest opts i =
     (case ts_register ops (stream i) poll token interest opts of (r, s) \<Rightarrow> (r, i\<lparr> stream := s \<rparr>))"

definition TcpInner_reregister ::
  "'s tcp_ops \<Rightarrow> Poll \<Rightarrow> Token \<Rightarrow> Ready \<Rightarrow> PollOpt \<Rightarrow> ('s, 'k) TcpInner \<Rightarrow>
     (io_error + unit) \<times> ('s, 'k) TcpInner" where
  "TcpInner_reregister ops poll token interest opts i =
     (case ts_reregister ops (stream i) poll token interest opts of (r, s) \<Rightarrow> (r, i\<lparr> stream := s \<rparr>))"

definition TcpInner_deregister ::
  "'s tcp_ops \<Rightarrow> Poll \<Rightarrow> ('s, 'k) TcpInner \<Rightarrow> (io_error + unit) \<times> ('s, 'k) TcpInner" where
  "TcpInner_deregister ops poll i =
     (case ts_deregister ops (stream i) poll of (r, s) \<Rightarrow> (r, i\<lparr> stream := s \<rparr>))"

text \<open>Dropping the socket shuts the stream down, whatever the call answers.\<close>

definition TcpInner_drop :: "'s tcp_ops \<Rightarrow> ('s, 'k) TcpInner \<Rightarrow> 's" where
  "TcpInner_drop ops i = snd (ts_shutdown_both ops (stream i))"

section \<open>\<open>TcpSock\<close>\<close>

definition TcpSock_default :: "('s, 'k) TcpSock" where
  "TcpSock_default = None"

definition TcpSock_wrap_with_conf :: "'s \<Rightarrow> 'k SocketConfig \<Rightarrow> ('s, 'k) TcpSock" where
  "TcpSock_wrap_with_conf s c = Some (TcpInner_new_with_conf s c)"

definition TcpSock_wrap :: "'s \<Rightarrow> ('s, 'k) TcpSock" where
  "TcpSock_wrap s = Some (TcpInner_new s)"

definition TcpSock_connect_with_conf ::
  "'s tcp_ops \<Rightarrow> 's \<Rightarrow> SocketAddr \<Rightarrow> 'k SocketConfig \<Rightarrow> ('s, 'k) TcpSock res" where
  "TcpSock_connect_with_conf ops w addr c =
     try_op Io (ts_connect ops w addr) (\<lambda>s. Inr (TcpSock_wrap_with_conf s c))"

definition TcpSock_connect :: "'s tcp_ops \<Rightarrow> 's \<Rightarrow> SocketAddr \<Rightarrow> ('s, 'k) TcpSock res" where
  "TcpSock_connect ops w addr = TcpSock_connect_with_conf ops w addr SocketConfig_default"

definition TcpSock_set_encrypt_ctx ::
  "'k EncryptContext \<Rightarrow> ('s, 'k) TcpSock \<Rightarrow> unit res \<times> ('s, 'k) TcpSock" where
  "TcpSock_set_encrypt_ctx ctx sock =
     with_inner sock (\<lambda>i. (Inr (), TcpInner_set_encrypt_ctx ctx i))"

definition TcpSock_set_decrypt_ctx ::
  "'k DecryptContext \<Rightarrow> ('s, 'k) TcpSock \<Rightarrow> unit res \<times> ('s, 'k) TcpSock" where
  "TcpSock_set_decrypt_ctx ctx sock =
     with_inner sock (\<lambda>i. (Inr (), TcpInner_set_decrypt_ctx ctx i))"

text \<open>A call on the stream that touches nothing else.\<close>

definition on_stream ::
  "('s \<Rightarrow> (io_error + 'a) \<times> 's) \<Rightarrow> ('s, 'k) TcpInner \<Rightarrow> 'a res \<times> ('s, 'k) TcpInner" where
  "on_stream f i = (case f (stream i) of (r, s) \<Rightarrow> (io_res r, i\<lparr> stream := s \<rparr>))"

definition TcpSock_set_linger ::
  "'s tcp_ops \<Rightarrow> Duration option \<Rightarrow> ('s, 'k) TcpSock \<Rightarrow> unit res \<times> ('s, 'k) TcpSock" where
  "TcpSock_set_linger ops dur sock = with_inner sock (on_stream (\<lambda>s. ts_set_linger ops s dur))"

definition TcpSock_set_ttl ::
  "'s tcp_ops \<Rightarrow> u32 \<Rightarrow> ('s, 'k) TcpSock \<Rightarrow> unit res \<times> ('s, 'k) TcpSock" where
  "TcpSock_set_ttl ops ttl sock = with_inner sock (on_stream (\<lambda>s. ts_set_ttl ops s ttl))"

definition TcpSock_ttl ::
  "'s tcp_ops \<Rightarrow> ('s, 'k) TcpSock \<Rightarrow> u32 res \<times> ('s, 'k) TcpSock" where
  "TcpSock_ttl ops sock = with_inner sock (on_stream (ts_ttl ops))"

definition TcpSock_local_addr ::
  "'s tcp_ops \<Rightarrow> ('s, 'k) TcpSock \<Rightarrow> SocketAddr res \<times> ('s, 'k) TcpSock" where
  "TcpSock_local_addr ops sock = with_inner sock (on_stream (ts_local_addr ops))"

definition TcpSock_peer_addr ::
  "'s tcp_ops \<Rightarrow> ('s, 'k) TcpSock \<Rightarrow> SocketAddr res \<times> ('s, 'k) TcpSock" where
  "TcpSock_peer_addr ops sock = with_inner sock (on_stream (ts_peer_addr ops))"

definition TcpSock_take_error ::
  "'s tcp_ops \<Rightarrow> ('s, 'k) TcpSock \<Rightarrow> io_error option res \<times> ('s, 'k) TcpSock" where
  "TcpSock_take_error ops sock = with_inner sock (on_stream (ts_take_error ops))"

definition TcpSock_read ::
  "'s tcp_ops \<Rightarrow> ('k, u32) codec \<Rightarrow> ('k, 'm) codec \<Rightarrow> ('s, 'k) TcpSock \<Rightarrow>
     ('m option res \<times> ('s, 'k) TcpSock) outcome option" where
  "TcpSock_read ops hc mc sock =
     with_inner_loop sock (TcpInner_read ops hc mc)"

lemma TcpSock_read_in_range:
  "TcpSock_read ops hc mc sock = with_inner_loop sock (\<lambda>i. map_option Done (TcpInner_read_pure ops hc mc i))"
  unfolding TcpSock_read_def TcpInner_read_in_range [abs_def] ..

definition TcpSock_write ::
  "'s tcp_ops \<Rightarrow> ('k, u32) codec \<Rightarrow> ('k, 'm) codec \<Rightarrow> nat \<Rightarrow> readings \<Rightarrow> instant \<Rightarrow>
     ('m \<times> Priority) option \<Rightarrow> ('s, 'k) TcpSock \<Rightarrow>
     (bool res \<times> ('s, 'k) TcpSock) outcome option" where
  "TcpSock_write ops hc mc rng t_drop t_push msg sock =
     with_inner_loop sock (TcpInner_write ops hc mc rng t_drop t_push msg)"

definition TcpSock_fmt :: "('s, 'k) TcpSock \<Rightarrow> string" where
  "TcpSock_fmt sock =
     ''TcpSock: initialised = '' @ (if sock \<noteq> None then ''true'' else ''false'')"

definition TcpSock_register ::
  "'s tcp_ops \<Rightarrow> Poll \<Rightarrow> Token \<Rightarrow> Ready \<Rightarrow> PollOpt \<Rightarrow> ('s, 'k) TcpSock \<Rightarrow>
     (io_error + unit) \<times> ('s, 'k) TcpSock" where
  "TcpSock_register ops poll token interest opts sock =
     with_inner_io sock (TcpInner_register ops poll token interest opts)"

definition TcpSock_reregister ::
  "'s tcp_ops \<Rightarrow> Poll \<Rightarrow> Token \<Rightarrow> Ready \<Rightarrow> PollOpt \<Rightarrow> ('s, 'k) TcpSock \<Rightarrow>
     (io_error + unit) \<times> ('s, 'k) TcpSock" where
  "TcpSock_reregister ops poll token interest opts sock =
     with_inner_io sock (TcpInner_reregister ops poll token interest opts)"

definition TcpSock_deregister ::
  "'s tcp_ops \<Rightarrow> Poll \<Rightarrow> ('s, 'k) TcpSock \<Rightarrow> (io_error + unit) \<times> ('s, 'k) TcpSock" where
  "TcpSock_deregister ops poll sock = with_inner_io sock (TcpInner_deregister ops poll)"

section \<open>The flush loop\<close>

definition tcp_ok :: "('s, 'k) TcpInner \<Rightarrow> bool" where
  "tcp_ok i \<longleftrightarrow> oq_ok (out_queue i)"

definition tcp_pending :: "('s, 'k) TcpInner \<Rightarrow> byte list list" where
  "tcp_pending i = pending_of (current_write i) (view (out_queue i))"

lemmas tcp_flush_defs = flush_turn_eq tcp_ok_def tcp_pending_def pending_of_def Let_def

interpretation tcp_flush: flush_loop "flush_turn ops" tcp_pending tcp_ok io_failure
  for ops :: "'s tcp_ops"
proof
  fix i :: "('s, 'k) TcpInner"
  assume ok: "tcp_ok i"
  then have q: "oq_ok (out_queue i)" by (simp add: tcp_ok_def)
  show "\<exists>i'. flush_turn ops i = Inr (Done (Inr True, i')) \<and> tcp_ok i' \<and> tcp_pending i' = []"
    if "tcp_pending i = []"
    using q that
    by (cases rule: oq.take_or_next_cases [where current = "current_write i"])
      (use q in \<open>simp_all add: tcp_flush_defs split: option.splits\<close>)
  show "(\<exists>i'. flush_turn ops i = Inl i' \<and> tcp_ok i' \<and>
        (tcp_pending i' = ds \<or> (\<exists>d'. tcp_pending i' = d' # ds))) \<or>
      (\<exists>i'. flush_turn ops i = Inr (Done (Inr False, i')) \<and> tcp_ok i' \<and> tcp_pending i' = d # ds) \<or>
      (\<exists>i' e. flush_turn ops i = Inr (Done (Inl e, i')) \<and> tcp_ok i' \<and> tcp_pending i' = ds \<and>
        io_failure e)"
    if "tcp_pending i = d # ds" for d ds
    using q
  proof (cases rule: oq.take_or_next_cases [where current = "current_write i"])
    case none
    with that show ?thesis by (simp add: tcp_pending_def pending_of_def)
  next
    case (some d' q')
    moreover obtain r s where "ts_write ops (stream i) d' = (r, s)" by (cases "ts_write ops (stream i) d'")
    ultimately show ?thesis
      using that by (cases r) (auto simp: tcp_flush_defs io_failure_def)
  qed
qed

text \<open>What the operating system promises: a write takes a prefix of the data, a failed one nothing.\<close>

definition tcp_write_contract :: "'s tcp_ops \<Rightarrow> ('s \<Rightarrow> byte list) \<Rightarrow> bool" where
  "tcp_write_contract ops sent \<longleftrightarrow>
     (\<forall>s d n s'. ts_write ops s d = (Inr n, s') \<longrightarrow> n \<le> length d \<and> sent s' = sent s @ take n d) \<and>
     (\<forall>s d e s'. ts_write ops s d = (Inl e, s') \<longrightarrow> sent s' = sent s)"

text \<open>A write that succeeds on a non-empty buffer takes at least one byte.\<close>

definition tcp_progress :: "'s tcp_ops \<Rightarrow> bool" where
  "tcp_progress ops \<longleftrightarrow> (\<forall>s d n s'. ts_write ops s d = (Inr n, s') \<longrightarrow> d \<noteq> [] \<longrightarrow> 0 < n)"

text \<open>
  The bytes on the wire, completed by the rest of the message being written: a turn extends them by
  whole messages from the front of the queue, whatever the stream accepts.
\<close>

definition tcp_line :: "('s \<Rightarrow> byte list) \<Rightarrow> ('s, 'k) TcpInner \<Rightarrow> byte list" where
  "tcp_line sent i = sent (stream i) @ (case current_write i of None \<Rightarrow> [] | Some d \<Rightarrow> d)"

lemma write_contractD:
  "tcp_write_contract ops sent \<Longrightarrow> ts_write ops s d = (r, s') \<Longrightarrow>
     case r of Inl e \<Rightarrow> sent s' = sent s | Inr n \<Rightarrow> n \<le> length d \<and> sent s' = sent s @ take n d"
  by (auto simp: tcp_write_contract_def split: sum.split)

lemma flush_turn_effect:
  assumes contract: "tcp_write_contract ops sent" and ok: "tcp_ok i"
    and turn: "flush_turn ops i = Inl i' \<and> ans = Inr b \<or> flush_turn ops i = Inr (Done (ans, i'))"
  shows "tcp_ok i' \<and> enc_ctx i' = enc_ctx i \<and> conf (out_queue i') = conf (out_queue i) \<and>
    (\<exists>taken. view (out_queue i) = taken @ view (out_queue i') \<and>
      (case ans of
         Inr _ \<Rightarrow> tcp_line sent i' = tcp_line sent i @ concat (msgs taken)
       | Inl _ \<Rightarrow> \<exists>lost. tcp_line sent i' @ lost = tcp_line sent i @ concat (msgs taken)))"
proof -
  from ok have q: "oq_ok (out_queue i)" by (simp add: tcp_ok_def)
  then show ?thesis
  proof (cases rule: oq.take_or_next_tagged [where current = "current_write i"])
    case none
    with turn ok show ?thesis
      by (auto simp: flush_turn_eq tcp_line_def tcp_ok_def split: sum.split)
  next
    case (current d)
    obtain r s where wr: "ts_write ops (stream i) d = (r, s)" by (cases "ts_write ops (stream i) d")
    with current write_contractD [OF contract wr] turn ok show ?thesis
      by (cases r) (auto simp: flush_turn_eq tcp_line_def tcp_ok_def Let_def split: if_splits sum.split)
  next
    case (queued p t d q')
    obtain r s where wr: "ts_write ops (stream i) d = (r, s)" by (cases "ts_write ops (stream i) d")
    with queued write_contractD [OF contract wr] turn take_or_next_conf [OF queued(2)] show ?thesis
      by (cases r) (auto simp: flush_turn_eq tcp_line_def tcp_ok_def Let_def
          intro!: exI [of _ "[(p, t, d)]"] split: if_splits sum.split)
  qed
qed

interpretation tcp_order: ordered_flush "flush_turn ops" "\<lambda>i. view (out_queue i)" "tcp_line sent"
  "\<lambda>d. d" "\<lambda>_. True" "\<lambda>i. tcp_ok i \<and> tcp_write_contract ops sent" "\<lambda>i. (enc_ctx i, conf (out_queue i))"
  for ops :: "'s tcp_ops" and sent
  by (unfold_locales, elim conjE, frule (2) flush_turn_effect, simp cong: sum.case_cong)

lemma flush_outcome:
  assumes "flush_write_until_would_block ops i = Some out" and "tcp_ok i"
  shows "\<exists>r i'. out = Done (r, i') \<and> tcp_ok i' \<and>
    (r = Inr True \<and> tcp_pending i' = [] \<or> r = Inr False \<and> tcp_pending i' \<noteq> [] \<or>
     (\<exists>e. r = Inl (Io e) \<and> \<not> is_would_block e))"
  using tcp_flush.flush_result [of ops i out] assms
  by (auto simp: flush_write_until_would_block_def io_failure_def)

lemma flush_returns:
  assumes "tcp_progress ops" and "tcp_ok i"
  shows "\<exists>out. flush_write_until_would_block ops i = Some out"
  unfolding flush_write_until_would_block_def
proof (rule tcp_flush.flush_total [where weight = "\<lambda>d. Suc (length d)"])
  fix i i' :: "('a, 'b) TcpInner" assume ok: "tcp_ok i" and t: "flush_turn ops i = Inl i'"
  then have q: "oq_ok (out_queue i)" by (simp add: tcp_ok_def)
  from q show "(\<Sum>d\<leftarrow>tcp_pending i'. Suc (length d)) < (\<Sum>d\<leftarrow>tcp_pending i. Suc (length d))"
  proof (cases rule: oq.take_or_next_cases [where current = "current_write i"])
    case none
    with t show ?thesis by (simp add: flush_turn_eq)
  next
    case (some d q')
    moreover obtain r s where "ts_write ops (stream i) d = (r, s)" by (cases "ts_write ops (stream i) d")
    moreover have "0 < n" if "r = Inr n" "d \<noteq> []" for n
      using assms(1) calculation that by (auto simp: tcp_progress_def)
    ultimately show ?thesis
      using t by (cases r; cases "d = []") (auto simp: flush_turn_eq tcp_pending_def pending_of_def Let_def split: if_splits)
  qed
qed (rule assms(2))

section \<open>The read loop\<close>

text \<open>
  What the operating system hands over during one call of \<open>read\<close>: the pieces read until it says
  end of file (\<open>Inr ()\<close>) or reports an error.
\<close>

inductive tcp_yields ::
  "'s tcp_ops \<Rightarrow> 's \<Rightarrow> byte list list \<Rightarrow> io_error + unit \<Rightarrow> 's \<Rightarrow> bool" for ops where
  eof: "ts_read ops s BUF_LEN = (Inr [], s') \<Longrightarrow> tcp_yields ops s [] (Inr ()) s'"
| err: "ts_read ops s BUF_LEN = (Inl e, s') \<Longrightarrow> tcp_yields ops s [] (Inl e) s'"
| piece: "ts_read ops s BUF_LEN = (Inr buf, s1) \<Longrightarrow> buf \<noteq> [] \<Longrightarrow> tcp_yields ops s1 cs fin s' \<Longrightarrow>
    tcp_yields ops s (buf # cs) fin s'"

text \<open>What \<open>read\<close> answers once the pieces are in the reader.\<close>

definition finish_read ::
  "('k, u32) codec \<Rightarrow> ('k, 'm) codec \<Rightarrow> bool \<Rightarrow> io_error + unit \<Rightarrow> ('s, 'k) TcpInner \<Rightarrow>
     'm option res \<times> ('s, 'k) TcpInner" where
  "finish_read hc mc something fin i =
     (case fin of
        Inr _ \<Rightarrow>
          (if something then
             (case inner_try_read_pure hc mc i of (Inr None, i') \<Rightarrow> (Inl ZeroByteRead, i') | r \<Rightarrow> r)
           else (Inl ZeroByteRead, i))
      | Inl e \<Rightarrow>
          (if is_would_block e then (if something then inner_try_read_pure hc mc i else (Inr None, i))
           else (Inl (Io e), i)))"

definition buffered :: "byte list list \<Rightarrow> 's \<Rightarrow> ('s, 'k) TcpInner \<Rightarrow> ('s, 'k) TcpInner" where
  "buffered cs s i = i\<lparr> stream := s, msg_reader := put_buf (concat cs) (msg_reader i) \<rparr>"

lemma buffered_Cons:
  "buffered cs s (i\<lparr> stream := s1, msg_reader := put_buf c (msg_reader i) \<rparr>) = buffered (c # cs) s i"
  by (simp add: buffered_def put_buf_def)

lemma buffered_Nil: "buffered [] s i = i\<lparr> stream := s \<rparr>"
  by (cases i) (simp add: buffered_def put_buf_def)

lemma read_loop_yields:
  assumes "tcp_yields ops (stream i) cs fin s"
  shows "rust_loop (read_turn_pure ops hc mc) (something, i) =
    Some (finish_read hc mc (something \<or> cs \<noteq> []) fin (buffered cs s i))"
  using assms
proof (induction "stream i" cs fin s arbitrary: i something rule: tcp_yields.induct)
  case (eof s')
  then show ?case
    by (intro rust_loop_Inr)
      (auto simp: read_turn_pure_def finish_read_def buffered_Nil Let_def split: prod.splits sum.splits option.splits)
next
  case (err e s')
  then show ?case
    by (intro rust_loop_Inr) (auto simp: read_turn_pure_def finish_read_def buffered_Nil Let_def)
next
  case (piece buf s1 cs fin s')
  have "read_turn_pure ops hc mc (something, i) =
      Inl (True, i\<lparr> stream := s1, msg_reader := put_buf buf (msg_reader i) \<rparr>)"
    using piece(1,2) by (simp add: read_turn_pure_def Let_def)
  with piece(4) [of "i\<lparr> stream := s1, msg_reader := put_buf buf (msg_reader i) \<rparr>" True]
  show ?case by (simp add: rust_loop_Inl buffered_Cons)
qed

text \<open>A peer cannot have sent more than a finite amount: each piece lowers what is left.\<close>

definition finite_backlog :: "'s tcp_ops \<Rightarrow> ('s \<Rightarrow> nat) \<Rightarrow> bool" where
  "finite_backlog ops backlog \<longleftrightarrow>
     (\<forall>s buf s'. ts_read ops s BUF_LEN = (Inr buf, s') \<longrightarrow> buf \<noteq> [] \<longrightarrow> backlog s' < backlog s)"

lemma finite_backlog_yields:
  "finite_backlog ops backlog \<Longrightarrow> \<exists>cs fin s'. tcp_yields ops s cs fin s'"
proof (induction "backlog s" arbitrary: s rule: less_induct)
  case less
  obtain r s1 where r: "ts_read ops s BUF_LEN = (r, s1)" by (cases "ts_read ops s BUF_LEN")
  show ?case
  proof (cases r)
    case (Inl e)
    with r show ?thesis by (blast intro: tcp_yields.err)
  next
    case (Inr buf)
    show ?thesis
    proof (cases "buf = []")
      case True
      with r Inr show ?thesis by (blast intro: tcp_yields.eof)
    next
      case False
      with r Inr less.prems have "backlog s1 < backlog s" by (auto simp: finite_backlog_def)
      from less.hyps [OF this less.prems] r Inr False show ?thesis
        by (blast intro: tcp_yields.piece)
    qed
  qed
qed

lemma TcpInner_read_total:
  assumes "finite_backlog ops backlog"
  shows "\<exists>r i'. TcpInner_read_pure ops hc mc i = Some (r, i')"
proof -
  obtain r i1 where r: "inner_try_read_pure hc mc i = (r, i1)" by (cases "inner_try_read_pure hc mc i")
  obtain cs fin s where "tcp_yields ops (stream i1) cs fin s"
    using finite_backlog_yields [OF assms] by blast
  from read_loop_yields [OF this, of hc mc False] r show ?thesis
    by (cases "finish_read hc mc (cs \<noteq> []) fin (buffered cs s i1)")
      (auto simp: TcpInner_read_pure_def split: sum.splits option.splits)
qed

section \<open>Writing a message\<close>

lemma enqueue_data_ok: "tcp_ok i \<Longrightarrow> enqueue_data hc mc rng now p m i = (r, i') \<Longrightarrow> tcp_ok i'"
  by (auto simp: enqueue_data_def tcp_ok_def push_def push_at_ok split: sum.splits)

lemma drop_expired_ok: "tcp_ok i \<Longrightarrow> tcp_ok (i\<lparr> out_queue := snd (drop_expired t (out_queue i)) \<rparr>)"
  using drop_expired_refines [of "out_queue i" t]
  by (cases "drop_expired t (out_queue i)") (auto simp: tcp_ok_def)

lemma serialize_error_kind:
  "serialize_with_len hc mc rng m e = Inl err \<Longrightarrow> (\<exists>x. err = Serialisation x) \<or> (\<exists>x. err = Crypto x)"
  by (auto simp: serialize_with_len_def encrypt_def try_op_def
      split: sum.splits EncryptContext.splits)

lemma TcpInner_write_outcome:
  assumes "TcpInner_write ops hc mc rng t t' msg i = Some out" and "tcp_ok i"
  shows "\<exists>r i'. out = Done (r, i') \<and> tcp_ok i' \<and>
    (r = Inr True \<and> tcp_pending i' = [] \<or> r = Inr False \<and> tcp_pending i' \<noteq> [] \<or>
     (\<exists>e. r = Inl (Io e) \<and> \<not> is_would_block e) \<or>
     (\<exists>m p e. msg = Some (m, p) \<and> serialize_with_len hc mc rng m (enc_ctx i) = Inl e \<and> r = Inl e))"
proof -
  define j where "j = i\<lparr> out_queue := snd (drop_expired t (out_queue i)) \<rparr>"
  have j: "tcp_ok j" "enc_ctx j = enc_ctx i"
    using drop_expired_ok [OF assms(2)] by (simp_all add: j_def)
  show ?thesis
  proof (cases msg)
    case None
    with assms(1) have "flush_write_until_would_block ops j = Some out"
      by (simp add: TcpInner_write_def j_def Let_def)
    from flush_outcome [OF this j(1)] show ?thesis by blast
  next
    case (Some mp)
    obtain m p where mp: "mp = (m, p)" by (cases mp)
    obtain r k where k: "enqueue_data hc mc rng t' p m j = (r, k)" by (cases "enqueue_data hc mc rng t' p m j")
    show ?thesis
    proof (cases r)
      case (Inl e)
      with k Some mp assms(1) have "out = Done (Inl e, k)"
        by (simp add: TcpInner_write_def j_def Let_def)
      moreover have "serialize_with_len hc mc rng m (enc_ctx i) = Inl e"
        using k Inl j(2) by (auto simp: enqueue_data_def split: sum.splits)
      ultimately show ?thesis
        using Some mp enqueue_data_ok [OF j(1) k] by blast
    next
      case (Inr u)
      with k Some mp assms(1) have "flush_write_until_would_block ops k = Some out"
        by (simp add: TcpInner_write_def j_def Let_def)
      from flush_outcome [OF this enqueue_data_ok [OF j(1) k]] show ?thesis by blast
    qed
  qed
qed

lemma TcpInner_write_returns:
  assumes "tcp_progress ops" and "tcp_ok i"
  shows "\<exists>out. TcpInner_write ops hc mc rng t t' msg i = Some out"
proof -
  define j where "j = i\<lparr> out_queue := snd (drop_expired t (out_queue i)) \<rparr>"
  have j: "tcp_ok j" using drop_expired_ok [OF assms(2)] by (simp add: j_def)
  show ?thesis
  proof (cases msg)
    case None
    with flush_returns [OF assms(1) j] show ?thesis by (simp add: TcpInner_write_def j_def Let_def)
  next
    case (Some mp)
    obtain m p where mp: "mp = (m, p)" by (cases mp)
    obtain r k where k: "enqueue_data hc mc rng t' p m j = (r, k)" by (cases "enqueue_data hc mc rng t' p m j")
    from flush_returns [OF assms(1) enqueue_data_ok [OF j k]] k Some mp show ?thesis
      by (cases r) (simp_all add: TcpInner_write_def j_def Let_def)
  qed
qed

section \<open>A concrete stream\<close>

text \<open>
  A stream on which theorems are evaluated: the pieces still to be read, the bytes written so far
  and the room left in the send buffer.
\<close>

type_synonym pipe = "byte list list \<times> byte list \<times> nat"

definition pipe_read :: "pipe \<Rightarrow> usize \<Rightarrow> (io_error + byte list) \<times> pipe" where
  "pipe_read s n =
     (case s of
        ([], w) \<Rightarrow> (Inl (IoError WouldBlock []), [], w)
      | (c # cs, w) \<Rightarrow> (Inr c, cs, w))"

definition pipe_write :: "pipe \<Rightarrow> byte list \<Rightarrow> (io_error + usize) \<times> pipe" where
  "pipe_write s d =
     (case s of (cs, out, room) \<Rightarrow>
        if room = 0 \<and> d \<noteq> [] then (Inl (IoError WouldBlock []), s)
        else let n = min room (length d) in (Inr n, cs, out @ take n d, room - n))"

definition pipe_ops :: "pipe tcp_ops" where
  "pipe_ops = \<lparr>
     ts_connect = (\<lambda>s a. Inr s), ts_read = pipe_read, ts_write = pipe_write,
     ts_set_linger = (\<lambda>s d. (Inr (), s)), ts_set_ttl = (\<lambda>s t. (Inr (), s)),
     ts_ttl = (\<lambda>s. (Inr 64, s)), ts_local_addr = (\<lambda>s. (Inr (V4 0 1), s)),
     ts_peer_addr = (\<lambda>s. (Inr (V4 0 2), s)), ts_take_error = (\<lambda>s. (Inr None, s)),
     ts_register = (\<lambda>s p t i q. (Inr (), s)), ts_reregister = (\<lambda>s p t i q. (Inr (), s)),
     ts_deregister = (\<lambda>s p. (Inr (), s)), ts_shutdown_both = (\<lambda>s. (Inr (), s)) \<rparr>"

definition pipe_sent :: "pipe \<Rightarrow> byte list" where
  "pipe_sent s = fst (snd s)"

lemma pipe_write_contract: "tcp_write_contract pipe_ops pipe_sent"
  by (auto simp: tcp_write_contract_def pipe_ops_def pipe_write_def pipe_sent_def Let_def
      split: prod.splits if_splits)

lemma pipe_progress: "tcp_progress pipe_ops"
  by (auto simp: tcp_progress_def pipe_ops_def pipe_write_def Let_def split: prod.splits if_splits)

lemma pipe_backlog: "finite_backlog pipe_ops (\<lambda>s. length (fst s))"
  by (auto simp: finite_backlog_def pipe_ops_def pipe_read_def split: prod.splits list.splits)

text \<open>A stream whose writes are accepted with zero bytes, and one whose writes fail.\<close>

definition stalled_ops :: "pipe tcp_ops" where
  "stalled_ops = pipe_ops\<lparr> ts_write := (\<lambda>s d. (Inr 0, s)) \<rparr>"

definition broken_ops :: "pipe tcp_ops" where
  "broken_ops = pipe_ops\<lparr> ts_write := (\<lambda>s d. (Inl (IoError BrokenPipe []), s)) \<rparr>"

definition sample_inner :: "pipe \<Rightarrow> (pipe, nat) TcpInner" where
  "sample_inner s =
     (TcpInner_new s)\<lparr> out_queue := push_at 0 [1, 2, 3] 1 (OutQueue_new SocketConfig_default) \<rparr>"

lemma TcpInner_new_ok: "tcp_ok (TcpInner_new_with_conf s c)"
  by (simp add: TcpInner_new_with_conf_def tcp_ok_def oq_ok_new Let_def)

lemma sample_inner_ok: "tcp_ok (sample_inner s)"
  by (simp add: sample_inner_def tcp_ok_def push_at_ok oq_ok_new)

lemma sample_inner_view: "view (out_queue (sample_inner s)) = [(1, 0, [1, 2, 3])]"
  by (simp add: sample_inner_def view_def push_at_def OutQueue_new_def)

lemmas tcp_new_defs = TcpInner_new_def TcpInner_new_with_conf_def

lemma sample_inner_simps [simp]:
  "stream (sample_inner s) = s" "current_write (sample_inner s) = None"
  "enc_ctx (sample_inner s) = EncryptContext.Null"
  by (simp_all add: sample_inner_def tcp_new_defs config_defaults Let_def)

lemmas flush_evals =
  TcpInner_write_def flush_write_until_would_block_def rust_loop.simps flush_turn_eq
  take_or_next_def sample_inner_def tcp_new_defs pipe_ops_def pipe_write_def broken_ops_def
  is_would_block_def

section \<open>Properties\<close>

text \<open>
  A call of \<open>write\<close> that returns never panics, keeps the queue's invariant and answers what it
  documents: \<open>Ok(true)\<close> exactly when nothing is left to send, \<open>Ok(false)\<close> when something is, and
  otherwise the error of the stream (which is not a would-block error) or of serialising the
  message.
\<close>

theorem tcp_write_answers:
  assumes "TcpInner_write ops hc mc rng t t' msg i = Some out" and "tcp_ok i"
  shows "\<exists>r i'. out = Done (r, i') \<and> tcp_ok i' \<and>
    (r = Inr True \<and> tcp_pending i' = [] \<or> r = Inr False \<and> tcp_pending i' \<noteq> [] \<or>
     (\<exists>e. r = Inl (Io e) \<and> \<not> is_would_block e) \<or>
     (\<exists>m p e. msg = Some (m, p) \<and> serialize_with_len hc mc rng m (enc_ctx i) = Inl e \<and> r = Inl e))"
  using assms by (rule TcpInner_write_outcome)

lemma sample_write:
  "TcpInner_write pipe_ops le32_codec bytes_codec 0 (\<lambda>_. 0) 0 None (sample_inner ([], [], 2)) =
     Some (Done (Inr False, (TcpInner_new ([], [1, 2], 0))\<lparr> current_write := Some [3] \<rparr>))"
  by (simp add: flush_evals queue_simps)

theorem tcp_write_answers_witness:
  "tcp_pending ((TcpInner_new ([], [1, 2], 0) :: (pipe, nat) TcpInner)\<lparr> current_write := Some [3] \<rparr>) \<noteq> []"
  using tcp_write_answers [OF sample_write sample_inner_ok] by auto

text \<open>
  Every call of \<open>write\<close> returns, provided the stream takes at least one byte whenever it takes
  a non-empty buffer at all: the flush loop ends because each turn sends a byte or finishes a
  message.
\<close>

theorem tcp_write_returns:
  assumes "tcp_progress ops" and "tcp_ok i"
  shows "\<exists>out. TcpInner_write ops hc mc rng t t' msg i = Some out"
  using assms by (rule TcpInner_write_returns)

theorem tcp_write_returns_witness:
  "\<exists>out. TcpInner_write pipe_ops le32_codec bytes_codec 0 (\<lambda>_. 0) 0 (Some ([5], 0)) (sample_inner ([], [], 2)) = Some out"
  by (rule tcp_write_returns [OF pipe_progress sample_inner_ok])

text \<open>
  C30. On a stream that keeps accepting zero bytes of a non-empty message, flushing never returns:
  the loop has no exit for \<open>Ok(0)\<close>, the result that \<open>std::io::Write\<close> documents for a stream that
  cannot take any more.
\<close>

theorem tcp_flush_hangs_on_zero:
  assumes "\<forall>s d. d \<noteq> [] \<longrightarrow> ts_write ops s d = (Inr 0, s)" and "tcp_ok i"
    and "tcp_pending i = d # ds" and "d \<noteq> []"
  shows "flush_write_until_would_block ops i = None"
  unfolding flush_write_until_would_block_def
proof (rule rust_loop_diverges [where P = "\<lambda>j. tcp_ok j \<and> (\<exists>ds. tcp_pending j = d # ds)"])
  fix j :: "('a, 'b) TcpInner" assume j: "tcp_ok j \<and> (\<exists>ds. tcp_pending j = d # ds)"
  then have q: "oq_ok (out_queue j)" by (simp add: tcp_ok_def)
  from q show "\<exists>j'. flush_turn ops j = Inl j' \<and> tcp_ok j' \<and> (\<exists>ds. tcp_pending j' = d # ds)"
  proof (cases rule: oq.take_or_next_cases [where current = "current_write j"])
    case none
    with j show ?thesis by (auto simp: tcp_pending_def pending_of_def)
  next
    case (some d' q')
    with j have "d' = d" by (auto simp: tcp_pending_def)
    with some assms(1,4) show ?thesis by (simp add: tcp_flush_defs)
  qed
qed (use assms(2,3) in simp)

theorem tcp_flush_hangs_on_zero_witness:
  "flush_write_until_would_block stalled_ops (sample_inner ([], [], 2)) = None"
  by (rule tcp_flush_hangs_on_zero [OF _ sample_inner_ok, where d = "[1, 2, 3]" and ds = "[]"])
    (simp_all add: stalled_ops_def tcp_pending_def pending_of_def sample_inner_view)

text \<open>
  C23. \<open>read\<close> computes its reference, and does not panic: a message already buffered is returned without touching the
  stream. Otherwise all pieces up to end of file or an error are put in the reader first, and the
  answer is then the next message, or end of file, or the error, or \<open>None\<close>.
\<close>

theorem tcp_read_reference:
  assumes "tcp_yields ops (stream i) cs fin s"
  shows "TcpInner_read ops hc mc i =
    Some (Done (case inner_try_read_pure hc mc i of
        (Inr None, i1) \<Rightarrow> finish_read hc mc (cs \<noteq> []) fin (buffered cs s i1)
      | r \<Rightarrow> r))"
proof -
  obtain r i1 where r: "inner_try_read_pure hc mc i = (r, i1)" by (cases "inner_try_read_pure hc mc i")
  then have "stream i1 = stream i"
    by (auto simp: inner_try_read_pure_def split: prod.splits)
  with assms have "tcp_yields ops (stream i1) cs fin s" by simp
  from read_loop_yields [OF this, of hc mc False] have "TcpInner_read_pure ops hc mc i =
      Some (case inner_try_read_pure hc mc i of
        (Inr None, i1) \<Rightarrow> finish_read hc mc (cs \<noteq> []) fin (buffered cs s i1)
      | r \<Rightarrow> r)"
    using r by (auto simp: TcpInner_read_pure_def split: sum.splits option.splits)
  then show ?thesis by (simp only: TcpInner_read_in_range option.map)
qed

theorem tcp_read_reference_witness:
  "TcpInner_read pipe_ops le32_codec bytes_codec (TcpInner_new ([[2, 0, 0], [0, 7, 8]], [], 0)) =
     Some (Done (Inr (Some [7, 8]), TcpInner_new ([], [], 0)))"
proof -
  have "tcp_yields pipe_ops ([[2, 0, 0], [0, 7, 8]], [], 0) [[2, 0, 0], [0, 7, 8]]
      (Inl (IoError WouldBlock [])) ([], [], 0)"
    by (rule tcp_yields.piece [where ?s1.0 = "([[0, 7, 8]], [], 0)"]
        tcp_yields.piece [where ?s1.0 = "([], [], 0)"] tcp_yields.err |
      simp add: pipe_ops_def pipe_read_def)+
  then have y: "tcp_yields pipe_ops
      (stream (TcpInner_new ([[2, 0, 0], [0, 7, 8]], [], 0) :: (pipe, nat) TcpInner)) [[2, 0, 0], [0, 7, 8]]
      (Inl (IoError WouldBlock [])) ([], [], 0)"
    by (simp add: tcp_new_defs Let_def)
  show ?thesis
    unfolding tcp_read_reference [OF y]
    by (simp add: tcp_new_defs config_defaults inner_try_read_pure_def
        try_read_pure_def reader_defs LenDelimitedReader_new_def finish_read_def buffered_def
        is_would_block_def codec_simps)
qed

text \<open>
  Every call of \<open>read\<close> returns, provided the peer has only finitely many bytes in flight: the
  loop reads on until the stream would block, ends or fails.
\<close>

theorem tcp_read_returns:
  assumes "finite_backlog ops backlog"
  shows "\<exists>r i'. TcpInner_read ops hc mc i = Some (Done (r, i'))"
  using TcpInner_read_total [OF assms, of hc mc i] by (auto simp: TcpInner_read_in_range)

theorem tcp_read_returns_witness:
  "\<exists>r i'. TcpInner_read pipe_ops le32_codec bytes_codec (TcpInner_new ([[2, 0, 0]], [], 0)) = Some (Done (r, i'))"
  by (rule tcp_read_returns [OF pipe_backlog])

text \<open>
  \<open>max_payload_size\<close> is documented as the maximum data size that the socket will send, but no
  size makes \<open>write\<close> refuse a message: it never answers \<open>PayloadSizeProhibitive\<close>.
\<close>

theorem tcp_write_ignores_size_limit:
  assumes "TcpInner_write ops hc mc rng t t' msg i = Some (Done (Inl e, i'))" and "tcp_ok i"
  shows "e \<noteq> PayloadSizeProhibitive"
  using TcpInner_write_outcome [OF assms] serialize_error_kind by fastforce

theorem tcp_write_ignores_size_limit_witness:
  "\<exists>i'. TcpInner_write broken_ops le32_codec bytes_codec 0 (\<lambda>_. 0) 0 None (sample_inner ([], [], 2)) =
     Some (Done (Inl (Io (IoError BrokenPipe [])), i')) \<and>
     Io (IoError BrokenPipe []) \<noteq> PayloadSizeProhibitive"
proof -
  have "\<exists>i'. TcpInner_write broken_ops le32_codec bytes_codec 0 (\<lambda>_. 0) 0 None (sample_inner ([], [], 2)) =
     Some (Done (Inl (Io (IoError BrokenPipe [])), i'))"
    by (simp add: flush_evals queue_simps)
  then show ?thesis
    using tcp_write_ignores_size_limit [OF _ sample_inner_ok] by blast
qed

text \<open>
  A socket that was never connected or wrapped answers every operation with
  \<open>UninitialisedSocket\<close> (as an \<open>io::Error\<close> of kind \<open>Other\<close> with the same text from \<open>Evented\<close>), and
  stays uninitialised.
\<close>

theorem tcp_uninitialised:
  "TcpSock_read ops hc mc TcpSock_default = Some (Done (Inl UninitialisedSocket, None)) \<and>
   TcpSock_write ops hc mc rng t t' msg TcpSock_default = Some (Done (Inl UninitialisedSocket, None)) \<and>
   TcpSock_set_encrypt_ctx e TcpSock_default = (Inl UninitialisedSocket, TcpSock_default) \<and>
   TcpSock_set_decrypt_ctx d TcpSock_default = (Inl UninitialisedSocket, TcpSock_default) \<and>
   TcpSock_set_linger ops dur TcpSock_default = (Inl UninitialisedSocket, TcpSock_default) \<and>
   TcpSock_set_ttl ops ttl TcpSock_default = (Inl UninitialisedSocket, TcpSock_default) \<and>
   TcpSock_ttl ops TcpSock_default = (Inl UninitialisedSocket, TcpSock_default) \<and>
   TcpSock_local_addr ops TcpSock_default = (Inl UninitialisedSocket, TcpSock_default) \<and>
   TcpSock_peer_addr ops TcpSock_default = (Inl UninitialisedSocket, TcpSock_default) \<and>
   TcpSock_take_error ops TcpSock_default = (Inl UninitialisedSocket, TcpSock_default) \<and>
   TcpSock_register ops poll token interest opts TcpSock_default = (Inl uninitialised_io_error, TcpSock_default) \<and>
   TcpSock_reregister ops poll token interest opts TcpSock_default = (Inl uninitialised_io_error, TcpSock_default) \<and>
   TcpSock_deregister ops poll TcpSock_default = (Inl uninitialised_io_error, TcpSock_default)"
  by (simp add: TcpSock_default_def guard_defs TcpSock_read_def TcpSock_write_def
      TcpSock_set_encrypt_ctx_def TcpSock_set_decrypt_ctx_def TcpSock_set_linger_def
      TcpSock_set_ttl_def TcpSock_ttl_def TcpSock_local_addr_def TcpSock_peer_addr_def
      TcpSock_take_error_def TcpSock_register_def TcpSock_reregister_def TcpSock_deregister_def)

end
