(* ===== verification/Recv_Loop.thy ===== *)
theory Recv_Loop
  imports Mio
begin

text \<open>
  What \<open>read\<close> and \<open>read_frm\<close> of \<open>src/src/udp.rs\<close> have in common: a loop that buffers incoming
  datagrams until the socket would block, and a read that answers from the buffer. The locale is
  the contract of one turn of the loop; both reads are its instances.
\<close>

text \<open>What the socket hands over before it reports an error.\<close>

inductive datagrams ::
  "('s \<Rightarrow> (io_error + 'a) \<times> 's) \<Rightarrow> 's \<Rightarrow> 'a list \<Rightarrow> io_error \<Rightarrow> 's \<Rightarrow> bool" for recv where
  stop: "recv s = (Inl e, s') \<Longrightarrow> datagrams recv s [] e s'"
| more: "recv s = (Inr d, s1) \<Longrightarrow> datagrams recv s1 ds e s' \<Longrightarrow> datagrams recv s (d # ds) e s'"


inductive_simps datagrams_simps:
  "datagrams recv s [] e s'"
  "datagrams recv s (d # ds) e s'"

text \<open>Only finitely many datagrams are waiting.\<close>

definition finite_arrivals :: "('s \<Rightarrow> (io_error + 'a) \<times> 's) \<Rightarrow> ('s \<Rightarrow> nat) \<Rightarrow> bool" where
  "finite_arrivals recv backlog \<longleftrightarrow> (\<forall>s d s'. recv s = (Inr d, s') \<longrightarrow> backlog s' < backlog s)"

lemma finite_arrivals_datagrams:
  "finite_arrivals recv backlog \<Longrightarrow> \<exists>ds e s'. datagrams recv s ds e s'"
proof (induction "backlog s" arbitrary: s rule: less_induct)
  case less
  obtain r s1 where r: "recv s = (r, s1)" by (cases "recv s")
  show ?case
  proof (cases r)
    case (Inl e)
    with r show ?thesis by (blast intro: datagrams.stop)
  next
    case (Inr d)
    with r less.prems have "backlog s1 < backlog s" by (auto simp: finite_arrivals_def)
    from less.hyps [OF this less.prems] r Inr show ?thesis by (blast intro: datagrams.more)
  qed
qed

text \<open>Calling a read \<open>n\<close> times, one after the other.\<close>

fun repeat_read :: "('i \<Rightarrow> ('r \<times> 'i) option) \<Rightarrow> nat \<Rightarrow> 'i \<Rightarrow> ('r list \<times> 'i) option" where
  "repeat_read rd 0 i = Some ([], i)"
| "repeat_read rd (Suc n) i =
     (case rd i of
        None \<Rightarrow> None
      | Some (r, i') \<Rightarrow>
          (case repeat_read rd n i' of None \<Rightarrow> None | Some (rs, i'') \<Rightarrow> Some (r # rs, i'')))"

lemma repeat_read_snoc:
  "repeat_read rd n i = Some (rs, j) \<Longrightarrow> rd j = Some (r, k) \<Longrightarrow>
     repeat_read rd (Suc n) i = Some (rs @ [r], k)"
proof (induction n arbitrary: i rs)
  case (Suc n)
  from Suc.prems obtain r1 i1 rs1 where
    "rd i = Some (r1, i1)" "repeat_read rd n i1 = Some (rs1, j)" "rs = r1 # rs1"
    by (auto split: option.splits)
  with Suc.IH [of i1 rs1] Suc.prems(2) show ?case by simp
qed simp

locale recv_loop =
  fixes recv :: "'s \<Rightarrow> (io_error + 'a) \<times> 's"
    and empty :: "'a \<Rightarrow> bool"
    and src :: "'i \<Rightarrow> 's"
    and buf :: "'i \<Rightarrow> 'a list"
    and put :: "'s \<Rightarrow> 'a list \<Rightarrow> 'i \<Rightarrow> 'i"
    and answer :: "'i \<Rightarrow> 'a \<Rightarrow> 'r option res"
    and turn :: "'i \<Rightarrow> 'i + ('r option res \<times> 'i)"
    and rd :: "'i \<Rightarrow> ('r option res \<times> 'i) option"
  assumes src_put: "src (put s b i) = s"
    and buf_put: "buf (put s b i) = b"
    and put_put: "put s b (put s' b' i) = put s b i"
    and put_same: "put (src i) (buf i) i = i"
    and answer_put: "answer (put s b i) = answer i"
    and turn_got: "recv (src i) = (Inr d, s) \<Longrightarrow>
          turn i = Inl (put s (if empty d then buf i else buf i @ [d]) i)"
    and turn_failed: "recv (src i) = (Inl e, s) \<Longrightarrow> \<not> is_would_block e \<Longrightarrow>
          turn i = Inr (Inl (Io e), put s (buf i) i)"
    and turn_blocked: "recv (src i) = (Inl e, s) \<Longrightarrow> is_would_block e \<Longrightarrow>
          turn i = Inr (case buf i of [] \<Rightarrow> (Inr None, put s [] i) | d # b \<Rightarrow> (answer i d, put s b i))"
    and rd_buffered: "buf i = d # b \<Longrightarrow> rd i = Some (answer i d, put (src i) b i)"
    and rd_loop: "buf i = [] \<Longrightarrow> rd i = rust_loop turn i"
begin

text \<open>What a call answers when \<open>q\<close> is everything buffered and the socket reports \<open>e\<close>.\<close>

definition leave :: "io_error \<Rightarrow> 's \<Rightarrow> 'a list \<Rightarrow> 'i \<Rightarrow> 'r option res \<times> 'i" where
  "leave e s q i =
     (if is_would_block e
      then (case q of [] \<Rightarrow> (Inr None, put s [] i) | d # b \<Rightarrow> (answer i d, put s b i))
      else (Inl (Io e), put s q i))"

lemma loop_leaves:
  assumes "datagrams recv (src i) ds e s"
  shows "rust_loop turn i = Some (leave e s (buf i @ filter (\<lambda>d. \<not> empty d) ds) i)"
  using assms
proof (induction "src i" ds e s arbitrary: i rule: datagrams.induct)
  case (stop e s')
  then show ?case
    by (intro rust_loop_Inr) (simp add: leave_def turn_failed turn_blocked)
next
  case (more d s1 ds e s')
  let ?i = "put s1 (if empty d then buf i else buf i @ [d]) i"
  have "rust_loop turn i = rust_loop turn ?i"
    using more(1) by (intro rust_loop_Inl turn_got) simp
  also have "\<dots> = Some (leave e s' (buf ?i @ filter (\<lambda>d. \<not> empty d) ds) ?i)"
    by (rule more(3)) (simp add: src_put)
  also have "leave e s' (buf ?i @ filter (\<lambda>d. \<not> empty d) ds) ?i =
      leave e s' (buf i @ filter (\<lambda>d. \<not> empty d) (d # ds)) i"
    by (simp add: leave_def buf_put put_put answer_put split: list.split)
  finally show ?case .
qed

lemma rd_leaves:
  assumes "buf i = []" and "datagrams recv (src i) ds e s"
  shows "rd i = Some (leave e s (filter (\<lambda>d. \<not> empty d) ds) i)"
  using assms by (simp add: rd_loop loop_leaves)

text \<open>What is buffered is answered datagram by datagram, without asking the socket.\<close>

lemma drain_buffer:
  "buf i = b \<Longrightarrow> repeat_read rd (length b) i = Some (map (answer i) b, put (src i) [] i)"
proof (induction b arbitrary: i)
  case Nil
  with put_same [of i] show ?case by simp
next
  case (Cons d b)
  have "repeat_read rd (length b) (put (src i) b i) = Some (map (answer i) b, put (src i) [] i)"
    using Cons.IH [of "put (src i) b i"] by (simp add: buf_put src_put answer_put put_put)
  with Cons.prems show ?case by (simp add: rd_buffered)
qed

text \<open>A burst of datagrams is answered in order of arrival, one per call, and nothing else is.\<close>

lemma burst_state:
  assumes "buf i = []" and "datagrams recv (src i) ds e s" and "is_would_block e"
    and "recv s = (Inl e', s')" and "is_would_block e'"
  defines "q \<equiv> filter (\<lambda>d. \<not> empty d) ds"
  shows "repeat_read rd (Suc (length q)) i =
    Some (map (answer i) q @ [Inr None], put (if q = [] then s else s') [] i)"
proof (cases q)
  case Nil
  with rd_leaves [OF assms(1,2)] assms(3) show ?thesis
    by (simp add: leave_def buf_put flip: q_def)
next
  case (Cons d b)
  let ?i = "put s b i" and ?j = "put s [] i"
  from rd_leaves [OF assms(1,2)] assms(3) Cons have first: "rd i = Some (answer i d, ?i)"
    by (simp add: leave_def flip: q_def)
  have rest: "repeat_read rd (length b) ?i = Some (map (answer i) b, ?j)"
    using drain_buffer [of ?i b] by (simp add: buf_put src_put answer_put put_put)
  have "datagrams recv (src ?j) [] e' s'"
    using assms(4) by (auto intro: datagrams.stop simp: src_put)
  from rd_leaves [OF buf_put this] assms(5) have "rd ?j = Some (Inr None, put s' [] i)"
    by (simp add: leave_def put_put)
  from repeat_read_snoc [OF rest this] first Cons show ?thesis by simp
qed

lemma burst_in_order:
  assumes "buf i = []" and "datagrams recv (src i) ds e s" and "is_would_block e"
    and "recv s = (Inl e', s')" and "is_would_block e'"
  defines "q \<equiv> filter (\<lambda>d. \<not> empty d) ds"
  shows "\<exists>j. repeat_read rd (Suc (length q)) i = Some (map (answer i) q @ [Inr None], j) \<and> buf j = []"
  using burst_state [OF assms(1-5)] buf_put unfolding q_def by blast

text \<open>An error of the socket is reported first; what was received before it is not lost.\<close>

lemma error_keeps_buffer:
  assumes "buf i = []" and "datagrams recv (src i) ds e s" and "\<not> is_would_block e"
  defines "q \<equiv> filter (\<lambda>d. \<not> empty d) ds"
  shows "\<exists>j. repeat_read rd (Suc (length q)) i = Some (Inl (Io e) # map (answer i) q, j) \<and> buf j = []"
proof -
  have "rd i = Some (Inl (Io e), put s q i)"
    using rd_leaves [OF assms(1,2)] assms(3) by (simp add: leave_def q_def)
  moreover have "repeat_read rd (length q) (put s q i) = Some (map (answer i) q, put s [] i)"
    using drain_buffer [of "put s q i" q] by (simp add: buf_put src_put answer_put put_put)
  ultimately show ?thesis by (simp add: buf_put)
qed

end

text \<open>A loop over a read that goes on as long as messages are read, gathering them with \<open>f\<close>.\<close>

lemma gathering_loop:
  assumes go: "\<And>i i' m acc. rd i = Some (Inr (Some m), i') \<Longrightarrow> turn (w i, acc) = Inl (w i', f acc m)"
    and stop: "\<And>i i' acc. rd i = Some (Inr None, i') \<Longrightarrow> turn (w i, acc) = Inr (g i' acc)"
  shows "repeat_read rd (Suc (length ms)) i = Some (map (\<lambda>m. Inr (Some m)) ms @ [Inr None], j) \<Longrightarrow>
    rust_loop turn (w i, acc) = Some (g j (foldl f acc ms))"
proof (induction ms arbitrary: i acc)
  case Nil
  then show ?case by (auto intro!: rust_loop_Inr stop split: option.splits)
next
  case (Cons m ms)
  then obtain i' where "rd i = Some (Inr (Some m), i')"
    "repeat_read rd (Suc (length ms)) i' = Some (map (\<lambda>m. Inr (Some m)) ms @ [Inr None], j)"
    by (auto split: option.splits)
  with Cons.IH [of i' "f acc m"] show ?case by (simp add: rust_loop_Inl go)
qed

end
