(* ===== verification/Tcp_Session.thy ===== *)
theory Tcp_Session
  imports Tcp_Sock Recv_Loop
begin

text \<open>
  Whole connections: any sequence of \<open>write\<close> calls on a \<open>TcpSock\<close> (\<open>src/src/tcp.rs\<close>), with the
  outgoing queue in between, and the frame reader at the other end. The messages a session accepts
  are tagged with their priority and time of arrival, so that what is delivered can be compared
  with what was written.
\<close>

section \<open>What a write adds to the queue\<close>

text \<open>The argument of a write is the random choice for the encryption and the message, if any.\<close>

definition tcp_encode ::
  "('k, u32) codec \<Rightarrow> ('k, 'm) codec \<Rightarrow> 'k EncryptContext \<Rightarrow> nat \<times> ('m \<times> Priority) option \<Rightarrow>
     (Priority \<times> 'm \<times> byte list) option res" where
  "tcp_encode hc mc e = (\<lambda>(rng, msg).
     case msg of
       None \<Rightarrow> Inr None
     | Some (m, p) \<Rightarrow> try_op id (serialize_with_len hc mc rng m e) (\<lambda>f. Inr (Some (p, m, f))))"

lemma tcp_encode_simps [simp]:
  "tcp_encode hc mc e (rng, None) = Inr None"
  "tcp_encode hc mc e (rng, Some (m, p)) =
     (case serialize_with_len hc mc rng m e of Inl err \<Rightarrow> Inl err | Inr f \<Rightarrow> Inr (Some (p, m, f)))"
  by (simp_all add: tcp_encode_def try_op_def split: sum.split)

lemma tcp_encode_Some:
  "tcp_encode hc mc e w = Inr (Some (p, x)) \<Longrightarrow> \<exists>rng. serialize_with_len hc mc rng (fst x) e = Inr (snd x)"
  by (auto simp: tcp_encode_def try_op_eq_Inr split: prod.splits option.splits)

section \<open>Sessions\<close>

text \<open>
  Between two writes anything may happen that leaves the sending half of the socket alone: reads,
  changes of options, registrations, and whatever the system does to the stream, as long as it
  neither takes back nor adds to the bytes sent.
\<close>

definition same_sending ::
  "('s \<Rightarrow> byte list) \<Rightarrow> ('s, 'k) TcpInner \<Rightarrow> ('s, 'k) TcpInner \<Rightarrow> bool" where
  "same_sending sent i i' \<longleftrightarrow>
     out_queue i' = out_queue i \<and> current_write i' = current_write i \<and> enc_ctx i' = enc_ctx i \<and>
     sent (stream i') = sent (stream i)"

abbreviation tcp_write ::
  "'s tcp_ops \<Rightarrow> ('k, u32) codec \<Rightarrow> ('k, 'm) codec \<Rightarrow> readings \<Rightarrow> instant \<Rightarrow>
     nat \<times> ('m \<times> Priority) option \<Rightarrow> ('s, 'k) TcpInner \<Rightarrow> (bool res \<times> ('s, 'k) TcpInner) outcome option" where
  "tcp_write ops hc mc \<equiv> \<lambda>t t' (rng, msg). TcpInner_write ops hc mc rng t t' msg"

abbreviation tcp_session ::
  "'s tcp_ops \<Rightarrow> ('k, u32) codec \<Rightarrow> ('k, 'm) codec \<Rightarrow> ('s \<Rightarrow> byte list) \<Rightarrow> ('s, 'k) TcpInner \<Rightarrow>
     ('m \<times> byte list) queued list \<Rightarrow> ('s, 'k) TcpInner \<Rightarrow> bool" where
  "tcp_session ops hc mc sent \<equiv>
     session (\<lambda>i. tcp_encode hc mc (enc_ctx i)) (tcp_write ops hc mc) (same_sending sent)"

text \<open>A write refuses a message that cannot be serialised, or updates the queue and flushes it.\<close>

interpretation tcp_mail: mail_sender "flush_turn ops" "\<lambda>i. view (out_queue i)" "tcp_line sent" "\<lambda>d. d" "\<lambda>_. True"
  "\<lambda>i. tcp_ok i \<and> tcp_write_contract ops sent" "\<lambda>i. (enc_ctx i, conf (out_queue i))"
  "snd :: 'm \<times> byte list \<Rightarrow> byte list" "\<lambda>i. conf (out_queue i)" "\<lambda>i. tcp_encode hc mc (enc_ctx i)"
  "tcp_write ops hc mc" "same_sending sent"
  for ops :: "'s tcp_ops" and sent and hc :: "('k, u32) codec" and mc :: "('k, 'm) codec"
proof unfold_locales
  fix i :: "('s, 'k) TcpInner" and t t' and w :: "nat \<times> ('m \<times> Priority) option"
  assume good: "tcp_ok i \<and> tcp_write_contract ops sent"
  let ?q = "snd (drop_expired t (out_queue i))"
  have q: "oq_ok (out_queue i)" using good by (simp add: tcp_ok_def)
  note write_simps = TcpInner_write_def enqueue_data_def flush_write_until_would_block_def tcp_line_def
    queued_after_def tcp_ok_def drop_expired_steps [OF q] push_steps Let_def
  show "\<exists>j. tcp_write ops hc mc t t' w i = Some (Done (Inl e, j)) \<and> (tcp_ok j \<and> tcp_write_contract ops sent) \<and>
      (enc_ctx j, conf (out_queue j)) = (enc_ctx i, conf (out_queue i)) \<and> tcp_line sent j = tcp_line sent i \<and>
      view (out_queue j) = spec_drop t (conf (out_queue i)) (view (out_queue i))"
    if "tcp_encode hc mc (enc_ctx i) w = Inl e" for e
    using that good by (intro exI [of _ "i\<lparr> out_queue := ?q \<rparr>"])
      (auto simp: write_simps tcp_encode_def try_op_def split: prod.splits option.splits sum.splits)
  show "\<exists>j. tcp_write ops hc mc t t' w i = rust_loop (flush_turn ops) j \<and> (tcp_ok j \<and> tcp_write_contract ops sent) \<and>
      (enc_ctx j, conf (out_queue j)) = (enc_ctx i, conf (out_queue i)) \<and> tcp_line sent j = tcp_line sent i \<and>
      view (out_queue j) =
        queued_after t t' (conf (out_queue i)) (map_option (apsnd snd) new) (view (out_queue i))"
    if "tcp_encode hc mc (enc_ctx i) w = Inr new" for new
  proof (cases new)
    case None
    with that good show ?thesis
      by (intro exI [of _ "i\<lparr> out_queue := ?q \<rparr>"])
        (auto simp: write_simps tcp_encode_def try_op_def split: prod.splits option.splits sum.splits)
  next
    case (Some x)
    obtain p m f where "x = (p, m, f)" by (cases x)
    with Some that good show ?thesis
      by (intro exI [of _ "i\<lparr> out_queue := push t' f p ?q \<rparr>"])
        (auto simp: write_simps tcp_encode_def try_op_def split: prod.splits option.splits sum.splits)
  qed
qed (auto simp: same_sending_def tcp_ok_def tcp_line_def)

text \<open>A read is such a change, if receiving leaves alone what has been sent.\<close>

lemma read_turn_same_sending:
  assumes "\<forall>s n r s'. ts_read ops s n = (r, s') \<longrightarrow> sent s' = sent s"
  shows "read_turn_pure ops hc mc (b, i) = Inl (b', i') \<Longrightarrow> same_sending sent i i'"
    and "read_turn_pure ops hc mc (b, i) = Inr (r, i') \<Longrightarrow> same_sending sent i i'"
proof -
  obtain res s where rd: "ts_read ops (stream i) BUF_LEN = (res, s)" by (cases "ts_read ops (stream i) BUF_LEN")
  with assms have s: "sent s = sent (stream i)" by blast
  show "read_turn_pure ops hc mc (b, i) = Inl (b', i') \<Longrightarrow> same_sending sent i i'"
    using rd s by (auto simp: read_turn_pure_def same_sending_def inner_try_read_pure_def Let_def
        split: sum.splits if_splits option.splits prod.splits)
  show "read_turn_pure ops hc mc (b, i) = Inr (r, i') \<Longrightarrow> same_sending sent i i'"
    using rd s by (auto simp: read_turn_pure_def same_sending_def inner_try_read_pure_def Let_def
        split: sum.splits if_splits option.splits prod.splits)
qed

lemma TcpInner_read_same_sending:
  fixes i :: "('s, 'k) TcpInner"
  assumes "\<forall>s n r s'. ts_read ops s n = (r, s') \<longrightarrow> sent s' = sent s"
    and "TcpInner_read_pure ops hc mc i = Some (r, i')"
  shows "same_sending sent i i'"
proof -
  define f where "f = (\<lambda>i :: ('s, 'k) TcpInner. (out_queue i, current_write i, enc_ctx i, sent (stream i)))"
  have same: "same_sending sent j j' \<longleftrightarrow> f j' = f j" for j j'
    by (simp add: same_sending_def f_def)
  have turn: "f (snd p') = f (snd p)" if "read_turn_pure ops hc mc p = Inl p'" for p p'
    using read_turn_same_sending(1) [OF assms(1), of hc mc "fst p" "snd p" "fst p'" "snd p'"] that
    by (simp add: same)
  have exit: "f j = f (snd p)" if "read_turn_pure ops hc mc p = Inr (x, j)" for p x j
    using read_turn_same_sending(2) [OF assms(1), of hc mc "fst p" "snd p" x j] that by (simp add: same)
  have loop: "f j' = f j" if "rust_loop (read_turn_pure ops hc mc) (False, j) = Some (x, j')" for x j j'
    using rust_loop_keeps [OF that, where f = "\<lambda>p. f (snd p)" and g = f] turn exit by simp
  obtain x j where j: "inner_try_read_pure hc mc i = (x, j)" by (cases "inner_try_read_pure hc mc i")
  then have "f j = f i" by (auto simp: inner_try_read_pure_def f_def split: prod.splits)
  moreover have "f i' = f j"
    using assms(2) j by (auto simp: TcpInner_read_pure_def split: sum.splits option.splits dest: loop)
  ultimately show ?thesis by (simp add: same)
qed

text \<open>A connection on which nothing has been written yet.\<close>

definition fresh :: "('s \<Rightarrow> byte list) \<Rightarrow> ('s, 'k) TcpInner \<Rightarrow> bool" where
  "fresh sent i \<longleftrightarrow> tcp_ok i \<and> view (out_queue i) = [] \<and> current_write i = None \<and> sent (stream i) = []"

lemma fresh_new: "sent s = [] \<Longrightarrow> fresh sent (TcpInner_new_with_conf s c)"
  by (simp add: fresh_def TcpInner_new_ok, simp add: TcpInner_new_with_conf_def view_new Let_def)

text \<open>Each accepted message comes with the frame it was serialised to.\<close>

definition framed ::
  "('k, u32) codec \<Rightarrow> ('k, 'm) codec \<Rightarrow> 'k EncryptContext \<Rightarrow> ('m \<times> byte list) queued list \<Rightarrow> bool" where
  "framed hc mc e es \<longleftrightarrow>
     (\<forall>x\<in>set es. \<exists>rng. serialize_with_len hc mc rng (fst (snd (snd x))) e = Inr (snd (snd (snd x))))"

lemma tcp_session_invariant:
  assumes "tcp_session ops hc mc sent i0 es i"
    and contract: "tcp_write_contract ops sent" and "fresh sent i0"
  shows "tcp_ok i \<and> enc_ctx i = enc_ctx i0 \<and> conf (out_queue i) = conf (out_queue i0) \<and>
    framed hc mc (enc_ctx i0) es \<and>
    in_order (conf (out_queue i0)) snd (\<lambda>d. d) es (tcp_line sent i) (view (out_queue i))"
proof -
  have "tcp_line sent i0 = []" using assms(3) by (simp add: fresh_def tcp_line_def)
  with tcp_mail.session_invariant [OF assms(1)] assms(2,3) have inv: "tcp_ok i" "enc_ctx i = enc_ctx i0"
    "conf (out_queue i) = conf (out_queue i0)"
    "in_order (conf (out_queue i0)) snd (\<lambda>d. d) es (tcp_line sent i) (view (out_queue i))"
    "\<forall>x\<in>set es. \<exists>w. tcp_encode hc mc (enc_ctx i0) w = Inr (Some (fst x, snd (snd x)))"
    by (simp_all add: fresh_def)
  have "framed hc mc (enc_ctx i0) es"
    using inv(5) unfolding framed_def by (blast dest: tcp_encode_Some)
  with inv show ?thesis by simp
qed

section \<open>Reading a burst\<close>

text \<open>What the reader holds is answered message by message, without asking the stream.\<close>

lemma drain_reader:
  assumes "linked keypair hc mc e (dec_ctx (msg_reader i))"
    and "frames_of hc mc e (max_payload_size (msg_reader i)) ms fs"
    and "unread (dec_size_len (dec_ctx (msg_reader i))) (msg_reader i) fs []"
  shows "\<exists>j. repeat_read (TcpInner_read_pure ops hc mc) (length ms) i = Some (map (\<lambda>m. Inr (Some m)) ms, j) \<and>
    stream j = stream i \<and> read_len (msg_reader j) = 0 \<and> read_buffer (msg_reader j) = []"
  using assms
proof (induction ms arbitrary: i fs)
  case Nil
  then show ?case by simp
next
  case (Cons m ms)
  from Cons.prems show ?case
  proof (cases rule: try_read_progress)
    case (delivers m' ms' f fs' rd')
    let ?i = "i\<lparr> msg_reader := rd' \<rparr>"
    have "TcpInner_read_pure ops hc mc i = Some (Inr (Some m), ?i)"
      using delivers by (simp add: TcpInner_read_pure_def inner_try_read_pure_def)
    moreover from Cons.IH [of ?i fs'] delivers Cons.prems obtain j where
      "repeat_read (TcpInner_read_pure ops hc mc) (length ms) ?i = Some (map (\<lambda>m. Inr (Some m)) ms, j)"
      "stream j = stream i" "read_len (msg_reader j) = 0" "read_buffer (msg_reader j) = []"
      by auto
    ultimately show ?thesis by simp
  qed (use Cons.prems(2) in auto)
qed

lemma read_idle:
  assumes "read_len (msg_reader i) = 0" and "read_buffer (msg_reader i) = []"
  shows "inner_try_read_pure hc mc i = (Inr None, i)"
  using assms dec_size_len_pos [of "dec_ctx (msg_reader i)"]
  by (simp add: inner_try_read_pure_def try_read_pure_def try_read_header_pure_def)

lemma tcp_yields_pieces: "tcp_yields ops s cs fin s' \<Longrightarrow> [] \<notin> set cs"
  by (induction rule: tcp_yields.induct) auto

section \<open>Properties\<close>

text \<open>Two messages written to an empty pipe with room for both.\<close>

definition sample_sender :: "byte list \<Rightarrow> nat \<Rightarrow> (pipe, nat) TcpInner" where
  "sample_sender out room = TcpInner_new ([], out, room)"

definition sample_writes :: "(byte list \<times> byte list) queued list" where
  "sample_writes = [(1, 0, [7], sample_frame [7]), (0, 5, [8], sample_frame [8])]"

lemma sample_sender_simps:
  "stream (sample_sender out room) = ([], out, room)" "current_write (sample_sender out room) = None"
  "out_queue (sample_sender out room) = OutQueue_new SocketConfig_default"
  "enc_ctx (sample_sender out room) = EncryptContext.Null" "conf (OutQueue_new c) = c"
  "view (OutQueue_new c) = []" "pipe_sent ([], out, room) = out"
  by (simp_all add: sample_sender_def tcp_new_defs config_defaults Let_def view_def OutQueue_new_def pipe_sent_def)

lemma sample_fresh: "fresh pipe_sent (sample_sender [] 10)"
  using fresh_new [of pipe_sent "([], [], 10)" SocketConfig_default]
  by (simp add: sample_sender_def TcpInner_new_def pipe_sent_def)

lemma sample_write_one:
  assumes "length m < 2 ^ 32"
  shows "TcpInner_write pipe_ops le32_codec bytes_codec 0 t t' (Some (m, p))
      (sample_sender out (length m + 4 + room)) =
    Some (Done (Inr True, sample_sender (out @ sample_frame m) room))"
  by (simp add: flush_evals enqueue_data_def sample_serialize sample_sender_def queue_simps
      sample_frame_def)

lemma sample_session:
  "tcp_session pipe_ops le32_codec bytes_codec pipe_sent (sample_sender [] 10) sample_writes
     (sample_sender (concat [sample_frame [7], sample_frame [8]]) 0)"
proof -
  have one: "tcp_session pipe_ops le32_codec bytes_codec pipe_sent (sample_sender [] 10)
      ([] @ arrival 0 (Some (1, [7], sample_frame [7]))) (sample_sender ([] @ sample_frame [7]) 5)"
    by (rule session.wrote [OF session.opened, where t = "\<lambda>_. 0" and w = "(0, Some ([7], 1))" and b = True])
      (use sample_write_one [of "[7]" "\<lambda>_. 0" 0 1 "[]" 5] in
        \<open>simp_all add: sample_serialize sample_sender_simps\<close>)
  have "tcp_session pipe_ops le32_codec bytes_codec pipe_sent (sample_sender [] 10)
      (([] @ arrival 0 (Some (1, [7], sample_frame [7]))) @ arrival 5 (Some (0, [8], sample_frame [8])))
      (sample_sender (([] @ sample_frame [7]) @ sample_frame [8]) 0)"
    by (rule session.wrote [OF one, where t = "\<lambda>_. 0" and w = "(0, Some ([8], 0))" and b = True])
      (use sample_write_one [of "[8]" "\<lambda>_. 0" 5 0 "sample_frame [7]" 0] in
        \<open>simp_all add: sample_serialize sample_sender_simps\<close>)
  then show ?thesis by (simp add: sample_writes_def arrival_def)
qed

text \<open>
  C2. \<open>write\<close> implements the mailbox: whatever the stream does, a call is a run of it. A message that
  cannot be serialised is refused, and nothing has happened but expiration. Otherwise expired
  messages are dropped, the new one is accepted and some depart; then the queue and the wire still
  mirror the mailbox, and the answer says whether it is empty, or the stream has failed, and the
  wire stops short of what has departed.
\<close>

theorem tcp_refines_mailbox:
  assumes "tcp_ok i" and "tcp_write_contract ops sent"
    and "mirrors snd (\<lambda>d. d) m (view (out_queue i)) (tcp_line sent i)"
    and "TcpInner_write ops hc mc rng t t' msg i = Some (Done (r, i'))"
  shows "case tcp_encode hc mc (enc_ctx i) (rng, msg) of
      Inl e \<Rightarrow> r = Inl e \<and> (\<exists>m'. mail_run (conf (out_queue i)) [Expire t] m = Some m' \<and>
        mirrors snd (\<lambda>d. d) m' (view (out_queue i')) (tcp_line sent i'))
    | Inr new \<Rightarrow> \<exists>n m'. mail_run (conf (out_queue i)) (write_events t t' new n) m = Some m' \<and>
        (case r of
           Inr b \<Rightarrow> mirrors snd (\<lambda>d. d) m' (view (out_queue i')) (tcp_line sent i') \<and>
             (b \<longleftrightarrow> waiting m' = [] \<and> current_write i' = None)
         | Inl _ \<Rightarrow> cut_short snd (\<lambda>d. d) m' (view (out_queue i')) (tcp_line sent i'))"
proof -
  have answer: "b \<longleftrightarrow> view (out_queue i') = [] \<and> current_write i' = None" if "r = Inr b" for b
    using TcpInner_write_outcome [OF assms(4,1)] that
    by (cases b) (auto simp: tcp_pending_def pending_of_def split: option.splits)
  have empty: "waiting m' = [] \<longleftrightarrow> view (out_queue i') = []"
    if "mirrors snd (\<lambda>d. d) m' (view (out_queue i')) l" for m' l
    using that by (simp add: mirrors_def)
  note sim = tcp_mail.write_simulates [where ops = ops and sent = sent and i = i and m = m and hc = hc and
      mc = mc and t = t and t' = t' and w = "(rng, msg)" and r = r and i' = i', simplified, OF _ assms(3,4)]
  show ?thesis
  proof (cases r)
    case Inl
    with sim assms(1,2) show ?thesis by (auto split: sum.split)
  next
    case (Inr b)
    with sim assms(1,2) answer empty show ?thesis by (auto split: sum.splits)
  qed
qed

theorem tcp_refines_mailbox_witness:
  "\<exists>n m'. mail_run (SocketConfig_default :: nat SocketConfig)
      (write_events (\<lambda>_. 0) 0 (Some (1, [7 :: byte], sample_frame [7])) n) empty_mailbox = Some m' \<and>
    mirrors snd (\<lambda>d. d) m' [] (sample_frame [7]) \<and> waiting m' = []"
proof -
  let ?i = "sample_sender [] 10"
  have ok: "tcp_ok ?i" and m: "mirrors snd (\<lambda>d. d) empty_mailbox (view (out_queue ?i)) (tcp_line pipe_sent ?i)"
    using sample_fresh by (simp_all add: fresh_def tcp_line_def mirrors_empty)
  have w: "TcpInner_write pipe_ops le32_codec bytes_codec 0 (\<lambda>_. 0) 0 (Some ([7], 1)) ?i =
      Some (Done (Inr True, sample_sender (sample_frame [7]) 5))"
    using sample_write_one [of "[7]" "\<lambda>_. 0" 0 1 "[]" 5] by simp
  from tcp_refines_mailbox [OF ok pipe_write_contract m w] show ?thesis
    by (simp add: sample_serialize sample_sender_simps tcp_line_def)
qed

text \<open>
  C5. Order and loss on the sending side: after any sequence of \<open>write\<close> calls, at any times and
  with any partial writes, would-block results or messages refused by the serialisation or encryption
  in between (but no error of the stream, which ends a session), the bytes on the wire, completed by
  the message being written, are whole frames of accepted messages. Within each priority they are
  in the order they were written, none twice; and what is on the wire together with what is still
  queued is everything written, for every priority that may not be dropped.
\<close>

theorem tcp_session_keeps_order:
  assumes "tcp_session ops hc mc sent i0 es i" and "tcp_write_contract ops sent" and "fresh sent i0"
  shows "\<exists>out v. sent (stream i) @ (case current_write i of None \<Rightarrow> [] | Some d \<Rightarrow> d) = concat (frames out) \<and>
    view (out_queue i) = retag snd v \<and>
    (\<forall>k. subseq (of_class k out @ of_class k v) (of_class k es)) \<and>
    (\<forall>k < conf_msg_drop_priority (conf (out_queue i0)). of_class k out @ of_class k v = of_class k es)"
  using in_order_frames tcp_session_invariant [OF assms] unfolding tcp_line_def delivered_def by fast

theorem tcp_session_keeps_order_witness:
  "\<exists>out v. concat [sample_frame [7], sample_frame [8]] = concat (frames out) \<and>
     retag snd v = [] \<and>
     (\<forall>k. subseq (of_class k out @ of_class k v) (of_class k sample_writes)) \<and>
     (\<forall>k < 2. of_class k out @ of_class k v = of_class k sample_writes)"
  using tcp_session_keeps_order [OF sample_session pipe_write_contract sample_fresh]
  by (simp add: sample_sender_simps config_defaults eq_commute [of "[]"])

text \<open>
  End to end: if the two ends use matching contexts and every frame fits the receiver's limit,
  the receiver of the bytes sent, or of any part of them, cut in any way, gets no error and only
  messages that were written, in the order in which they were sent. Once the sender has nothing
  left to send and all bytes have arrived, the receiver has every message that was not dropped, and
  in particular all those of a priority below \<open>msg_drop_priority\<close>.
\<close>

theorem tcp_end_to_end:
  assumes "tcp_session ops hc mc sent i0 es i" and "tcp_write_contract ops sent" and "fresh sent i0"
    and "linked keypair hc mc (enc_ctx i0) (dec_ctx rd)"
    and "\<forall>x\<in>set es. body_fits (max_payload_size rd) (enc_ctx i0) (snd (snd (snd x)))"
    and "read_len rd = 0" and "read_buffer rd = []"
    and "concat pieces @ missing = sent (stream i)" and "pieces \<noteq> []"
  shows "\<exists>out v got left rd'. receive hc mc rd pieces = Done (got, None, rd') \<and> messages out = got @ left \<and>
    delivered (conf (out_queue i0)) es out v \<and>
    (tcp_pending i = [] \<and> missing = [] \<longrightarrow> left = [] \<and> v = [])"
proof -
  from tcp_session_invariant [OF assms(1-3)] obtain out v where
    inv: "framed hc mc (enc_ctx i0) es" "view (out_queue i) = retag snd v" "tcp_line sent i = concat (frames out)"
      "delivered (conf (out_queue i0)) es out v" by (auto dest!: in_order_frames)
  define rest where "rest = (case current_write i of None \<Rightarrow> [] | Some d \<Rightarrow> d)"
  have "set out \<subseteq> set es" using delivered_subset [OF inv(4)] by simp
  with inv(1) assms(5) have fs: "frames_of hc mc (enc_ctx i0) (max_payload_size rd) (messages out) (frames out)"
    by (auto simp: frames_of_def framed_def list_all2_map1 list_all2_map2 list_all2_same)
  have "unread (dec_size_len (dec_ctx rd)) rd (frames out) (concat pieces @ missing @ rest)"
    using assms(6-8) inv(3) by (intro unread_between) (simp_all add: tcp_line_def rest_def flip: append_assoc)
  from receive_frames [OF assms(4) fs this assms(9)] obtain got left fs' rd' where
    "receive_pure hc mc rd pieces = (got, None, rd')" "messages out = got @ left"
    "frames_of hc mc (enc_ctx i0) (max_payload_size rd) left fs'" "missing @ rest = [] \<longrightarrow> fs' = []"
    by blast
  moreover have "v = [] \<and> rest = []" if "tcp_pending i = []"
    using that inv(2) by (auto simp: tcp_pending_def pending_of_def rest_def split: option.splits)
  ultimately show ?thesis using inv(4) unfolding receive_in_range by (metis frames_of_simps(2) append_Nil2)
qed

theorem tcp_end_to_end_witness:
  "\<exists>out v got left rd'. receive le32_codec bytes_codec (LenDelimitedReader_new 10)
      [[1, 0, 0], [0, 7, 1, 0], [0, 0, 8]] = Done (got, None, rd') \<and> messages out = got @ left \<and>
    delivered (SocketConfig_default :: nat SocketConfig) sample_writes out v \<and> left = [] \<and> v = []"
proof -
  have link: "linked (=) le32_codec bytes_codec (enc_ctx (sample_sender [] 10)) (dec_ctx (LenDelimitedReader_new 10))"
    by (simp add: LenDelimitedReader_new_def config_defaults sample_linked sample_sender_simps)
  have fits: "\<forall>x\<in>set sample_writes. body_fits (max_payload_size (LenDelimitedReader_new 10))
      (enc_ctx (sample_sender [] 10)) (snd (snd (snd x)))"
    by (simp add: sample_writes_def LenDelimitedReader_new_def sample_sender_simps sample_body_fits)
  have "concat [[1, 0, 0], [0, 7, 1, 0], [0, 0, 8]] @ [] =
      pipe_sent (stream (sample_sender (concat [sample_frame [7], sample_frame [8]]) 0))"
    by (simp add: sample_sender_simps sample_frame_def le32_encode_def)
  from tcp_end_to_end [OF sample_session pipe_write_contract sample_fresh link fits _ _ this]
  show ?thesis by (simp add: sample_sender_simps LenDelimitedReader_new_def tcp_pending_def pending_of_def)
qed

text \<open>
  Whatever arrives before the stream would block is handed out completely: if the pieces the
  stream yields are, together, the frames of \<open>ms\<close>, the next calls of \<open>read\<close> return exactly \<open>ms\<close>, in
  order, one per call, and then \<open>None\<close>. The first call reads all the pieces, the others are
  answered from the buffer. Stated of the total form of \<open>read\<close>, which it equals.
\<close>

theorem tcp_reads_deliver_burst:
  assumes "linked keypair hc mc e (dec_ctx (msg_reader i))"
    and "frames_of hc mc e (max_payload_size (msg_reader i)) ms fs"
    and "read_len (msg_reader i) = 0" and "read_buffer (msg_reader i) = []"
    and "tcp_yields ops (stream i) pieces (Inl err) s" and "is_would_block err"
    and "concat pieces = concat fs"
    and "ts_read ops s BUF_LEN = (Inl err', s')" and "is_would_block err'"
  shows "\<exists>j. repeat_read (TcpInner_read_pure ops hc mc) (Suc (length ms)) i =
    Some (map (\<lambda>m. Inr (Some m)) ms @ [Inr None], j)"
proof -
  have blocked: "TcpInner_read_pure ops hc mc j = Some (Inr None, j\<lparr> stream := s' \<rparr>)"
    if "stream j = s" "read_len (msg_reader j) = 0" "read_buffer (msg_reader j) = []" for j
    using read_loop_yields [OF tcp_yields.err, of ops j err' s' hc mc False] read_idle [OF that(2,3), of hc mc]
      that(1) assms(8,9)
    by (simp add: TcpInner_read_pure_def finish_read_def buffered_Nil)
  let ?i = "buffered pieces s i"
  have loop: "TcpInner_read_pure ops hc mc i = Some (finish_read hc mc (pieces \<noteq> []) (Inl err) ?i)"
    using read_idle [OF assms(3,4), of hc mc] read_loop_yields [OF assms(5), of hc mc False]
    by (simp add: TcpInner_read_pure_def)
  show ?thesis
  proof (cases ms)
    case Nil
    with assms(2,7) tcp_yields_pieces [OF assms(5)] have "pieces = []"
      by (cases pieces) auto
    with loop assms(6) Nil show ?thesis by (simp add: finish_read_def)
  next
    case (Cons m ms')
    then obtain f fs' where fs: "fs = f # fs'" using assms(2) by (cases fs) auto
    with assms(2) Cons have "f \<noteq> []" by (auto simp: body_fits_def)
    with assms(7) fs have "pieces \<noteq> []" by auto
    then have same: "TcpInner_read_pure ops hc mc ?i = TcpInner_read_pure ops hc mc i"
      if "inner_try_read_pure hc mc ?i = (Inr (Some x), k)" for x k
      using loop assms(6) that by (simp add: finish_read_def TcpInner_read_pure_def)
    have rd: "msg_reader ?i = put_buf (concat fs) (msg_reader i)" "stream ?i = s"
      using assms(7) by (simp_all add: buffered_def)
    have unread: "unread (dec_size_len (dec_ctx (msg_reader ?i))) (msg_reader ?i) fs []"
      using assms(3,4) by (intro unread_between) (simp_all add: rd put_buf_def)
    have link: "linked keypair hc mc e (dec_ctx (msg_reader ?i))"
      and frames: "frames_of hc mc e (max_payload_size (msg_reader ?i)) ms fs"
      using assms(1,2) by (simp_all add: rd put_buf_def)
    obtain j where j: "repeat_read (TcpInner_read_pure ops hc mc) (length ms) ?i = Some (map (\<lambda>m. Inr (Some m)) ms, j)"
      "stream j = s" "read_len (msg_reader j) = 0" "read_buffer (msg_reader j) = []"
      using drain_reader [OF link frames unread, of ops] rd(2) by auto
    from link frames unread obtain x k where "inner_try_read_pure hc mc ?i = (Inr (Some x), k)"
      by (cases rule: try_read_progress) (auto simp: inner_try_read_pure_def fs)
    from same [OF this] j(1) have "repeat_read (TcpInner_read_pure ops hc mc) (length ms) i =
        Some (map (\<lambda>m. Inr (Some m)) ms, j)"
      by (simp add: Cons)
    from repeat_read_snoc [OF this blocked [OF j(2-4)]] show ?thesis by blast
  qed
qed

theorem tcp_reads_deliver_burst_witness:
  "\<exists>j. repeat_read (TcpInner_read_pure pipe_ops le32_codec bytes_codec) 3
      (TcpInner_new ([[1, 0, 0], [0, 7, 1, 0, 0, 0, 8]], [], 0)) =
    Some ([Inr (Some [7]), Inr (Some [8]), Inr None], j)"
proof -
  let ?i = "TcpInner_new ([[1, 0, 0], [0, 7, 1, 0, 0, 0, 8]], [], 0) :: (pipe, nat) TcpInner"
  have y: "tcp_yields pipe_ops (stream ?i) [[1, 0, 0], [0, 7, 1, 0, 0, 0, 8]]
      (Inl (IoError WouldBlock [])) ([], [], 0)"
    by (rule tcp_yields.piece [where ?s1.0 = "([[0, 7, 1, 0, 0, 0, 8]], [], 0)"]
        tcp_yields.piece [where ?s1.0 = "([], [], 0)"] tcp_yields.err |
      simp add: pipe_ops_def pipe_read_def tcp_new_defs Let_def)+
  have "linked (=) le32_codec bytes_codec EncryptContext.Null (dec_ctx (msg_reader ?i))"
    "frames_of le32_codec bytes_codec EncryptContext.Null (max_payload_size (msg_reader ?i))
      [[7], [8]] [sample_frame [7], sample_frame [8]]"
    "read_len (msg_reader ?i) = 0" "read_buffer (msg_reader ?i) = []"
    by (simp_all add: tcp_new_defs config_defaults sample_linked sample_serialize sample_body_fits
        LenDelimitedReader_new_def Let_def)
  from tcp_reads_deliver_burst [OF this y, where err' = "IoError WouldBlock []" and s' = "([], [], 0)"]
  show ?thesis
    by (simp add: is_would_block_def pipe_ops_def pipe_read_def sample_frame_def le32_encode_def
        eval_nat_numeral)
qed

end
