(* ===== verification/Drain.thy ===== *)
theory Drain
  imports Send_Order
begin

text \<open>
  What eventually happens on a sending socket, for any transport: a program that answers every
  writable event with \<open>write(None)\<close>, on a transport that takes data again and again, gets everything
  out. The locale states what a transport has to promise for that; TCP, both halves of UDP and UDT
  are its instances.
\<close>

section \<open>Writing again and again\<close>

text \<open>
  One round: the system acts on the socket (\<open>env\<close>), then the program makes its call. A call that does
  not return, panics or fails has no next state.
\<close>

definition retry :: "('i \<Rightarrow> (bool res \<times> 'i) outcome option) \<Rightarrow> 'i \<Rightarrow> 'i option" where
  "retry call i = (case call i of Some (Done (Inr _, i')) \<Rightarrow> Some i' | _ \<Rightarrow> None)"

primrec rounds ::
  "(nat \<Rightarrow> 'i \<Rightarrow> (bool res \<times> 'i) outcome option) \<Rightarrow> (nat \<Rightarrow> 'i \<Rightarrow> 'i) \<Rightarrow> 'i \<Rightarrow> nat \<Rightarrow> 'i option" where
  "rounds call env i 0 = Some i"
| "rounds call env i (Suc n) =
     (case rounds call env i n of
        None \<Rightarrow> None
      | Some j \<Rightarrow> retry (call n) (env n j))"

lemma retry_Some: "retry call i = Some i' \<longleftrightarrow> (\<exists>b. call i = Some (Done (Inr b, i')))"
  by (auto simp: retry_def split: option.splits outcome.splits prod.splits sum.splits)

text \<open>On a transport that never breaks, a send fails only for lack of room.\<close>

definition never_breaks :: "('s \<Rightarrow> 'd \<Rightarrow> (io_error + usize) \<times> 's) \<Rightarrow> bool" where
  "never_breaks send \<longleftrightarrow> (\<forall>s d e s'. send s d = (Inl e, s') \<longrightarrow> is_would_block e)"

text \<open>It takes something of whatever it is given.\<close>

definition accepts :: "('s \<Rightarrow> 'd \<Rightarrow> (io_error + usize) \<times> 's) \<Rightarrow> 's \<Rightarrow> bool" where
  "accepts send s \<longleftrightarrow> (\<forall>d. \<exists>n s'. send s d = (Inr n, s'))"

section \<open>Senders that drain\<close>

text \<open>
  \<open>load\<close> weighs what is still to be sent. A \<open>lively\<close> transport never fails, and each turn of the loop
  makes the load smaller; in a state that is \<open>ready\<close> a turn on anything to be sent is made.
\<close>

locale draining_sender =
  mail_sender turn queue line render missing good env form conf_of encode wr same +
  flush_loop turn pend ok genuine
  for turn :: "'i \<Rightarrow> 'i + (bool res \<times> 'i) outcome"
    and queue :: "'i \<Rightarrow> 'a queued list" and line :: "'i \<Rightarrow> 'b list" and render :: "'a \<Rightarrow> 'b list"
    and missing :: "'b list \<Rightarrow> bool" and good :: "'i \<Rightarrow> bool" and env :: "'i \<Rightarrow> 'e" and form :: "'x \<Rightarrow> 'a"
    and conf_of :: "'i \<Rightarrow> 'k SocketConfig"
    and encode :: "'i \<Rightarrow> 'w \<Rightarrow> (Priority \<times> 'x) option res"
    and wr :: "readings \<Rightarrow> instant \<Rightarrow> 'w \<Rightarrow> 'i \<Rightarrow> (bool res \<times> 'i) outcome option"
    and same :: "'i \<Rightarrow> 'i \<Rightarrow> bool"
    and pend :: "'i \<Rightarrow> 'a list" and ok :: "'i \<Rightarrow> bool" and genuine :: "SocketError \<Rightarrow> bool" +
  fixes size_of :: "'a \<Rightarrow> nat" and nothing :: 'w and lively :: bool and ready :: "'i \<Rightarrow> bool"
  assumes good_ok: "good i \<Longrightarrow> ok i"
    and size_pos: "0 < size_of d"
    and turn_lighter: "lively \<Longrightarrow> good i \<Longrightarrow> turn i = Inl i' \<Longrightarrow>
        sum_list (map size_of (pend i')) < sum_list (map size_of (pend i))"
    and turn_succeeds: "lively \<Longrightarrow> good i \<Longrightarrow> turn i \<noteq> Inr (Done (Inl e, i'))"
    and turn_ready: "ready i \<Longrightarrow> good i \<Longrightarrow> pend i \<noteq> [] \<Longrightarrow> \<exists>i'. turn i = Inl i'"
    and encode_nothing: "encode i nothing = Inr None"
    and nothing_flushes: "good i \<Longrightarrow> \<exists>j dropped. wr t t' nothing i = rust_loop turn j \<and> good j \<and>
        pend i = pend j @ dropped \<and> ready j = ready i"
    and same_pend: "same i i' \<Longrightarrow> pend i' = pend i"
    and pend_empty: "pend i = [] \<Longrightarrow> queue i = []"
begin

definition load :: "'i \<Rightarrow> nat" where
  "load i = sum_list (map size_of (pend i))"

lemma load_eq_0: "load i = 0 \<longleftrightarrow> pend i = []"
  using size_pos by (cases "pend i") (auto simp: load_def)

lemma turn_good: "good i \<Longrightarrow> turn i = Inl i' \<or> turn i = Inr (Done (r, i')) \<Longrightarrow> good i'"
  using turn_effect by blast

lemma last_turn:
  assumes lively and "good j" and "turn j = Inr out"
  shows "\<exists>b i'. out = Done (Inr b, i') \<and> good i' \<and> load i' = load j"
proof -
  from assms(2) have "ok j" by (rule good_ok)
  then show ?thesis
  proof (cases rule: turn_cases)
    case (failed d ds i' e)
    with turn_succeeds [OF assms(1,2), of e i'] show ?thesis by simp
  qed (use assms turn_good [of j] in \<open>auto simp: load_def\<close>)
qed

text \<open>The loop is left without an error, and lighter than it was entered if the transport is ready.\<close>

lemma loop_succeeds:
  assumes lively and "good i"
  shows "\<exists>b i'. rust_loop turn i = Some (Done (Inr b, i')) \<and> good i' \<and> load i' \<le> load i"
proof -
  have "\<exists>out. rust_loop turn i = Some out \<and> (\<exists>b i'. out = Done (Inr b, i') \<and> good i' \<and> load i' \<le> load i)"
  proof (rule rust_loop_total [where P = "\<lambda>j. good j \<and> load j \<le> load i" and m = load])
    fix j j' assume j: "good j \<and> load j \<le> load i" and t: "turn j = Inl j'"
    with turn_lighter [OF assms(1), of j j'] turn_good [of j j']
    show "(good j' \<and> load j' \<le> load i) \<and> load j' < load j" by (simp add: load_def)
  next
    fix j out assume "good j \<and> load j \<le> load i" and "turn j = Inr out"
    with last_turn [OF assms(1), of j out]
    show "\<exists>b i'. out = Done (Inr b, i') \<and> good i' \<and> load i' \<le> load i" by auto
  qed (use assms(2) in simp)
  then show ?thesis by blast
qed

lemma ready_loop_lighter:
  assumes lively and "good i" and "ready i" and "pend i \<noteq> []"
    and loop: "rust_loop turn i = Some (Done (r, i'))"
  shows "load i' < load i"
proof -
  from turn_ready [OF assms(3,2,4)] obtain j where j: "turn i = Inl j" ..
  with loop have "rust_loop turn j = Some (Done (r, i'))" by (simp add: rust_loop_Inl)
  with loop_succeeds [OF assms(1), of j] turn_good [OF assms(2)] j have "load i' \<le> load j" by auto
  with turn_lighter [OF assms(1,2) j] show ?thesis by (simp add: load_def)
qed

text \<open>A transport that is ready at any time takes everything.\<close>

lemma loop_empties:
  assumes lively and "good i" and "\<And>j. ready j"
  shows "\<exists>i'. rust_loop turn i = Some (Done (Inr True, i')) \<and> pend i' = []"
proof -
  from loop_succeeds [OF assms(1,2)] obtain b i' where l: "rust_loop turn i = Some (Done (Inr b, i'))" by blast
  have "out = Done (Inr b, i') \<longrightarrow> b \<and> pend i' = []" if "rust_loop turn i = Some out" for out
  proof (rule rust_loop_rule [OF that, where P = good])
    fix j out assume "good j" and t: "turn j = Inr out"
    with turn_ready [OF assms(3)] have "pend j = []" by fastforce
    with turn_empty [OF good_ok [OF \<open>good j\<close>]] t show "out = Done (Inr b, i') \<longrightarrow> b \<and> pend i' = []" by auto
  qed (use assms(2) turn_good in blast)+
  with l show ?thesis by auto
qed

text \<open>A write of a message that can be encoded answers \<open>Ok\<close>, and sends from the front of the queue.\<close>

lemma write_succeeds:
  assumes lively and "good i" and "encode i w = Inr new"
  obtains b i' taken where "wr t t' w i = Some (Done (Inr b, i'))" "good i'" "env i' = env i"
    "queued_after t t' (conf_of i) (map_option (apsnd form) new) (queue i) = taken @ queue i'"
    "line i' = line i @ concat (map render (msgs taken))" "(\<And>j. ready j) \<Longrightarrow> b \<and> pend i' = []"
proof -
  from write_flushes [OF assms(2,3), of t t'] obtain j where j: "wr t t' w i = rust_loop turn j" "good j"
    "env j = env i" "line j = line i"
    "queue j = queued_after t t' (conf_of i) (map_option (apsnd form) new) (queue i)" by blast
  from loop_succeeds [OF assms(1) j(2)] obtain b i' where l: "rust_loop turn j = Some (Done (Inr b, i'))" by blast
  from loop_reaches [OF l j(2)] j obtain taken where "good i'" "env i' = env i" "queue j = taken @ queue i'"
    "line i' = line i @ concat (map render (msgs taken))" by (auto simp: reaches_def)
  then show thesis using j l loop_empties [OF assms(1) j(2)] by (intro that [of b i' taken]) auto
qed

text \<open>One call of \<open>write(None)\<close>.\<close>

lemma call_drains:
  assumes lively and "good i"
  obtains b i' where "wr t t' nothing i = Some (Done (Inr b, i'))" "good i'" "load i' \<le> load i"
    "ready i \<longrightarrow> load i = 0 \<or> load i' < load i"
proof -
  from nothing_flushes [OF assms(2), of t t'] obtain j dropped where
    j: "wr t t' nothing i = rust_loop turn j" "good j" "pend i = pend j @ dropped" "ready j = ready i" by blast
  then have le: "load j \<le> load i" by (simp add: load_def)
  from loop_succeeds [OF assms(1) j(2)] obtain b i' where
    i': "rust_loop turn j = Some (Done (Inr b, i'))" "good i'" "load i' \<le> load j" by blast
  have "load i = 0 \<or> load i' < load i" if "ready i"
  proof (cases "load j = 0")
    case True
    with i'(3) show ?thesis by auto
  next
    case False
    then have "pend j \<noteq> []" by (simp add: load_eq_0)
    with ready_loop_lighter [OF assms(1) j(2) _ _ i'(1)] j(4) that le show ?thesis by simp
  qed
  with i' le j(1) show thesis by (intro that [of b i']) simp_all
qed

section \<open>Rounds\<close>

abbreviation attempts :: "(nat \<Rightarrow> readings) \<Rightarrow> nat \<Rightarrow> 'i \<Rightarrow> (bool res \<times> 'i) outcome option" where
  "attempts clock \<equiv> \<lambda>n. wr (clock n) 0 nothing"

lemma rounds_go_on:
  assumes lively and "good i" and steps: "\<forall>n j. same j (e n j)"
  shows "\<exists>j. rounds (attempts clock) e i n = Some j \<and> good j"
proof (induction n)
  case (Suc n)
  then obtain j where j: "rounds (attempts clock) e i n = Some j" "good j" by blast
  with same_keeps steps have "good (e n j)" by blast
  from call_drains [OF assms(1) this, of "clock n" 0] obtain b i' where
    "wr (clock n) 0 nothing (e n j) = Some (Done (Inr b, i'))" "good i'" by blast
  then show ?case using j(1) by (auto simp: retry_Some)
qed (use assms(2) in simp)

lemma rounds_empty_queue:
  assumes lively and "good i" and steps: "\<forall>n j. same j (e n j)"
    and fair: "\<forall>m. \<exists>n\<ge>m. \<forall>j. rounds (attempts clock) e i n = Some j \<longrightarrow> ready (e n j)"
  shows "\<exists>N. \<forall>n\<ge>N. \<exists>j. rounds (attempts clock) e i n = Some j \<and> pend j = []"
proof -
  define W where "W n = (case rounds (attempts clock) e i n of None \<Rightarrow> 0 | Some j \<Rightarrow> load j)" for n
  have step: "W (Suc n) \<le> W n \<and>
      ((\<forall>j. rounds (attempts clock) e i n = Some j \<longrightarrow> ready (e n j)) \<longrightarrow> W n = 0 \<or> W (Suc n) < W n)" for n
  proof -
    obtain j where j: "rounds (attempts clock) e i n = Some j" "good j"
      using rounds_go_on [OF assms(1,2) steps] by blast
    have same: "good (e n j)" "load (e n j) = load j"
      using same_keeps [OF j(2)] steps same_pend [of j] steps by (simp_all add: load_def)
    from call_drains [OF assms(1) same(1), of "clock n" 0] obtain b i' where
      i': "wr (clock n) 0 nothing (e n j) = Some (Done (Inr b, i'))" "good i'" "load i' \<le> load (e n j)"
      "ready (e n j) \<longrightarrow> load (e n j) = 0 \<or> load i' < load (e n j)" .
    then have "retry (attempts clock n) (e n j) = Some i'" by (simp add: retry_def)
    with i' j(1) same(2) show ?thesis by (simp add: W_def)
  qed
  then have "\<exists>N. \<forall>n\<ge>N. W n = 0"
    using fair by (intro fair_descent) blast+
  then obtain N where N: "\<And>n. N \<le> n \<Longrightarrow> W n = 0" by blast
  have "\<exists>j. rounds (attempts clock) e i n = Some j \<and> pend j = []" if "N \<le> n" for n
  proof -
    obtain j where "rounds (attempts clock) e i n = Some j" using rounds_go_on [OF assms(1,2) steps] by blast
    with N [OF that] show ?thesis by (simp add: W_def load_eq_0)
  qed
  then show ?thesis by blast
qed

text \<open>The rounds prolong a session in which nothing new is written.\<close>

lemma rounds_session:
  assumes "session encode wr same i0 es i" and steps: "\<forall>n j. same j (e n j)"
  shows "rounds (attempts clock) e i n = Some j \<Longrightarrow> session encode wr same i0 es j"
proof (induction n arbitrary: j)
  case (Suc n)
  then obtain k b where k: "rounds (attempts clock) e i n = Some k"
    "wr (clock n) 0 nothing (e n k) = Some (Done (Inr b, j))" by (auto simp: retry_Some split: option.splits)
  from session.wrote [OF session.elsewhere [OF Suc.IH [OF k(1)] steps [rule_format]] k(2) encode_nothing]
  show ?case by (simp add: arrival_def)
qed (use assms(1) in simp)

text \<open>
  Everything gets out: from some round on nothing is left to send, and the line holds every message
  that was written, except that some which may be dropped are missing.
\<close>

lemma everything_gets_out:
  assumes lively and "session encode wr same i0 es i"
    and "good i0" and "queue i0 = []" and "line i0 = []"
    and steps: "\<forall>n j. same j (e n j)"
    and fair: "\<forall>m. \<exists>n\<ge>m. \<forall>j. rounds (attempts clock) e i n = Some j \<longrightarrow> ready (e n j)"
  shows "\<exists>N. \<forall>n\<ge>N. \<exists>j out. rounds (attempts clock) e i n = Some j \<and> pend j = [] \<and>
    line j = concat (map render (msgs (retag form out))) \<and>
    (\<forall>k. subseq (of_class k out) (of_class k es)) \<and>
    (\<forall>k < conf_msg_drop_priority (conf_of i0). of_class k out = of_class k es)"
proof -
  have "good i" using session_invariant [OF assms(2-5)] by blast
  have "\<exists>out. line j = concat (map render (msgs (retag form out))) \<and>
      (\<forall>k. subseq (of_class k out) (of_class k es)) \<and>
      (\<forall>k < conf_msg_drop_priority (conf_of i0). of_class k out = of_class k es)"
    if j: "rounds (attempts clock) e i n = Some j" "pend j = []" for n j
  proof -
    have "in_order (conf_of i0) form render es (line j) (queue j)"
      using session_invariant [OF rounds_session [OF assms(2) steps j(1)] assms(3-5)] by blast
    then show ?thesis
    proof (rule in_order_delivered)
      fix out v assume "queue j = retag form v" "line j = concat (map render (msgs (retag form out)))"
        and "delivered (conf_of i0) es out v"
      with pend_empty [OF j(2)] show ?thesis unfolding delivered_def by auto
    qed
  qed
  with rounds_empty_queue [OF assms(1) \<open>good i\<close> steps fair] show ?thesis by meson
qed

end

end
