(* ===== verification/Tcp_Liveness.thy ===== *)
theory Tcp_Liveness
  imports Tcp_Session Drain
begin

text \<open>
  What eventually happens on a TCP socket (\<open>src/src/tcp.rs\<close>): a program that answers every writable
  event with \<open>write(None)\<close>, on a stream that drains again and again, gets everything out. And when
  it is right to wait for events: with \<open>None\<close> or \<open>Ok(false)\<close> a call has brought the stream to the
  point where it would block, which is what re-arms an edge-triggered registration, unless it was
  interrupted (see \<open>Tcp_Faults\<close>).
\<close>

section \<open>TCP as a transport that drains\<close>

text \<open>A turn sends a byte or finishes a message: one for each message, and one for each byte.\<close>

lemma flush_turn_lighter:
  assumes "tcp_progress ops" and ok: "tcp_ok i" and t: "flush_turn ops i = Inl i'"
  shows "(\<Sum>d\<leftarrow>tcp_pending i'. Suc (length d)) < (\<Sum>d\<leftarrow>tcp_pending i. Suc (length d))"
proof -
  from ok have "oq_ok (out_queue i)" by (simp add: tcp_ok_def)
  then show ?thesis
  proof (cases rule: oq.take_or_next_cases [where current = "current_write i"])
    case none
    with t show ?thesis by (simp add: flush_turn_eq)
  next
    case (some d q')
    obtain r s where w: "ts_write ops (stream i) d = (r, s)" by (cases "ts_write ops (stream i) d")
    have "0 < n" if "r = Inr n" "d \<noteq> []" for n
      using assms(1) w that by (auto simp: tcp_progress_def)
    with some w t show ?thesis
      by (cases r; cases "d = []") (auto simp: flush_turn_eq tcp_pending_def pending_of_def Let_def split: if_splits)
  qed
qed

lemma flush_turn_succeeds:
  assumes "never_breaks (ts_write ops)"
  shows "flush_turn ops i \<noteq> Inr (Done (Inl e, i'))"
proof
  have never: "ts_write ops s d = (Inl e, s') \<Longrightarrow> is_would_block e" for s d e s'
    using assms unfolding never_breaks_def by blast
  assume "flush_turn ops i = Inr (Done (Inl e, i'))"
  with never show False
    by (auto simp: flush_turn_eq Let_def split: outcome.splits option.splits prod.splits sum.splits if_splits)
qed

lemma flush_turn_ready:
  assumes "accepts (ts_write ops) (stream i)" and "tcp_ok i" and "tcp_pending i \<noteq> []"
  shows "\<exists>j. flush_turn ops i = Inl j"
proof -
  from assms(2) have "oq_ok (out_queue i)" by (simp add: tcp_ok_def)
  then show ?thesis
  proof (cases rule: oq.take_or_next_cases [where current = "current_write i"])
    case none
    with assms(3) show ?thesis by (simp add: tcp_pending_def pending_of_def)
  next
    case (some d q')
    moreover obtain n s where "ts_write ops (stream i) d = (Inr n, s)"
      using assms(1) unfolding accepts_def by blast
    ultimately show ?thesis by (simp add: flush_turn_eq Let_def)
  qed
qed

lemma same_sending_pending: "same_sending sent i i' \<Longrightarrow> tcp_pending i' = tcp_pending i"
  by (simp add: same_sending_def tcp_pending_def)

lemma tcp_pending_empty:
  "tcp_pending i = [] \<Longrightarrow> view (out_queue i) = []"
  "tcp_pending i = [] \<Longrightarrow> tcp_line sent i = sent (stream i)"
  by (auto simp: tcp_pending_def pending_of_def tcp_line_def split: option.splits)

interpretation tcp_drain: draining_sender "flush_turn ops" "\<lambda>i. view (out_queue i)" "tcp_line sent" "\<lambda>d. d" "\<lambda>_. True"
  "\<lambda>i. tcp_ok i \<and> tcp_write_contract ops sent" "\<lambda>i. (enc_ctx i, conf (out_queue i))"
  "snd :: 'm \<times> byte list \<Rightarrow> byte list" "\<lambda>i. conf (out_queue i)" "\<lambda>i. tcp_encode hc mc (enc_ctx i)"
  "tcp_write ops hc mc" "same_sending sent" tcp_pending tcp_ok io_failure "\<lambda>d. Suc (length d)" "(0, None)"
  "tcp_progress ops \<and> never_breaks (ts_write ops)" "\<lambda>i. accepts (ts_write ops) (stream i)"
  for ops :: "'s tcp_ops" and sent and hc :: "('k, u32) codec" and mc :: "('k, 'm) codec"
proof unfold_locales
  fix i :: "('s, 'k) TcpInner" and t t'
  assume good: "tcp_ok i \<and> tcp_write_contract ops sent"
  then have q: "oq_ok (out_queue i)" by (simp add: tcp_ok_def)
  let ?j = "i\<lparr> out_queue := snd (drop_expired t (out_queue i)) \<rparr>"
  have "\<exists>dropped. tcp_pending i = tcp_pending ?j @ dropped"
    unfolding tcp_pending_def using drop_expired_steps [OF q, of t] pending_of_drop by simp
  then show "\<exists>j dropped. tcp_write ops hc mc t t' (0, None) i = rust_loop (flush_turn ops) j \<and>
      (tcp_ok j \<and> tcp_write_contract ops sent) \<and> tcp_pending i = tcp_pending j @ dropped \<and>
      accepts (ts_write ops) (stream j) = accepts (ts_write ops) (stream i)"
    using good drop_expired_ok [of i t]
    by (intro exI [of _ ?j]) (auto simp: TcpInner_write_def flush_write_until_would_block_def)
qed (auto simp: flush_turn_lighter flush_turn_succeeds flush_turn_ready same_sending_pending tcp_pending_empty(1))

abbreviation tcp_rounds ::
  "'s tcp_ops \<Rightarrow> ('k, u32) codec \<Rightarrow> ('k, 'm) codec \<Rightarrow> (nat \<Rightarrow> 's \<Rightarrow> 's) \<Rightarrow> (nat \<Rightarrow> readings) \<Rightarrow>
     ('s, 'k) TcpInner \<Rightarrow> nat \<Rightarrow> ('s, 'k) TcpInner option" where
  "tcp_rounds ops hc mc env clock \<equiv>
     rounds (\<lambda>n. TcpInner_write ops hc mc 0 (clock n) 0 None) (\<lambda>n i. i\<lparr> stream := env n (stream i) \<rparr>)"

section \<open>Where a call stops\<close>

lemma read_none_blocked:
  assumes "TcpInner_read_pure ops hc mc i = Some (Inr None, i')"
  shows "\<exists>s e. ts_read ops s BUF_LEN = (Inl e, stream i') \<and> is_would_block e"
proof -
  have exit: "\<exists>s e. ts_read ops s BUF_LEN = (Inl e, stream j) \<and> is_would_block e"
    if "read_turn_pure ops hc mc p = Inr (Inr None, j)" for p and j
    using that by (fastforce simp: read_turn_pure_def inner_try_read_pure_def Let_def
        split: sum.splits if_splits option.splits prod.splits)
  have loop: "\<forall>j. out = (Inr None, j) \<longrightarrow> (\<exists>s e. ts_read ops s BUF_LEN = (Inl e, stream j) \<and> is_would_block e)"
    if "rust_loop (read_turn_pure ops hc mc) p = Some out" for p out
    by (rule rust_loop_rule [OF that, where P = "\<lambda>_. True"]) (auto dest: exit)
  with assms show ?thesis
    by (auto simp: TcpInner_read_pure_def split: prod.splits sum.splits option.splits)
qed

lemma write_false_blocked:
  assumes "TcpInner_write ops hc mc rng t t' msg i = Some (Done (Inr False, i'))"
  shows "\<exists>s d e. ts_write ops s d = (Inl e, stream i') \<and> is_would_block e \<and> current_write i' = Some d"
proof -
  have exit: "\<exists>s d e. ts_write ops s d = (Inl e, stream j') \<and> is_would_block e \<and> current_write j' = Some d"
    if "flush_turn ops j = Inr (Done (Inr False, j'))" for j j'
    using that by (fastforce simp: flush_turn_eq Let_def
        split: outcome.splits option.splits prod.splits sum.splits if_splits)
  have loop: "\<forall>j'. out = Done (Inr False, j') \<longrightarrow>
      (\<exists>s d e. ts_write ops s d = (Inl e, stream j') \<and> is_would_block e \<and> current_write j' = Some d)"
    if "rust_loop (flush_turn ops) j = Some out" for j out
    by (rule rust_loop_rule [OF that, where P = "\<lambda>_. True"]) (auto dest: exit)
  from assms show ?thesis
    by (auto simp: TcpInner_write_def flush_write_until_would_block_def Let_def dest!: loop
        split: option.splits prod.splits sum.splits)
qed

section \<open>Properties\<close>

text \<open>
  C3. Everything gets out: if, after any session, the program goes on calling \<open>write(None)\<close>, and the
  stream accepts data again and again (whatever else the system does to it in between), then from some point on
  nothing is left to send. The bytes sent are then whole frames, and they contain every message
  that was written at a priority that may not be dropped.
\<close>

theorem tcp_everything_gets_out:
  assumes "tcp_session ops hc mc sent i0 es i" and "tcp_write_contract ops sent" and "fresh sent i0"
    and "tcp_progress ops" and "never_breaks (ts_write ops)" and "\<forall>n s. sent (env n s) = sent s"
    and "\<forall>m. \<exists>n\<ge>m. \<forall>j. tcp_rounds ops hc mc env clock i n = Some j \<longrightarrow>
      accepts (ts_write ops) (env n (stream j))"
  shows "\<exists>N. \<forall>n\<ge>N. \<exists>j out. tcp_rounds ops hc mc env clock i n = Some j \<and> tcp_pending j = [] \<and>
    sent (stream j) = concat (frames out) \<and>
    (\<forall>k. subseq (of_class k out) (of_class k es)) \<and>
    (\<forall>k < conf_msg_drop_priority (conf (out_queue i0)). of_class k out = of_class k es)"
proof -
  let ?e = "\<lambda>n (i :: ('a, 'b) TcpInner). i\<lparr> stream := env n (stream i) \<rparr>"
  have lively: "tcp_progress ops \<and> never_breaks (ts_write ops)" and good: "tcp_ok i0 \<and> tcp_write_contract ops sent"
    and empty: "view (out_queue i0) = []" "tcp_line sent i0 = []"
    using assms(2-5) by (simp_all add: fresh_def tcp_line_def)
  have steps: "\<forall>n j. same_sending sent j (?e n j)" using assms(6) by (simp add: same_sending_def)
  have fair: "\<forall>m. \<exists>n\<ge>m. \<forall>j. rounds (\<lambda>n. tcp_write ops hc mc (clock n) 0 (0, None)) ?e i n = Some j \<longrightarrow>
      accepts (ts_write ops) (stream (?e n j))"
    using assms(7) by simp
  have frames: "concat (map (\<lambda>d. d) (msgs (retag snd out))) = concat (frames out)"
    for out :: "('c \<times> byte list) queued list" by (simp add: o_def)
  have line: "tcp_pending j = [] \<and> tcp_line sent j = x \<and> P \<longleftrightarrow> tcp_pending j = [] \<and> sent (stream j) = x \<and> P"
    for j :: "('a, 'b) TcpInner" and x P
    using tcp_pending_empty(2) [of j sent] by auto
  from tcp_drain.everything_gets_out [OF lively assms(1) good empty steps fair] show ?thesis
    by (simp only: frames line prod.case)
qed

text \<open>A frame that finds no room at first, and two bytes more of room in each round.\<close>

definition stuck_sender :: "(pipe, nat) TcpInner" where
  "stuck_sender = (sample_sender [] 0)\<lparr> current_write := Some (sample_frame [7]) \<rparr>"

definition more_room :: "pipe \<Rightarrow> pipe" where
  "more_room s = (case s of (cs, out, room) \<Rightarrow> (cs, out, room + 2))"

lemma stuck_write:
  "TcpInner_write pipe_ops le32_codec bytes_codec 0 (\<lambda>_. 0) 0 (Some ([7], 1)) (sample_sender [] 0) =
     Some (Done (Inr False, stuck_sender))"
  by (simp add: flush_evals enqueue_data_def sample_serialize sample_sender_def stuck_sender_def queue_simps
      sample_frame_def)

lemma stuck_session:
  "tcp_session pipe_ops le32_codec bytes_codec pipe_sent (sample_sender [] 0)
     [(1, 0, [7], sample_frame [7])] stuck_sender"
proof -
  have "tcp_session pipe_ops le32_codec bytes_codec pipe_sent (sample_sender [] 0)
      ([] @ arrival 0 (Some (1, [7], sample_frame [7]))) stuck_sender"
    by (rule session.wrote [OF session.opened, where w = "(0, Some ([7], 1))" and t = "\<lambda>_. 0" and b = False])
      (use stuck_write in \<open>simp_all add: sample_serialize sample_sender_simps\<close>)
  then show ?thesis by (simp add: arrival_def)
qed

theorem tcp_everything_gets_out_witness:
  "\<exists>N. \<forall>n\<ge>N. \<exists>j out. tcp_rounds pipe_ops le32_codec bytes_codec (\<lambda>_. more_room) (\<lambda>n p. n) stuck_sender n = Some j \<and>
    tcp_pending j = [] \<and> pipe_sent (stream j) = concat (frames out) \<and>
    (\<forall>k. subseq (of_class k out) (of_class k [(1, 0, [7 :: byte], sample_frame [7])])) \<and>
    (\<forall>k < 2. of_class k out = of_class k [(1, 0, [7 :: byte], sample_frame [7])])"
proof -
  have new: "fresh pipe_sent (sample_sender [] 0)"
    using fresh_new [of pipe_sent "([], [], 0)" SocketConfig_default]
    by (simp add: sample_sender_def TcpInner_new_def pipe_sent_def)
  have accepts: "accepts (ts_write pipe_ops) (more_room s)" for s
    by (cases s) (simp add: accepts_def more_room_def pipe_ops_def pipe_write_def Let_def)
  have never: "never_breaks (ts_write pipe_ops)"
    by (auto simp: never_breaks_def pipe_ops_def pipe_write_def is_would_block_def Let_def
        split: prod.splits if_splits)
  have sent: "\<forall>n s. pipe_sent (more_room s) = pipe_sent s"
    by (simp add: more_room_def pipe_sent_def split: prod.split)
  have conf: "conf_msg_drop_priority (conf (out_queue (sample_sender [] 0))) = 2"
    by (simp add: sample_sender_simps config_defaults)
  show ?thesis
    using tcp_everything_gets_out [OF stuck_session pipe_write_contract new pipe_progress never sent,
        where clock = "\<lambda>n p. n"] accepts
    unfolding conf by fast
qed

text \<open>
  C21. When to wait: \<open>read\<close> answers \<open>None\<close>, and \<open>write\<close> answers \<open>Ok(false)\<close>, only as the result of a
  last call on the stream that would block or was interrupted; \<open>write\<close> keeps the bytes that found
  no room as the ones to be sent first. If no call is interrupted, the stream has been brought to
  where it would block, so that an edge-triggered registration reports when it is ready again.
\<close>

theorem edge_triggered:
  "(TcpInner_read ops hc mc i = Some (Done (Inr None, i')) \<longrightarrow>
      (\<exists>s e. ts_read ops s BUF_LEN = (Inl e, stream i') \<and> (kind e = WouldBlock \<or> kind e = Interrupted))) \<and>
   (TcpInner_write ops hc mc rng t t' msg i = Some (Done (Inr False, i')) \<longrightarrow>
      (\<exists>s d e. ts_write ops s d = (Inl e, stream i') \<and> (kind e = WouldBlock \<or> kind e = Interrupted) \<and>
        current_write i' = Some d))"
  using read_none_blocked write_false_blocked unfolding is_would_block_def TcpInner_read_Some by blast

theorem edge_triggered_witness:
  "\<exists>s e. pipe_write s (sample_frame [7]) = (Inl e, ([], [], 0)) \<and> (kind e = WouldBlock \<or> kind e = Interrupted)"
proof -
  have "stream stuck_sender = ([], [], 0)" "current_write stuck_sender = Some (sample_frame [7])"
    "ts_write pipe_ops = pipe_write"
    by (simp_all add: stuck_sender_def sample_sender_simps pipe_ops_def)
  with edge_triggered [where ops = pipe_ops and i' = stuck_sender] stuck_write show ?thesis
    by (metis option.inject)
qed

end
