(* ===== verification/Read_Order.thy ===== *)
theory Read_Order
  imports Errors
begin

text \<open>
  The receiving side of a byte stream, for TCP (\<open>src/src/tcp.rs\<close>) and UDT
  (\<open>src/src/udt/udt_sock.rs\<close>) alike: a \<open>read\<close> that looks for a message in its buffer, otherwise
  reads until it would block or fails, and then looks again. The locale takes what one look and one
  turn of the loop do to what is still awaited to any sequence of calls.
\<close>

section \<open>A receiver\<close>

text \<open>
  Any sequence of calls, with their answers. In between anything may happen that leaves the
  receiving half alone (\<open>same\<close>): writes, changes of options, arriving data.
\<close>

inductive reading ::
  "('i \<Rightarrow> ('m option res \<times> 'i) outcome option) \<Rightarrow> ('i \<Rightarrow> 'i \<Rightarrow> bool) \<Rightarrow> 'i \<Rightarrow> 'm option res list \<Rightarrow> 'i \<Rightarrow> bool"
  for rd same j0 where
  opened: "reading rd same j0 [] j0"
| called: "reading rd same j0 rs j \<Longrightarrow> rd j = Some (Done (r, j')) \<Longrightarrow> reading rd same j0 (rs @ [r]) j'"
| elsewhere: "reading rd same j0 rs j \<Longrightarrow> same j j' \<Longrightarrow> reading rd same j0 rs j'"

text \<open>The messages among the answers.\<close>

definition handed_out :: "'m option res list \<Rightarrow> 'm list" where
  "handed_out rs = concat (map (\<lambda>r. case r of Inr (Some m) \<Rightarrow> [m] | _ \<Rightarrow> []) rs)"

lemma handed_out_simps [simp]:
  "handed_out [] = []" "handed_out (rs @ [r]) = handed_out rs @ handed_out [r]"
  "handed_out [Inl e] = []" "handed_out [Inr None] = []" "handed_out [Inr (Some m)] = [m]"
  by (simp_all add: handed_out_def)

section \<open>Readers\<close>

text \<open>
  \<open>rd\<close> is the call, which as long as the state is \<open>good\<close> does what the total functions \<open>look\<close> and
  \<open>turn\<close> do. \<open>look\<close> takes a message out of the buffer, \<open>taken\<close> are the bytes the stream has handed out so far,
  \<open>awaits k ms fut\<close> says that the messages \<open>ms\<close> are still to come out if the bytes \<open>fut\<close> follow.
\<close>

locale message_reader =
  fixes turn :: "bool \<times> 'i \<Rightarrow> (bool \<times> 'i) + ('m option res \<times> 'i)"
    and look :: "'i \<Rightarrow> 'm option res \<times> 'i"
    and rd :: "'i \<Rightarrow> ('m option res \<times> 'i) outcome option"
    and good :: "'i \<Rightarrow> bool"
    and taken :: "'i \<Rightarrow> byte list"
    and broke :: "SocketError \<Rightarrow> bool"
    and awaits :: "'i \<Rightarrow> 'm list \<Rightarrow> byte list \<Rightarrow> bool"
    and same :: "'i \<Rightarrow> 'i \<Rightarrow> bool"
  assumes turn_on: "good k \<Longrightarrow> turn (b, k) = Inl (b', k') \<Longrightarrow>
      b' \<and> good k' \<and> (\<exists>c. taken k' = taken k @ c \<and> (\<forall>ms fut. awaits k ms (c @ fut) \<longrightarrow> awaits k' ms fut))"
    and turn_out: "good k \<Longrightarrow> turn (b, k) = Inr (r, k') \<Longrightarrow>
      \<exists>k1. good k1 \<and> taken k1 = taken k \<and> (\<forall>ms fut. awaits k ms fut \<longrightarrow> awaits k1 ms fut) \<and>
        (\<not> b \<and> r = Inr None \<and> k' = k1 \<or> (\<exists>e. r = Inl e \<and> broke e \<and> k' = k1) \<or>
         (\<exists>x. look k1 = (x, k') \<and> (r = x \<or> x = Inr None \<and> r = Inl ZeroByteRead)))"
    and end_of_file: "broke ZeroByteRead"
    and look_keeps: "good k \<Longrightarrow> look k = (x, k') \<Longrightarrow> good k' \<and> taken k' = taken k"
    and look_finds: "awaits k ms fut \<Longrightarrow> look k = (x, k') \<Longrightarrow>
      case x of
        Inl _ \<Rightarrow> False
      | Inr None \<Rightarrow> awaits k' ms fut \<and> (fut = [] \<longrightarrow> ms = [])
      | Inr (Some m) \<Rightarrow> \<exists>left. ms = m # left \<and> awaits k' left fut"
    and rd_looks: "good j \<Longrightarrow> rd j = map_option Done
      (case look j of (Inr None, k) \<Rightarrow> rust_loop turn (False, k) | (r, k) \<Rightarrow> Some (r, k))"
    and same_keeps: "good j \<Longrightarrow> same j j' \<Longrightarrow>
      good j' \<and> taken j' = taken j \<and> (\<forall>ms fut. awaits j ms fut \<longrightarrow> awaits j' ms fut)"
begin

text \<open>A correct answer to a call, \<open>ms\<close> being awaited before it and \<open>fut\<close> following after it.\<close>

definition answers :: "'m option res \<Rightarrow> 'i \<Rightarrow> 'm list \<Rightarrow> byte list \<Rightarrow> bool" where
  "answers r k ms fut \<longleftrightarrow>
     (\<exists>left. ms = handed_out [r] @ left \<and> awaits k left fut \<and> (\<forall>e. r = Inl e \<longrightarrow> broke e) \<and>
        (r = Inr None \<and> fut = [] \<longrightarrow> left = []))"

lemma look_answers:
  assumes "awaits k ms fut" and "look k = (x, k')" and "r = x \<or> x = Inr None \<and> r = Inl ZeroByteRead"
  shows "answers r k' ms fut"
  using look_finds [OF assms(1,2)] assms(3) end_of_file
  by (auto simp: answers_def split: sum.splits option.splits)

lemma loop_answers:
  assumes "rust_loop turn (False, k0) = Some (r, k')" and "good k0"
  shows "\<exists>c. taken k' = taken k0 @ c \<and> good k' \<and>
    (\<forall>ms fut. awaits k0 ms (c @ fut) \<longrightarrow> (c @ fut = [] \<longrightarrow> ms = []) \<longrightarrow> answers r k' ms fut)"
proof -
  define P where "P = (\<lambda>(b, k). good k \<and> (\<exists>c. taken k = taken k0 @ c \<and> (b \<or> c = []) \<and>
    (\<forall>ms fut. awaits k0 ms (c @ fut) \<longrightarrow> awaits k ms fut)))"
  define Q where "Q = (\<lambda>(r, k'). \<exists>c. taken k' = taken k0 @ c \<and> good k' \<and>
    (\<forall>ms fut. awaits k0 ms (c @ fut) \<longrightarrow> (c @ fut = [] \<longrightarrow> ms = []) \<longrightarrow> answers r k' ms fut))"
  have on: "P s'" if "P s" and t: "turn s = Inl s'" for s s'
  proof -
    obtain b k b' k1 where s: "s = (b, k)" "s' = (b', k1)" by (cases s, cases s')
    with that(1) obtain c where c: "good k" "taken k = taken k0 @ c"
      "\<forall>ms fut. awaits k0 ms (c @ fut) \<longrightarrow> awaits k ms fut" by (auto simp: P_def)
    from turn_on [OF c(1) t [unfolded s]] obtain c' where "b'" "good k1" "taken k1 = taken k @ c'"
      "\<forall>ms fut. awaits k ms (c' @ fut) \<longrightarrow> awaits k1 ms fut" by blast
    with c show ?thesis by (auto simp: P_def s intro!: exI [of _ "c @ c'"])
  qed
  have out: "Q out" if "P s" and t: "turn s = Inr out" for s out
  proof -
    obtain b k r k' where s: "s = (b, k)" "out = (r, k')" by (cases s, cases out)
    with that(1) obtain c where c: "good k" "taken k = taken k0 @ c" "b \<or> c = []"
      "\<forall>ms fut. awaits k0 ms (c @ fut) \<longrightarrow> awaits k ms fut" by (auto simp: P_def)
    from turn_out [OF c(1) t [unfolded s]] obtain k1 where k1: "good k1" "taken k1 = taken k"
      "\<forall>ms fut. awaits k ms fut \<longrightarrow> awaits k1 ms fut"
      "\<not> b \<and> r = Inr None \<and> k' = k1 \<or> (\<exists>e. r = Inl e \<and> broke e \<and> k' = k1) \<or>
         (\<exists>x. look k1 = (x, k') \<and> (r = x \<or> x = Inr None \<and> r = Inl ZeroByteRead))" by blast
    from k1(4) consider "\<not> b \<and> r = Inr None \<and> k' = k1" | "\<exists>e. r = Inl e \<and> broke e \<and> k' = k1"
      | x where "look k1 = (x, k')" "r = x \<or> x = Inr None \<and> r = Inl ZeroByteRead" by blast
    then have ends: "taken k' = taken k1 \<and> good k' \<and>
        (\<forall>ms fut. awaits k1 ms fut \<longrightarrow> (\<not> b \<and> fut = [] \<longrightarrow> ms = []) \<longrightarrow> answers r k' ms fut)"
    proof cases
      case 3
      with look_keeps [OF k1(1)] look_answers show ?thesis by blast
    qed (use k1(1) in \<open>auto simp: answers_def\<close>)
    have "answers r k' ms fut" if "awaits k0 ms (c @ fut)" "c @ fut = [] \<longrightarrow> ms = []" for ms fut
    proof -
      have "awaits k1 ms fut" using that(1) c(4) k1(3) by blast
      moreover have "\<not> b \<and> fut = [] \<longrightarrow> ms = []" using that(2) c(3) by auto
      ultimately show ?thesis using ends by blast
    qed
    with c(2) k1(2) ends show ?thesis by (auto simp: s Q_def)
  qed
  have "P (False, k0)" using assms(2) by (simp add: P_def)
  from rust_loop_rule [OF assms(1), where P = P and Q = Q, OF this on out] have "Q (r, k')" .
  then show ?thesis by (simp add: Q_def)
qed

lemma rd_answers:
  assumes "rd j = Some (Done (r, j'))" and "good j"
  shows "\<exists>c. taken j' = taken j @ c \<and> good j' \<and> (\<forall>ms fut. awaits j ms (c @ fut) \<longrightarrow> answers r j' ms fut)"
proof -
  obtain x k where look: "look j = (x, k)" by (cases "look j")
  show ?thesis
  proof (cases "x = Inr None")
    case True
    with look assms have "rust_loop turn (False, k) = Some (r, j')" by (simp add: rd_looks)
    from loop_answers [OF this] look_keeps [OF assms(2) look] obtain c where
      "taken j' = taken j @ c" "good j'"
      "\<forall>ms fut. awaits k ms (c @ fut) \<longrightarrow> (c @ fut = [] \<longrightarrow> ms = []) \<longrightarrow> answers r j' ms fut" by auto
    moreover have "awaits k ms fut \<and> (fut = [] \<longrightarrow> ms = [])" if "awaits j ms fut" for ms fut
      using look_finds [OF that look] True by simp
    ultimately show ?thesis by blast
  next
    case False
    with look assms have "r = x" "k = j'" by (auto simp: rd_looks split: sum.splits option.splits)
    with look_keeps [OF assms(2) look] look_answers [OF _ look] show ?thesis by simp
  qed
qed

text \<open>
  What the answers of any sequence of calls say about the messages awaited at its beginning.
\<close>

lemma reading_answers:
  assumes "reading rd same j0 rs j" and "good j0" and "taken j0 = []"
  shows "good j \<and> (\<forall>ms fut. awaits j0 ms (taken j @ fut) \<longrightarrow>
    (\<exists>left. ms = handed_out rs @ left \<and> awaits j left fut \<and> (\<forall>e. Inl e \<in> set rs \<longrightarrow> broke e) \<and>
      (rs \<noteq> [] \<and> last rs = Inr None \<and> fut = [] \<longrightarrow> left = [])))"
  using assms(1)
proof induction
  case opened
  with assms(2,3) show ?case by simp
next
  case (called rs j r j')
  from rd_answers [OF called(2)] called.IH obtain c where c: "taken j' = taken j @ c" "good j'"
    "\<forall>ms fut. awaits j ms (c @ fut) \<longrightarrow> answers r j' ms fut" by blast
  have "\<exists>left. ms = handed_out (rs @ [r]) @ left \<and> awaits j' left fut \<and> (\<forall>e. Inl e \<in> set (rs @ [r]) \<longrightarrow> broke e) \<and>
      (last (rs @ [r]) = Inr None \<and> fut = [] \<longrightarrow> left = [])"
    if "awaits j0 ms (taken j' @ fut)" for ms fut
  proof -
    from that c(1) have "awaits j0 ms (taken j @ (c @ fut))" by simp
    from conjunct2 [OF called.IH, rule_format, OF this] obtain left where left: "ms = handed_out rs @ left" "awaits j left (c @ fut)"
      "\<forall>e. Inl e \<in> set rs \<longrightarrow> broke e" by blast
    from c(3) [rule_format, OF left(2)] left show ?thesis by (auto simp: answers_def)
  qed
  with c(2) show ?case by simp
next
  case (elsewhere rs j j')
  with same_keeps [of j j'] have j': "good j'" "taken j' = taken j" "\<forall>ms fut. awaits j ms fut \<longrightarrow> awaits j' ms fut"
    by blast+
  show ?case
  proof (intro conjI allI impI)
    fix ms fut assume "awaits j0 ms (taken j' @ fut)"
    then have "awaits j0 ms (taken j @ fut)" by (simp add: j'(2))
    from conjunct2 [OF elsewhere.IH, rule_format, OF this] j'(3)
    show "\<exists>left. ms = handed_out rs @ left \<and> awaits j' left fut \<and> (\<forall>e. Inl e \<in> set rs \<longrightarrow> broke e) \<and>
        (rs \<noteq> [] \<and> last rs = Inr None \<and> fut = [] \<longrightarrow> left = [])" by blast
  qed (rule j'(1))
qed

end

end
