(* ===== verification/Tcp_Connection.thy ===== *)
theory Tcp_Connection
  imports Tcp_Session Read_Order
begin

text \<open>
  Two TCP sockets (\<open>src/src/tcp.rs\<close>) and the connection between them: the sender goes through any
  session, the receiver calls \<open>read\<close> at any times and gets any kind of answer, end of file and errors
  of the stream included, and the network delivers the bytes sent in order, in whatever pieces.
\<close>

section \<open>TCP as a reader\<close>

text \<open>\<open>taken\<close> are the bytes the stream has handed out so far.\<close>

definition tcp_read_contract :: "'s tcp_ops \<Rightarrow> ('s \<Rightarrow> byte list) \<Rightarrow> bool" where
  "tcp_read_contract ops taken \<longleftrightarrow>
     (\<forall>s n buf s'. ts_read ops s n = (Inr buf, s') \<longrightarrow> taken s' = taken s @ buf) \<and>
     (\<forall>s n e s'. ts_read ops s n = (Inl e, s') \<longrightarrow> taken s' = taken s)"

lemma tcp_read_contractD:
  "tcp_read_contract ops taken \<Longrightarrow> ts_read ops s n = (r, s') \<Longrightarrow>
     taken s' = taken s @ (case r of Inl e \<Rightarrow> [] | Inr buf \<Rightarrow> buf)"
  by (fastforce simp: tcp_read_contract_def split: sum.split)

definition stream_error :: "SocketError \<Rightarrow> bool" where
  "stream_error e \<longleftrightarrow> e = ZeroByteRead \<or> io_failure e"

definition same_receiving :: "('s \<Rightarrow> byte list) \<Rightarrow> ('s, 'k) TcpInner \<Rightarrow> ('s, 'k) TcpInner \<Rightarrow> bool" where
  "same_receiving taken j j' \<longleftrightarrow> msg_reader j' = msg_reader j \<and> taken (stream j') = taken (stream j)"

text \<open>The messages still to come out, as the frames the reader is in the middle of.\<close>

definition tcp_awaits ::
  "('k \<Rightarrow> 'k \<Rightarrow> bool) \<Rightarrow> ('k, u32) codec \<Rightarrow> ('k, 'm) codec \<Rightarrow> 'k EncryptContext \<Rightarrow> ('s, 'k) TcpInner \<Rightarrow>
     'm list \<Rightarrow> byte list \<Rightarrow> bool" where
  "tcp_awaits keypair hc mc e i ms fut \<longleftrightarrow>
     linked keypair hc mc e (dec_ctx (msg_reader i)) \<and>
     (\<exists>fs. frames_of hc mc e (max_payload_size (msg_reader i)) ms fs \<and>
        unread (dec_size_len (dec_ctx (msg_reader i))) (msg_reader i) fs fut)"

lemma tcp_awaits_put_buf:
  assumes "tcp_awaits keypair hc mc e i ms (c @ fut)" and "msg_reader i' = put_buf c (msg_reader i)"
  shows "tcp_awaits keypair hc mc e i' ms fut"
proof -
  from assms(1) obtain fs where "linked keypair hc mc e (dec_ctx (msg_reader i))"
    "frames_of hc mc e (max_payload_size (msg_reader i)) ms fs"
    "unread (dec_size_len (dec_ctx (msg_reader i))) (msg_reader i) fs (c @ fut)"
    by (auto simp: tcp_awaits_def)
  with unread_put_buf [OF this(3)] assms(2) show ?thesis
    by (auto simp: tcp_awaits_def put_buf_def)
qed

lemma inner_try_read_finds:
  assumes "tcp_awaits keypair hc mc e i ms fut" and "inner_try_read_pure hc mc i = (x, i')"
  shows "case x of
      Inl _ \<Rightarrow> False
    | Inr None \<Rightarrow> tcp_awaits keypair hc mc e i' ms fut \<and> (fut = [] \<longrightarrow> ms = [])
    | Inr (Some m) \<Rightarrow> \<exists>left. ms = m # left \<and> tcp_awaits keypair hc mc e i' left fut"
proof -
  from assms(1) obtain fs where link: "linked keypair hc mc e (dec_ctx (msg_reader i))"
    and "frames_of hc mc e (max_payload_size (msg_reader i)) ms fs"
    "unread (dec_size_len (dec_ctx (msg_reader i))) (msg_reader i) fs fut"
    by (auto simp: tcp_awaits_def)
  then show ?thesis
  proof (cases rule: try_read_progress)
    case (waits rd)
    with assms(2) link \<open>frames_of hc mc e (max_payload_size (msg_reader i)) ms fs\<close> show ?thesis
      by (auto simp: inner_try_read_pure_def tcp_awaits_def)
  next
    case (delivers m ms' f fs' rd)
    with assms(2) link \<open>frames_of hc mc e (max_payload_size (msg_reader i)) ms fs\<close> show ?thesis
      by (auto simp: inner_try_read_pure_def tcp_awaits_def)
  qed
qed

interpretation tcp_reader: message_reader "read_turn_pure ops hc mc" "inner_try_read_pure hc mc" "TcpInner_read ops hc mc"
  "\<lambda>_. tcp_read_contract ops taken" "\<lambda>i. taken (stream i)" stream_error "tcp_awaits keypair hc mc e"
  "same_receiving taken"
  for ops :: "'s tcp_ops" and taken and hc :: "('k, u32) codec" and mc :: "('k, 'm) codec" and keypair and e
proof (unfold_locales, goal_cases)
  case (1 k b b' k')
  obtain res s where rd: "ts_read ops (stream k) BUF_LEN = (res, s)" by (cases "ts_read ops (stream k) BUF_LEN")
  with 1(2) obtain buf where "res = Inr buf" "b'" "k' = k\<lparr> stream := s, msg_reader := put_buf buf (msg_reader k) \<rparr>"
    by (auto simp: read_turn_pure_def Let_def split: sum.splits if_splits option.splits prod.splits)
  with tcp_read_contractD [OF 1(1) rd] 1(1) show ?case
    by (auto intro!: exI [of _ buf] elim: tcp_awaits_put_buf)
next
  case (2 k b r k')
  obtain res s where rd: "ts_read ops (stream k) BUF_LEN = (res, s)" by (cases "ts_read ops (stream k) BUF_LEN")
  let ?k1 = "k\<lparr> stream := s \<rparr>"
  obtain x k2 where look: "inner_try_read_pure hc mc ?k1 = (x, k2)" by (cases "inner_try_read_pure hc mc ?k1")
  have "taken s = taken (stream k)"
    using tcp_read_contractD [OF 2(1) rd] 2(2) rd
    by (auto simp: read_turn_pure_def Let_def split: sum.splits if_splits)
  with 2 rd look show ?case
    by (intro exI [of _ ?k1])
      (auto simp: read_turn_pure_def tcp_awaits_def stream_error_def io_failure_def Let_def
        split: sum.splits if_splits option.splits)
next
  case (6 j)
  show ?case by (simp add: TcpInner_read_in_range TcpInner_read_pure_def split: prod.split sum.split option.split)
qed (auto simp: stream_error_def inner_try_read_pure_def same_receiving_def tcp_awaits_def inner_try_read_finds
    split: prod.splits)

abbreviation tcp_reading ::
  "'s tcp_ops \<Rightarrow> ('k, u32) codec \<Rightarrow> ('k, 'm) codec \<Rightarrow> ('s \<Rightarrow> byte list) \<Rightarrow> ('s, 'k) TcpInner \<Rightarrow>
     'm option res list \<Rightarrow> ('s, 'k) TcpInner \<Rightarrow> bool" where
  "tcp_reading ops hc mc taken \<equiv> reading (TcpInner_read ops hc mc) (same_receiving taken)"

section \<open>Two sockets\<close>

lemma tcp_messages_arrive:
  assumes "tcp_session ops hc mc sent i0 es i" and "tcp_write_contract ops sent" and "fresh sent i0"
    and "tcp_reading ops' hc mc taken j0 rs j" and "tcp_read_contract ops' taken"
    and "read_len (msg_reader j0) = 0" and "read_buffer (msg_reader j0) = []" and "taken (stream j0) = []"
    and "linked keypair hc mc (enc_ctx i0) (dec_ctx (msg_reader j0))"
    and "\<forall>x\<in>set es. body_fits (max_payload_size (msg_reader j0)) (enc_ctx i0) (snd (snd (snd x)))"
    and "taken (stream j) @ missing = sent (stream i)"
  shows "\<exists>out v left. delivered (conf (out_queue i0)) es out v \<and> messages out = handed_out rs @ left \<and>
    (\<forall>e. Inl e \<in> set rs \<longrightarrow> stream_error e) \<and>
    (tcp_pending i = [] \<and> missing = [] \<and> rs \<noteq> [] \<and> last rs = Inr None \<longrightarrow> left = [] \<and> v = [])"
proof -
  from tcp_session_invariant [OF assms(1-3)] obtain out v where
    inv: "framed hc mc (enc_ctx i0) es" "view (out_queue i) = retag snd v" "tcp_line sent i = concat (frames out)"
      "delivered (conf (out_queue i0)) es out v" by (auto dest!: in_order_frames)
  define rest where "rest = (case current_write i of None \<Rightarrow> [] | Some d \<Rightarrow> d)"
  have "set out \<subseteq> set es" using delivered_subset [OF inv(4)] by simp
  with inv(1) assms(10) have fs: "frames_of hc mc (enc_ctx i0) (max_payload_size (msg_reader j0)) (messages out) (frames out)"
    by (auto simp: frames_of_def framed_def list_all2_map1 list_all2_map2 list_all2_same)
  have "unread (dec_size_len (dec_ctx (msg_reader j0))) (msg_reader j0) (frames out)
      (taken (stream j) @ missing @ rest)"
    using assms(6,7,11) inv(3) by (intro unread_between) (simp_all add: tcp_line_def rest_def flip: append_assoc)
  with fs assms(9) have "tcp_awaits keypair hc mc (enc_ctx i0) j0 (messages out) (taken (stream j) @ missing @ rest)"
    by (auto simp: tcp_awaits_def)
  with tcp_reader.reading_answers [OF assms(4,5,8)] obtain left where left: "messages out = handed_out rs @ left"
    "\<forall>e. Inl e \<in> set rs \<longrightarrow> stream_error e"
    "rs \<noteq> [] \<and> last rs = Inr None \<and> missing @ rest = [] \<longrightarrow> left = []" by blast
  have "v = [] \<and> rest = []" if "tcp_pending i = []"
    using that inv(2) by (auto simp: tcp_pending_def pending_of_def rest_def split: option.splits)
  with inv(4) left show ?thesis by blast
qed

section \<open>Properties\<close>

text \<open>
  C1. Two sockets and the connection between them: the sender has been through any session, the
  receiver has made any calls of \<open>read\<close> at any times, and the bytes that the receiver's stream has handed
  out are the beginning of those the sender's stream has accepted. The contexts of the two sockets
  match (\<open>linked\<close>), and every message written has a frame that the receiver accepts (\<open>body_fits\<close>):
  its encrypted body is not empty, not longer than the receiver's \<open>max_payload_size\<close> and shorter
  than 2^32 bytes. Then the messages the receiver
  got are messages that were written, in sending order and without a gap, and the only errors it
  got are those of its stream. When everything has been sent and taken and \<open>read\<close> answers \<open>None\<close>, the
  receiver has every message that was not dropped.
\<close>

theorem tcp_connection_delivers:
  assumes "tcp_session ops hc mc sent i0 es i" and "tcp_write_contract ops sent" and "fresh sent i0"
    and "tcp_reading ops' hc mc taken j0 rs j" and "tcp_read_contract ops' taken"
    and "read_len (msg_reader j0) = 0" and "read_buffer (msg_reader j0) = []" and "taken (stream j0) = []"
    and "linked keypair hc mc (enc_ctx i0) (dec_ctx (msg_reader j0))"
    and "\<forall>x\<in>set es. body_fits (max_payload_size (msg_reader j0)) (enc_ctx i0) (snd (snd (snd x)))"
    and "taken (stream j) @ missing = sent (stream i)"
  shows "\<exists>out v left. delivered (conf (out_queue i0)) es out v \<and> messages out = handed_out rs @ left \<and>
    (\<forall>e. Inl e \<in> set rs \<longrightarrow> e = ZeroByteRead \<or> (\<exists>x. e = Io x \<and> \<not> is_would_block x)) \<and>
    (tcp_pending i = [] \<and> missing = [] \<and> rs \<noteq> [] \<and> last rs = Inr None \<longrightarrow> left = [] \<and> v = [])"
  using tcp_messages_arrive [OF assms] by (simp only: stream_error_def io_failure_def)

text \<open>A stream that keeps what it has handed out, in the place of the bytes written.\<close>

definition recording_ops :: "pipe tcp_ops" where
  "recording_ops = pipe_ops\<lparr> ts_read := (\<lambda>s n.
     case s of
       ([], w) \<Rightarrow> (Inl (IoError WouldBlock []), [], w)
     | (c # cs, out, room) \<Rightarrow> (Inr c, cs, out @ c, room)) \<rparr>"

lemma recording_contract: "tcp_read_contract recording_ops pipe_sent"
  by (auto simp: tcp_read_contract_def recording_ops_def pipe_ops_def pipe_sent_def split: prod.splits list.splits)

theorem tcp_connection_delivers_witness:
  "\<exists>j out v left. TcpInner_read recording_ops le32_codec bytes_codec (TcpInner_new ([[1, 0, 0], [0, 7, 1]], [], 0)) =
      Some (Done (Inr (Some [7]), j)) \<and>
    delivered (SocketConfig_default :: nat SocketConfig) sample_writes out v \<and> messages out = [7] # left"
proof -
  let ?j = "TcpInner_new ([[1, 0, 0], [0, 7, 1]], [], 0) :: (pipe, nat) TcpInner"
  have idle: "read_len (msg_reader ?j) = 0" "read_buffer (msg_reader ?j) = []" "pipe_sent (stream ?j) = []"
    and link: "linked (=) le32_codec bytes_codec (enc_ctx (sample_sender [] 10)) (dec_ctx (msg_reader ?j))"
    and fits: "\<forall>x\<in>set sample_writes. body_fits (max_payload_size (msg_reader ?j))
      (enc_ctx (sample_sender [] 10)) (snd (snd (snd x)))"
    by (simp_all add: tcp_new_defs config_defaults sample_linked sample_sender_simps pipe_sent_def sample_writes_def
        LenDelimitedReader_new_def sample_body_fits Let_def)
  let ?k = "?j\<lparr> stream := ([], [1, 0, 0, 0, 7, 1], 0), msg_reader := put_buf [1] (LenDelimitedReader_new (2 * 1024 * 1024)) \<rparr>"
  have read: "TcpInner_read recording_ops le32_codec bytes_codec ?j = Some (Done (Inr (Some [7]), ?k))"
    by (simp add: TcpInner_read_in_range TcpInner_read_pure_def inner_try_read_pure_def rust_loop.simps read_turn_pure_def recording_ops_def pipe_ops_def
        tcp_new_defs config_defaults LenDelimitedReader_new_def try_read_pure_def try_read_header_pure_def put_buf_def
        mark_read_pure_def codec_simps is_would_block_def Let_def)
  have "tcp_reading recording_ops le32_codec bytes_codec pipe_sent ?j ([] @ [Inr (Some [7])]) ?k"
    by (rule reading.called [OF reading.opened]) (rule read)
  moreover have "pipe_sent (stream ?k) @ [0, 0, 0, 8] =
      pipe_sent (stream (sample_sender (concat [sample_frame [7], sample_frame [8]]) 0))"
    by (simp add: sample_sender_simps sample_frame_def le32_encode_def pipe_sent_def)
  ultimately obtain out v left where
    "delivered (conf (out_queue (sample_sender [] 10))) sample_writes out v" "messages out = [7] # left"
    using tcp_connection_delivers [OF sample_session pipe_write_contract sample_fresh _ recording_contract idle link fits]
    by fastforce
  with read show ?thesis by (auto simp: sample_sender_simps)
qed

end
