(* ===== verification/Test_Setup.thy ===== *)
theory Test_Setup
  imports Mio
begin

text \<open>
  What the integration tests (\<open>tests/tcp.rs\<close> and \<open>tests/udp.rs\<close>) have in common: tokens, the constants of
  \<open>mio\<close> they pass on, and \<open>unwrap!\<close>, which panics on an error.
\<close>

definition SOCKET1_TOKEN :: Token where
  "SOCKET1_TOKEN = 0"

definition SOCKET2_TOKEN :: Token where
  "SOCKET2_TOKEN = 1"

record registration =
  the_poll :: Poll
  readable :: Ready
  writable :: Ready
  edge :: PollOpt

definition sample_registration1 :: registration where
  "sample_registration1 = \<lparr> the_poll = 0, readable = 1, writable = 2, edge = 4 \<rparr>"

text \<open>\<open>unwrap!(r)\<close> followed by the rest of the test, and the same for a method that changes the socket.\<close>

definition unwrap :: "'e + 'a \<Rightarrow> ('a \<Rightarrow> 'b outcome) \<Rightarrow> 'b outcome" where
  "unwrap r rest = (case r of Inl _ \<Rightarrow> Panicked | Inr x \<Rightarrow> rest x)"

definition unwrap_call :: "('e + 'a) \<times> 'u \<Rightarrow> ('a \<Rightarrow> 'u \<Rightarrow> 'b outcome) \<Rightarrow> 'b outcome" where
  "unwrap_call c rest = (case c of (r, us) \<Rightarrow> unwrap r (\<lambda>x. rest x us))"

lemma unwrap_Done: "unwrap r rest = Done y \<longleftrightarrow> (\<exists>x. r = Inr x \<and> rest x = Done y)"
  by (simp add: unwrap_def split: sum.split)

lemma unwrap_call_Done: "unwrap_call c rest = Done y \<longleftrightarrow> (\<exists>x us. c = (Inr x, us) \<and> rest x us = Done y)"
  by (auto simp: unwrap_call_def unwrap_Done split: prod.split)

lemma map_outcome_Done: "map_outcome f x = Done y \<longleftrightarrow> (\<exists>z. x = Done z \<and> y = f z)"
  by (cases x) auto

end
