(* ===== verification/Tcp_Transfer.thy ===== *)
theory Tcp_Transfer
  imports Tcp_Liveness Tcp_Connection Test_Setup
begin

text \<open>
  The integration test of TCP (\<open>data_transfer_up_to_2_mb\<close> in \<open>tests/tcp.rs\<close>): one message of almost
  2 MB goes from a socket that connects to one that was accepted, driven by the events of a \<open>Poll\<close>.
  The poll decides which event comes next and the system moves bytes in between; both are arguments.
  The calls of \<open>unwrap!\<close> are the panics.
\<close>

section \<open>The test\<close>

definition LISTENER_TOKEN :: Token where
  "LISTENER_TOKEN = 2"

lemmas token_defs = SOCKET1_TOKEN_def SOCKET2_TOKEN_def LISTENER_TOKEN_def

definition data_len :: usize where
  "data_len = 1024 * 1024 * 2 - 40"

text \<open>\<open>gen\<close> is the generator, indexed by the turn of the loop.\<close>

definition random_vec :: "(nat \<Rightarrow> byte) \<Rightarrow> usize \<Rightarrow> byte list" where
  "random_vec gen n = map gen [0..<n]"

record ('s, 'k) transfer =
  sock1 :: "('s, 'k) TcpSock"
  sock2 :: "('s, 'k) TcpSock option"
  data_sent :: bool
  in_data :: "byte list"

text \<open>The registration of the listener itself is left out.\<close>

definition transfer_start ::
  "'s tcp_ops \<Rightarrow> registration \<Rightarrow> 's \<Rightarrow> SocketAddr \<Rightarrow> ('s, 'k) transfer outcome" where
  "transfer_start ops reg w listener_addr =
     (case TcpSock_connect ops w listener_addr of
        Inl _ \<Rightarrow> Panicked
      | Inr sock \<Rightarrow>
          (case TcpSock_register ops (the_poll reg) SOCKET1_TOKEN (writable reg) (edge reg) sock of
             (Inl _, _) \<Rightarrow> Panicked
           | (Inr _, sock) \<Rightarrow> Done \<lparr> sock1 = sock, sock2 = None, data_sent = False, in_data = [] \<rparr>))"

text \<open>
  One turn of the inner \<open>loop\<close>. It ends with \<open>break\<close> (\<open>Inl\<close>), with \<open>break 'event_loop\<close> or a panic
  (\<open>Inr\<close>), or not at all when a call of \<open>read\<close> does not return.
\<close>

definition receive_turn ::
  "'s tcp_ops \<Rightarrow> ('k, u32) codec \<Rightarrow> ('k, byte list) codec \<Rightarrow> byte list \<Rightarrow> ('s, 'k) TcpSock \<times> byte list \<Rightarrow>
     (('s, 'k) TcpSock \<times> byte list) + ((('s, 'k) TcpSock \<times> byte list) + unit outcome) option" where
  "receive_turn ops hc mc out_data = (\<lambda>(s2, in_data).
     (case TcpSock_read ops hc mc s2 of
        None \<Rightarrow> Inr None
      | Some Panicked \<Rightarrow> Inr (Some (Inr Panicked))
      | Some (Done (Inr (Some data), s2)) \<Rightarrow>
          (let in_data = in_data @ data in
           if length in_data = data_len
           then Inr (Some (Inr (if in_data = out_data then Done () else Panicked)))
           else Inl (s2, in_data))
      | Some (Done (Inr None, s2)) \<Rightarrow> Inr (Some (Inl (s2, in_data)))
      | Some (Done (Inl e, _)) \<Rightarrow> Inr (Some (Inr Panicked))))"

text \<open>
  The handling of one event: the next state, or the end of the test, which is a panic unless it has
  passed. \<open>accepted\<close> is what \<open>listener.accept()\<close> answers.
\<close>

definition transfer_event ::
  "'s tcp_ops \<Rightarrow> ('k, u32) codec \<Rightarrow> ('k, byte list) codec \<Rightarrow> registration \<Rightarrow> byte list \<Rightarrow> Token \<Rightarrow>
     io_error + 's \<Rightarrow> nat \<Rightarrow> readings \<Rightarrow> instant \<Rightarrow> ('s, 'k) transfer \<Rightarrow> (('s, 'k) transfer + unit outcome) option" where
  "transfer_event ops hc mc reg out_data token accepted rng t t' st =
     (if token = LISTENER_TOKEN then
        (case accepted of
           Inl _ \<Rightarrow> Some (Inr Panicked)
         | Inr client_sock \<Rightarrow>
             (case ts_register ops client_sock (the_poll reg) SOCKET2_TOKEN (readable reg) (edge reg) of
                (Inl _, _) \<Rightarrow> Some (Inr Panicked)
              | (Inr _, client_sock) \<Rightarrow> Some (Inl (st\<lparr> sock2 := Some (TcpSock_wrap client_sock) \<rparr>))))
      else if token = SOCKET1_TOKEN then
        (if \<not> data_sent st then
           (case TcpSock_write ops hc mc rng t t' (Some (out_data, 1)) (sock1 st) of
              None \<Rightarrow> None
            | Some (Done (Inr _, s)) \<Rightarrow> Some (Inl (st\<lparr> sock1 := s, data_sent := True \<rparr>))
            | Some _ \<Rightarrow> Some (Inr Panicked))
         else
           (case TcpSock_write ops hc mc rng t t' None (sock1 st) of
              None \<Rightarrow> None
            | Some (Done (Inr _, s)) \<Rightarrow> Some (Inl (st\<lparr> sock1 := s \<rparr>))
            | Some _ \<Rightarrow> Some (Inr Panicked)))
      else if token = SOCKET2_TOKEN then
        (case sock2 st of
           None \<Rightarrow> Some (Inr Panicked)
         | Some s2 \<Rightarrow>
             (case rust_loop (receive_turn ops hc mc out_data) (s2, in_data st) of
                Some (Some (Inl (s2, data))) \<Rightarrow> Some (Inl (st\<lparr> sock2 := Some s2, in_data := data \<rparr>))
              | Some (Some (Inr out)) \<Rightarrow> Some (Inr out)
              | _ \<Rightarrow> None))
      else Some (Inr Panicked))"

section \<open>The system it runs on\<close>

text \<open>
  A connection of the loopback interface: nothing breaks or ends while the test runs, \<open>sent\<close>,
  \<open>arrived\<close> and \<open>taken\<close> are the bytes a stream has sent, received and handed out, and a read blocks only when it has
  handed out all that has arrived.
\<close>

definition loopback :: "'s tcp_ops \<Rightarrow> ('s \<Rightarrow> byte list) \<Rightarrow> ('s \<Rightarrow> byte list) \<Rightarrow> ('s \<Rightarrow> byte list) \<Rightarrow> bool" where
  "loopback ops sent arrived taken \<longleftrightarrow>
     tcp_write_contract ops sent \<and> tcp_progress ops \<and> never_breaks (ts_write ops) \<and>
     tcp_read_contract ops taken \<and>
     (\<forall>s n r s'. ts_read ops s n = (r, s') \<longrightarrow>
        arrived s' = arrived s \<and>
        (case r of
           Inl e \<Rightarrow> is_would_block e \<and> taken s' = arrived s'
         | Inr buf \<Rightarrow> buf \<noteq> [] \<and> prefix (taken s') (arrived s'))) \<and>
     (\<forall>s poll token interest opt. \<exists>s'. ts_register ops s poll token interest opt = (Inr (), s') \<and>
        sent s' = sent s \<and> arrived s' = arrived s \<and> taken s' = taken s) \<and>
     (\<forall>w addr s. ts_connect ops w addr = Inr s \<longrightarrow> sent s = [])"

text \<open>
  Between two events the system moves bytes: what has arrived at the second socket is the beginning
  of what the first has sent.
\<close>

inductive transfer_run ::
  "'s tcp_ops \<Rightarrow> ('k, u32) codec \<Rightarrow> ('k, byte list) codec \<Rightarrow> registration \<Rightarrow> byte list \<Rightarrow>
     ('s \<Rightarrow> byte list) \<Rightarrow> ('s \<Rightarrow> byte list) \<Rightarrow> ('s \<Rightarrow> byte list) \<Rightarrow> ('s, 'k) transfer \<Rightarrow> bool"
  for ops hc mc reg out_data sent arrived taken where
  started: "transfer_start ops reg w addr = Done st \<Longrightarrow>
    transfer_run ops hc mc reg out_data sent arrived taken st"
| moved: "transfer_run ops hc mc reg out_data sent arrived taken st \<Longrightarrow>
    sock1 st = Some i \<Longrightarrow> sent s1 = sent (stream i) \<Longrightarrow>
    (case sock2 st of
       Some (Some j) \<Rightarrow> sock2' = Some (Some (j\<lparr> stream := s2 \<rparr>)) \<and> taken s2 = taken (stream j) \<and>
         prefix (taken s2) (arrived s2) \<and> prefix (arrived s2) (sent s1)
     | _ \<Rightarrow> sock2' = sock2 st) \<Longrightarrow>
    transfer_run ops hc mc reg out_data sent arrived taken (st\<lparr> sock1 := Some (i\<lparr> stream := s1 \<rparr>), sock2 := sock2' \<rparr>)"
| handled: "transfer_run ops hc mc reg out_data sent arrived taken st \<Longrightarrow>
    transfer_event ops hc mc reg out_data token accepted rng t t' st = Some (Inl st') \<Longrightarrow>
    (token = LISTENER_TOKEN \<longrightarrow> (\<forall>s. accepted = Inr s \<longrightarrow> arrived s = [] \<and> taken s = [])) \<Longrightarrow>
    transfer_run ops hc mc reg out_data sent arrived taken st'"

section \<open>Calls on such a connection\<close>

text \<open>Only a message that cannot be serialised makes a write fail.\<close>

lemma write_fails_to_serialise:
  assumes "never_breaks (ts_write ops)" and "TcpInner_write ops hc mc rng t t' msg i = Some (Done (Inl e, i'))"
  shows "\<exists>m p. msg = Some (m, p) \<and> serialize_with_len hc mc rng m (enc_ctx i) = Inl e"
proof -
  have never: False if "rust_loop (flush_turn ops) k = Some (Done (Inl e, i'))" for k
  proof -
    have "out \<noteq> Done (Inl e, i')" if "rust_loop (flush_turn ops) k = Some out" for out
      by (rule rust_loop_rule [OF that, where P = "\<lambda>_. True"]) (auto simp: flush_turn_succeeds [OF assms(1)])
    with that show False by blast
  qed
  with assms(2) show ?thesis
    by (auto simp: TcpInner_write_def enqueue_data_def flush_write_until_would_block_def Let_def
        split: option.splits sum.splits)
qed

text \<open>What every call on the stream keeps, a write keeps.\<close>

lemma write_keeps_stream:
  assumes step: "\<And>s d r s'. R s \<Longrightarrow> ts_write ops s d = (r, s') \<Longrightarrow> R s'"
    and "R (stream i)" and "TcpInner_write ops hc mc rng t t' msg i = Some (Done (r, i'))"
  shows "R (stream i')"
proof -
  have loop: "R (stream k) \<longrightarrow> R (stream i')" if "rust_loop (flush_turn ops) k = Some (Done (r, i'))" for k
  proof
    assume "R (stream k)"
    have "\<forall>r i'. out = Done (r, i') \<longrightarrow> R (stream i')" if "rust_loop (flush_turn ops) k = Some out" for out
      by (rule rust_loop_rule [OF that, where P = "\<lambda>k. R (stream k)"])
        (use \<open>R (stream k)\<close> in \<open>auto simp: flush_turn_eq Let_def dest: step
          split: outcome.splits option.splits prod.splits sum.splits if_splits\<close>)
    with that show "R (stream i')" by blast
  qed
  from assms(2,3) show ?thesis
    by (auto simp: TcpInner_write_def enqueue_data_def flush_write_until_would_block_def Let_def
        dest!: loop split: option.splits sum.splits)
qed

text \<open>What every call on the stream keeps, a read keeps; and a clean stream is not why it fails.\<close>

lemma read_keeps_stream:
  assumes step: "\<And>s n r s'. R s \<Longrightarrow> ts_read ops s n = (r, s') \<Longrightarrow> R s'"
    and "R (stream j)" and "TcpInner_read_pure ops hc mc j = Some (r, j')"
  shows "R (stream j')"
proof -
  have loop: "R (stream (snd out))" if "rust_loop (read_turn_pure ops hc mc) (False, k) = Some out" "R (stream k)" for k out
    by (rule rust_loop_rule [OF that(1), where P = "\<lambda>p. R (stream (snd p))"])
      (use that(2) in \<open>auto simp: read_turn_pure_def inner_try_read_pure_def Let_def dest: step
        split: prod.splits sum.splits if_splits option.splits\<close>)
  from assms(2,3) show ?thesis
    by (auto simp: TcpInner_read_pure_def inner_try_read_pure_def dest: loop split: prod.splits sum.splits option.splits)
qed

lemma try_read_error: "try_read_pure hc mc rd = (Inl e, rd') \<Longrightarrow> \<not> stream_error e"
  by (auto simp: try_read_pure_def try_read_header_pure_def decrypt_def try_op_def stream_error_def io_failure_def Let_def
      split: if_splits sum.splits bool.splits DecryptContext.splits)

lemma clean_stream_error:
  assumes clean: "\<And>s n r s'. ts_read ops s n = (r, s') \<Longrightarrow> case r of Inl e \<Rightarrow> is_would_block e | Inr buf \<Rightarrow> buf \<noteq> []"
    and "TcpInner_read_pure ops hc mc j = Some (Inl e, j')"
  shows "\<not> stream_error e"
proof -
  have loop: "\<forall>e j'. out = (Inl e, j') \<longrightarrow> \<not> stream_error e"
    if "rust_loop (read_turn_pure ops hc mc) (False, k) = Some out" for k out
    by (rule rust_loop_rule [OF that, where P = "\<lambda>_. True"])
      (auto simp: read_turn_pure_def inner_try_read_pure_def Let_def dest!: clean try_read_error
        split: prod.splits sum.splits if_splits option.splits)
  from assms(2) show ?thesis
    by (auto simp: TcpInner_read_pure_def inner_try_read_pure_def dest: loop try_read_error split: prod.splits sum.splits option.splits)
qed

section \<open>What holds between two events\<close>

text \<open>The settings of the test: null contexts, bincode's encoding of a \<open>Vec<u8>\<close> and of a \<open>u32\<close>.\<close>

definition plain_codecs ::
  "('k \<Rightarrow> 'k \<Rightarrow> bool) \<Rightarrow> ('k, u32) codec \<Rightarrow> ('k, byte list) codec \<Rightarrow> byte list \<Rightarrow> bool" where
  "plain_codecs keypair hc mc data \<longleftrightarrow>
     linked keypair hc mc EncryptContext.Null DecryptContext.Null \<and>
     (\<forall>w. \<exists>hdr. serialise hc w = Inr hdr) \<and> (\<exists>bs. serialise mc data = Inr bs \<and> length bs = 8 + length data)"

lemma plain_frame:
  assumes "plain_codecs keypair hc mc data" and "length data = data_len"
  obtains f where "\<And>rng. serialize_with_len hc mc rng data EncryptContext.Null = Inr f"
    "body_fits DEFAULT_MAX_PAYLOAD_SIZE (EncryptContext.Null :: 'k EncryptContext) f"
proof -
  from assms(1) obtain bs where bs: "serialise mc data = Inr bs" "length bs = 8 + length data"
    by (auto simp: plain_codecs_def)
  from assms(1) obtain hdr where hdr: "serialise hc (of_nat (length bs)) = Inr hdr"
    unfolding plain_codecs_def by blast
  then have e: "encrypt hc 0 EncryptContext.Null (of_nat (length bs)) = Inr hdr" by (simp add: encrypt_def)
  have "length hdr = 4"
    using encrypted_header_length [OF _ e] assms(1) by (simp add: plain_codecs_def linked_def size_len_defs)
  then show thesis
    using bs hdr assms(2)
    by (intro that [of "hdr @ bs"])
      (simp_all add: serialize_with_len_def encrypt_def body_fits_def size_len_defs data_len_def DEFAULT_MAX_PAYLOAD_SIZE_def)
qed

definition new_reader :: "('s \<Rightarrow> byte list) \<Rightarrow> ('s, 'k) TcpInner \<Rightarrow> bool" where
  "new_reader taken j \<longleftrightarrow>
     read_len (msg_reader j) = 0 \<and> read_buffer (msg_reader j) = [] \<and> taken (stream j) = [] \<and>
     dec_ctx (msg_reader j) = DecryptContext.Null \<and> max_payload_size (msg_reader j) = DEFAULT_MAX_PAYLOAD_SIZE"

definition sending_side ::
  "'s tcp_ops \<Rightarrow> ('k, u32) codec \<Rightarrow> ('k, byte list) codec \<Rightarrow> byte list \<Rightarrow> ('s \<Rightarrow> byte list) \<Rightarrow> bool \<Rightarrow>
     ('s, 'k) TcpInner \<Rightarrow> bool" where
  "sending_side ops hc mc out_data sent begun i \<longleftrightarrow>
     (\<exists>i0 es. tcp_session ops hc mc sent i0 es i \<and> fresh sent i0 \<and> enc_ctx i0 = EncryptContext.Null \<and>
        conf (out_queue i0) = SocketConfig_default \<and> (\<exists>t f. es = (if begun then [(1, t, out_data, f)] else [])))"

definition receiving_side ::
  "'s tcp_ops \<Rightarrow> ('k, u32) codec \<Rightarrow> ('k, byte list) codec \<Rightarrow> ('s \<Rightarrow> byte list) \<Rightarrow> ('s \<Rightarrow> byte list) \<Rightarrow>
     ('s, 'k) TcpInner \<Rightarrow> bool" where
  "receiving_side ops hc mc arrived taken j \<longleftrightarrow>
     (\<exists>j0 rs. new_reader taken j0 \<and> tcp_reading ops hc mc taken j0 rs j \<and> handed_out rs = []) \<and>
     prefix (taken (stream j)) (arrived (stream j))"

text \<open>A read returns, and keeps what the system promises of the stream.\<close>

lemma loopbackD:
  assumes "loopback ops sent arrived taken"
  shows "tcp_write_contract ops sent" "tcp_read_contract ops taken" "tcp_progress ops" "never_breaks (ts_write ops)"
    and "ts_read ops s n = (r, s') \<Longrightarrow> arrived s' = arrived s \<and>
      (case r of Inl e \<Rightarrow> is_would_block e \<and> taken s' = arrived s' | Inr buf \<Rightarrow> buf \<noteq> [] \<and> prefix (taken s') (arrived s'))"
  using assms unfolding loopback_def by blast+

lemma loopback_read:
  assumes sys: "loopback ops sent arrived taken" and j: "prefix (taken (stream j)) (arrived (stream j))"
  obtains r j' where "TcpInner_read_pure ops hc mc j = Some (r, j')" "arrived (stream j') = arrived (stream j)"
    "prefix (taken (stream j')) (arrived (stream j'))"
proof -
  have "finite_backlog ops (\<lambda>s. length (arrived s) - length (taken s))"
    unfolding finite_backlog_def
  proof (intro allI impI)
    fix s buf s' assume r: "ts_read ops s BUF_LEN = (Inr buf, s')" "buf \<noteq> []"
    with loopbackD(5) [OF sys r(1)] tcp_read_contractD [OF loopbackD(2) [OF sys] r(1)]
    show "length (arrived s') - length (taken s') < length (arrived s) - length (taken s)"
      using prefix_length_le [of "taken s'" "arrived s'"] by (cases buf) auto
  qed
  from TcpInner_read_total [OF this] obtain r j' where read: "TcpInner_read_pure ops hc mc j = Some (r, j')" by blast
  have "prefix (taken (stream j')) (arrived (stream j')) \<and> arrived (stream j') = arrived (stream j)"
  proof (rule read_keeps_stream [OF _ _ read])
    show "prefix (taken s') (arrived s') \<and> arrived s' = arrived (stream j)"
      if "prefix (taken s) (arrived s) \<and> arrived s = arrived (stream j)" "ts_read ops s n = (r, s')" for s n r s'
      using loopbackD(5) [OF sys that(2)] that(1) by (auto split: sum.splits)
  qed (use j in simp)
  with read that show thesis by blast
qed

text \<open>A message written under the settings of the test may not be dropped.\<close>

lemma written_not_lost:
  assumes "delivered c [(1 :: u8, t, m, f)] out v" and "c = SocketConfig_default"
  shows "out \<noteq> [] \<or> v \<noteq> []"
proof (rule disjCI)
  assume "\<not> v \<noteq> []"
  moreover have "(1 :: u8) < conf_msg_drop_priority c" by (simp add: assms(2) config_defaults)
  ultimately show "out \<noteq> []" using assms unfolding delivered_def by fastforce
qed

text \<open>What the answer of a read says about the message of the test.\<close>

lemma transfer_answer:
  assumes sys: "loopback ops sent arrived taken" and codecs: "plain_codecs keypair hc mc out_data"
    and len: "length out_data = data_len"
    and i: "sending_side ops hc mc out_data sent begun i" and j: "receiving_side ops hc mc arrived taken j"
    and wire: "taken (stream j') @ missing = sent (stream i)"
    and read: "TcpInner_read_pure ops hc mc j = Some (r, j')"
  shows "\<forall>e. r = Inl e \<longrightarrow> stream_error e" and "\<forall>m. r = Inr (Some m) \<longrightarrow> m = out_data"
    and "r = Inr None \<and> tcp_pending i = [] \<and> missing = [] \<longrightarrow> \<not> begun"
proof -
  from i obtain i0 es t f where snd: "tcp_session ops hc mc sent i0 es i" "fresh sent i0"
    "enc_ctx i0 = EncryptContext.Null" "conf (out_queue i0) = SocketConfig_default"
    "es = (if begun then [(1, t, out_data, f)] else [])" by (auto simp: sending_side_def)
  from j obtain j0 rs where rcv: "new_reader taken j0" "tcp_reading ops hc mc taken j0 rs j" "handed_out rs = []"
    by (auto simp: receiving_side_def)
  note contract = loopbackD(1,2) [OF sys]
  have reading: "tcp_reading ops hc mc taken j0 (rs @ [r]) j'" 
    by (rule reading.called [OF rcv(2)]) (simp add: TcpInner_read_in_range read)
  obtain frame where frame: "\<And>rng. serialize_with_len hc mc rng out_data EncryptContext.Null = Inr frame"
    "body_fits DEFAULT_MAX_PAYLOAD_SIZE (EncryptContext.Null :: 'b EncryptContext) frame"
    using plain_frame [OF codecs len] by blast
  from tcp_session_invariant [OF snd(1) contract(1) snd(2)] have "framed hc mc (enc_ctx i0) es" by blast
  with frame snd(3,5) have fits: "\<forall>x\<in>set es. body_fits (max_payload_size (msg_reader j0)) (enc_ctx i0) (snd (snd (snd x)))"
    using rcv(1) by (auto simp: framed_def new_reader_def)
  have link: "linked keypair hc mc (enc_ctx i0) (dec_ctx (msg_reader j0))"
    using codecs snd(3) rcv(1) by (simp add: plain_codecs_def new_reader_def)
  from rcv(1) have new: "read_len (msg_reader j0) = 0" "read_buffer (msg_reader j0) = []" "taken (stream j0) = []"
    by (simp_all add: new_reader_def)
  from tcp_messages_arrive [OF snd(1) contract(1) snd(2) reading contract(2) new link fits wire]
  obtain out v left where out: "delivered (conf (out_queue i0)) es out v" "messages out = handed_out (rs @ [r]) @ left"
    "\<forall>e. Inl e \<in> set (rs @ [r]) \<longrightarrow> stream_error e"
    "tcp_pending i = [] \<and> missing = [] \<and> rs @ [r] \<noteq> [] \<and> r = Inr None \<longrightarrow> left = [] \<and> v = []"
    unfolding last_snoc by blast
  from out(3) show "\<forall>e. r = Inl e \<longrightarrow> stream_error e" by simp
  have "set (messages out) \<subseteq> {out_data}"
    using delivered_subset [OF out(1)] snd(5) by (fastforce split: if_splits)
  with out(2) show "\<forall>m. r = Inr (Some m) \<longrightarrow> m = out_data" by auto
  show "r = Inr None \<and> tcp_pending i = [] \<and> missing = [] \<longrightarrow> \<not> begun"
  proof
    assume none: "r = Inr None \<and> tcp_pending i = [] \<and> missing = []"
    with out(2,4) rcv(3) have "out = []" "v = []" by auto
    with out(1) snd(4,5) written_not_lost show "\<not> begun" by fastforce
  qed
qed

text \<open>A read finds nothing yet, when everything that has arrived is taken, or the message.\<close>

lemma transfer_read:
  assumes sys: "loopback ops sent arrived taken" and codecs: "plain_codecs keypair hc mc out_data"
    and len: "length out_data = data_len"
    and i: "sending_side ops hc mc out_data sent begun i" and j: "receiving_side ops hc mc arrived taken j"
    and wire: "prefix (arrived (stream j)) (sent (stream i))"
  obtains (waits) j' where "TcpInner_read_pure ops hc mc j = Some (Inr None, j')" "receiving_side ops hc mc arrived taken j'"
      "arrived (stream j') = arrived (stream j)"
      "begun \<Longrightarrow> tcp_pending i = [] \<Longrightarrow> arrived (stream j) \<noteq> sent (stream i)"
  | (message) j' where "TcpInner_read_pure ops hc mc j = Some (Inr (Some out_data), j')"
proof -
  note rd = loopbackD(5) [OF sys]
  obtain r j' where read: "TcpInner_read_pure ops hc mc j = Some (r, j')"
    and j': "arrived (stream j') = arrived (stream j)" "prefix (taken (stream j')) (arrived (stream j'))"
    using loopback_read [OF sys] j by (metis receiving_side_def)
  obtain missing where missing: "taken (stream j') @ missing = sent (stream i)"
    using j' wire by (metis prefix_def append.assoc)
  note answer = transfer_answer [OF sys codecs len i j missing read]
  consider e where "r = Inl e" | m where "r = Inr (Some m)" | "r = Inr None" by (metis obj_sumE option.exhaust)
  then show thesis
  proof cases
    case 1
    with answer(1) clean_stream_error [of ops hc mc j _ j'] rd read show thesis by (fastforce split: sum.splits)
  next
    case 2
    with answer(2) read show thesis by (intro message) simp
  next
    case 3
    have "arrived (stream j) \<noteq> sent (stream i)" if "begun" "tcp_pending i = []"
    proof
      assume "arrived (stream j) = sent (stream i)"
      moreover have "taken (stream j') = arrived (stream j')"
        using read_none_blocked [of ops hc mc j j'] read 3 rd by fastforce
      ultimately have "missing = []" using j'(1) missing by simp
      with answer(3) 3 that show False by blast
    qed
    moreover from j obtain j0 rs where rcv: "new_reader taken j0" "tcp_reading ops hc mc taken j0 rs j" "handed_out rs = []"
      by (auto simp: receiving_side_def)
    from read have "TcpInner_read ops hc mc j = Some (Done (r, j'))" by (simp add: TcpInner_read_in_range)
    with rcv(2) have "tcp_reading ops hc mc taken j0 (rs @ [r]) j'" by (rule reading.called)
    then have "receiving_side ops hc mc arrived taken j'"
      using rcv(1,3) j'(2) 3 unfolding receiving_side_def
      by (metis append_Nil handed_out_simps(2,4))
    ultimately show thesis using 3 read j'(1) by (intro waits [of j']) simp_all
  qed
qed

text \<open>What handling an event keeps.\<close>

definition transfer_ok ::
  "'s tcp_ops \<Rightarrow> ('k, u32) codec \<Rightarrow> ('k, byte list) codec \<Rightarrow> byte list \<Rightarrow>
     ('s \<Rightarrow> byte list) \<Rightarrow> ('s \<Rightarrow> byte list) \<Rightarrow> ('s \<Rightarrow> byte list) \<Rightarrow> ('s, 'k) transfer \<Rightarrow> bool" where
  "transfer_ok ops hc mc out_data sent arrived taken st \<longleftrightarrow>
     in_data st = [] \<and>
     (\<exists>i. sock1 st = Some i \<and> sending_side ops hc mc out_data sent (data_sent st) i \<and>
        (case sock2 st of
           None \<Rightarrow> True
         | Some None \<Rightarrow> False
         | Some (Some j) \<Rightarrow> receiving_side ops hc mc arrived taken j \<and> prefix (arrived (stream j)) (sent (stream i))))"

lemma receiving_side_new:
  "taken s = [] \<Longrightarrow> receiving_side ops hc mc arrived taken (TcpInner_new s)"
  unfolding receiving_side_def
  by (intro conjI exI [of _ "TcpInner_new s"] exI [of _ "[]"] reading.opened)
    (simp_all add: new_reader_def tcp_new_defs config_defaults LenDelimitedReader_new_def Let_def)

lemma sending_side_write:
  assumes sys: "loopback ops sent arrived taken" and codecs: "plain_codecs keypair hc mc out_data"
    and len: "length out_data = data_len" and i: "sending_side ops hc mc out_data sent begun i"
  obtains b i' where "TcpInner_write ops hc mc rng t t' (if begun then None else Some (out_data, 1)) i = Some (Done (Inr b, i'))"
    "sending_side ops hc mc out_data sent True i'" "prefix (sent (stream i)) (sent (stream i'))"
proof -
  from i obtain i0 es t0 f0 where snd: "tcp_session ops hc mc sent i0 es i" "fresh sent i0"
    "enc_ctx i0 = EncryptContext.Null" "conf (out_queue i0) = SocketConfig_default"
    "es = (if begun then [(1, t0, out_data, f0)] else [])" by (auto simp: sending_side_def)
  from sys have contract: "tcp_write_contract ops sent" "tcp_progress ops" "never_breaks (ts_write ops)"
    unfolding loopback_def by blast+
  from tcp_session_invariant [OF snd(1) contract(1) snd(2)] have ok: "tcp_ok i" "enc_ctx i = EncryptContext.Null"
    using snd(3) by simp_all
  obtain frame where frame: "\<And>rng. serialize_with_len hc mc rng out_data EncryptContext.Null = Inr frame"
    using plain_frame [OF codecs len] by blast
  let ?msg = "if begun then None else Some (out_data, 1)"
  obtain out where w: "TcpInner_write ops hc mc rng t t' ?msg i = Some out"
    using TcpInner_write_returns [OF contract(2) ok(1)] by blast
  from TcpInner_write_outcome [OF w ok(1)] obtain r i' where "out = Done (r, i')" by blast
  with w have w: "TcpInner_write ops hc mc rng t t' ?msg i = Some (Done (r, i'))" by simp
  show thesis
  proof (cases r)
    case (Inl e)
    with write_fails_to_serialise [OF contract(3)] w ok(2) frame show thesis by (fastforce split: if_splits)
  next
    case (Inr b)
    let ?new = "if begun then None else Some (1, out_data, frame)"
    have "tcp_encode hc mc (enc_ctx i) (rng, ?msg) = Inr ?new" using ok(2) frame by simp
    from session.wrote [OF snd(1) _ this] w Inr
    have "tcp_session ops hc mc sent i0 (es @ arrival t' ?new) i'" by simp
    moreover have "es @ arrival t' ?new = [if begun then (1, t0, out_data, f0) else (1, t', out_data, frame)]"
      using snd(5) by (simp add: arrival_def)
    ultimately have "sending_side ops hc mc out_data sent True i'"
      using snd(2-4) unfolding sending_side_def by (cases begun) auto
    moreover have "prefix (sent (stream i)) (sent (stream i'))"
      using write_keeps_stream [OF _ _ w, where R = "\<lambda>s. prefix (sent (stream i)) (sent s)"]
        write_contractD [OF contract(1)] by (fastforce split: sum.splits)
    ultimately show thesis using w Inr by (intro that [of b i']) simp_all
  qed
qed

text \<open>Handling an event of the listener, of the first and of the second socket.\<close>

lemma transfer_accepts:
  assumes sys: "loopback ops sent arrived taken" and ok: "transfer_ok ops hc mc out_data sent arrived taken st"
    and s: "arrived s = []" "taken s = []"
  obtains st' where "transfer_event ops hc mc reg out_data LISTENER_TOKEN (Inr s) rng t t' st = Some (Inl st')"
    "transfer_ok ops hc mc out_data sent arrived taken st'"
proof -
  from sys obtain s' where "ts_register ops s (the_poll reg) SOCKET2_TOKEN (readable reg) (edge reg) = (Inr (), s')"
    "arrived s' = []" "taken s' = []"
    using s unfolding loopback_def by metis
  with ok receiving_side_new [of taken s' ops hc mc arrived] show thesis
    by (intro that [of "st\<lparr> sock2 := Some (TcpSock_wrap s') \<rparr>"])
      (auto simp: transfer_event_def token_defs TcpSock_wrap_def transfer_ok_def tcp_new_defs Let_def)
qed

lemma transfer_writes:
  assumes sys: "loopback ops sent arrived taken" and codecs: "plain_codecs keypair hc mc out_data"
    and len: "length out_data = data_len" and ok: "transfer_ok ops hc mc out_data sent arrived taken st"
  obtains st' where "transfer_event ops hc mc reg out_data SOCKET1_TOKEN accepted rng t t' st = Some (Inl st')"
    "transfer_ok ops hc mc out_data sent arrived taken st'"
proof -
  from ok obtain i where i: "sock1 st = Some i" "sending_side ops hc mc out_data sent (data_sent st) i"
    by (auto simp: transfer_ok_def)
  from sending_side_write [OF sys codecs len i(2), of rng t t'] obtain b i' where w:
    "TcpInner_write ops hc mc rng t t' (if data_sent st then None else Some (out_data, 1)) i = Some (Done (Inr b, i'))"
    "sending_side ops hc mc out_data sent True i'" "prefix (sent (stream i)) (sent (stream i'))" .
  have "transfer_event ops hc mc reg out_data SOCKET1_TOKEN accepted rng t t' st =
      Some (Inl (st\<lparr> sock1 := Some i', data_sent := True \<rparr>))"
    using w(1) i(1)
    by (cases st) (auto simp: transfer_event_def token_defs TcpSock_write_def with_inner_loop_def split: if_splits)
  moreover have "transfer_ok ops hc mc out_data sent arrived taken (st\<lparr> sock1 := Some i', data_sent := True \<rparr>)"
    using ok i(1) w(2,3) by (auto simp: transfer_ok_def split: option.splits elim: prefix_order.trans)
  ultimately show thesis by (rule that)
qed

lemma transfer_reads:
  assumes sys: "loopback ops sent arrived taken" and codecs: "plain_codecs keypair hc mc out_data"
    and len: "length out_data = data_len" and ok: "transfer_ok ops hc mc out_data sent arrived taken st"
    and there: "sock2 st \<noteq> None"
  obtains (passed) "transfer_event ops hc mc reg out_data SOCKET2_TOKEN accepted rng t t' st = Some (Inr (Done ()))"
  | (waits) st' i j where "transfer_event ops hc mc reg out_data SOCKET2_TOKEN accepted rng t t' st = Some (Inl st')"
      "transfer_ok ops hc mc out_data sent arrived taken st'" "sock1 st = Some i" "sock2 st = Some (Some j)"
      "data_sent st \<Longrightarrow> tcp_pending i = [] \<Longrightarrow> arrived (stream j) \<noteq> sent (stream i)"
proof -
  from ok obtain i where i: "sock1 st = Some i" "in_data st = []"
    "sending_side ops hc mc out_data sent (data_sent st) i" by (auto simp: transfer_ok_def)
  with ok there obtain j where j: "sock2 st = Some (Some j)" "receiving_side ops hc mc arrived taken j"
    "prefix (arrived (stream j)) (sent (stream i))" by (auto simp: transfer_ok_def split: option.splits)
  have ev: "transfer_event ops hc mc reg out_data SOCKET2_TOKEN accepted rng t t' st =
      (case receive_turn ops hc mc out_data (Some j, []) of
         Inr (Some (Inl (s2, data))) \<Rightarrow> Some (Inl (st\<lparr> sock2 := Some s2, in_data := data \<rparr>))
       | Inr (Some (Inr out)) \<Rightarrow> Some (Inr out)
       | Inr None \<Rightarrow> None
       | Inl p \<Rightarrow> transfer_event ops hc mc reg out_data SOCKET2_TOKEN accepted rng t t' st)"
    using j(1) i(2)
    by (auto simp: transfer_event_def token_defs rust_loop_Inr split: sum.split option.split)
  from sys codecs len i(3) j(2,3) show thesis
  proof (cases rule: transfer_read)
    case (message j')
    with ev len passed show thesis by (simp add: receive_turn_def TcpSock_read_in_range with_inner_loop_def)
  next
    case (waits j')
    show thesis
    proof (rule that(2) [OF _ _ i(1) j(1) waits(4)])
      show "transfer_event ops hc mc reg out_data SOCKET2_TOKEN accepted rng t t' st =
          Some (Inl (st\<lparr> sock2 := Some (Some j'), in_data := [] \<rparr>))"
        using ev waits(1) by (simp add: receive_turn_def TcpSock_read_in_range with_inner_loop_def)
      show "transfer_ok ops hc mc out_data sent arrived taken (st\<lparr> sock2 := Some (Some j'), in_data := [] \<rparr>)"
        using i j(3) waits(2,3) by (simp add: transfer_ok_def)
    qed
  qed
qed

lemma transfer_event_ok:
  assumes sys: "loopback ops sent arrived taken" and codecs: "plain_codecs keypair hc mc out_data"
    and len: "length out_data = data_len" and ok: "transfer_ok ops hc mc out_data sent arrived taken st"
    and poll: "token = LISTENER_TOKEN \<and> (\<exists>s. accepted = Inr s \<and> arrived s = [] \<and> taken s = []) \<or>
      token = SOCKET1_TOKEN \<or> token = SOCKET2_TOKEN \<and> sock2 st \<noteq> None"
  shows "\<exists>r. transfer_event ops hc mc reg out_data token accepted rng t t' st = Some r \<and>
    (\<forall>st'. r = Inl st' \<longrightarrow> transfer_ok ops hc mc out_data sent arrived taken st') \<and> r \<noteq> Inr Panicked \<and>
    (token = SOCKET2_TOKEN \<and> data_sent st \<and>
       (\<exists>i j. sock1 st = Some i \<and> sock2 st = Some (Some j) \<and> tcp_pending i = [] \<and>
          arrived (stream j) = sent (stream i)) \<longrightarrow> r = Inr (Done ()))"
proof -
  from poll consider (listener) s where "token = LISTENER_TOKEN" "accepted = Inr s" "arrived s = []" "taken s = []"
    | (socket1) "token = SOCKET1_TOKEN" | (socket2) "token = SOCKET2_TOKEN" "sock2 st \<noteq> None" by blast
  then show ?thesis
  proof cases
    case listener
    from transfer_accepts [OF sys ok listener(3,4), of reg rng t t'] listener(1,2) show ?thesis
      by (auto simp: token_defs)
  next
    case socket1
    from transfer_writes [OF sys codecs len ok, of reg accepted rng t t'] socket1 show ?thesis
      by (auto simp: token_defs)
  next
    case socket2
    from sys codecs len ok socket2(2) show ?thesis
      by (rule transfer_reads [where reg = reg and accepted = accepted and rng = rng and t = t and t' = t'])
        (use socket2(1) in auto)
  qed
qed

lemma sending_side_same:
  "sending_side ops hc mc out_data sent begun i \<Longrightarrow> same_sending sent i i' \<Longrightarrow>
     sending_side ops hc mc out_data sent begun i'"
  unfolding sending_side_def by (blast intro: session.elsewhere)

lemma receiving_side_same:
  "receiving_side ops hc mc arrived taken j \<Longrightarrow> same_receiving taken j j' \<Longrightarrow>
     prefix (taken (stream j')) (arrived (stream j')) \<Longrightarrow> receiving_side ops hc mc arrived taken j'"
  unfolding receiving_side_def by (blast intro: reading.elsewhere)

lemma transfer_start_ok:
  fixes st :: "('s, 'k) transfer"
  assumes sys: "loopback ops sent arrived taken" and "transfer_start ops reg w addr = Done st"
  shows "transfer_ok ops hc mc out_data sent arrived taken st"
proof -
  from assms(2) obtain s s' where s: "ts_connect ops w addr = Inr s"
    "ts_register ops s (the_poll reg) SOCKET1_TOKEN (writable reg) (edge reg) = (Inr (), s')"
    "st = \<lparr> sock1 = Some ((TcpInner_new_with_conf s SocketConfig_default)\<lparr> stream := s' \<rparr>), sock2 = None,
       data_sent = False, in_data = [] \<rparr>"
    by (auto simp: transfer_start_def TcpSock_connect_def TcpSock_connect_with_conf_def TcpSock_wrap_with_conf_def
        TcpSock_register_def with_inner_io_def TcpInner_register_def try_op_def TcpInner_new_with_conf_def Let_def
        split: sum.splits prod.splits)
  let ?i = "(TcpInner_new_with_conf s SocketConfig_default)\<lparr> stream := s' \<rparr> :: ('s, 'k) TcpInner"
  from sys s(1,2) have "sent s = []" "sent s' = sent s" unfolding loopback_def by (blast, metis prod.inject)
  with fresh_new [of sent s "SocketConfig_default :: 'k SocketConfig"] have "fresh sent ?i"
    by (simp add: fresh_def tcp_ok_def)
  moreover have "enc_ctx ?i = EncryptContext.Null" "conf (out_queue ?i) = SocketConfig_default"
    by (simp_all add: TcpInner_new_with_conf_def config_defaults OutQueue_new_def Let_def)
  ultimately have "sending_side ops hc mc out_data sent False ?i"
    unfolding sending_side_def by (metis session.opened)
  with s(3) show ?thesis by (simp add: transfer_ok_def)
qed

lemma transfer_run_ok:
  assumes sys: "loopback ops sent arrived taken" and codecs: "plain_codecs keypair hc mc out_data"
    and len: "length out_data = data_len" and "transfer_run ops hc mc reg out_data sent arrived taken st"
  shows "transfer_ok ops hc mc out_data sent arrived taken st"
  using assms(4)
proof induction
  case (started w addr st)
  from transfer_start_ok [OF sys started] show ?case .
next
  case (moved st i s1 sock2' s2)
  then have "sending_side ops hc mc out_data sent (data_sent st) i" by (simp add: transfer_ok_def)
  then have "sending_side ops hc mc out_data sent (data_sent st) (i\<lparr> stream := s1 \<rparr>)"
    by (rule sending_side_same) (simp add: same_sending_def moved(3))
  moreover have "receiving_side ops hc mc arrived taken (j\<lparr> stream := s2 \<rparr>)"
    if "receiving_side ops hc mc arrived taken j" "taken s2 = taken (stream j)" "prefix (taken s2) (arrived s2)" for j
    using that by (auto elim: receiving_side_same simp: same_receiving_def)
  ultimately show ?case using moved by (auto simp: transfer_ok_def split: option.splits)
next
  case (handled st token accepted rng t t' st')
  have "token = LISTENER_TOKEN \<and> (\<exists>s. accepted = Inr s \<and> arrived s = [] \<and> taken s = []) \<or>
      token = SOCKET1_TOKEN \<or> token = SOCKET2_TOKEN \<and> sock2 st \<noteq> None"
    using handled(2,3) by (auto simp: transfer_event_def split: if_splits sum.splits option.splits)
  from transfer_event_ok [OF sys codecs len handled(4) this, of reg rng t t'] handled(2) show ?case by auto
qed

section \<open>Properties\<close>

text \<open>
  C15. The integration test cannot fail: in every state the test reaches on a loopback connection, however
  the poll orders the events and however slowly bytes move in between, handling the next event returns and does not
  panic: no call of the sockets is refused, and data that has the right length is the data sent. Once the message
  has left the first socket and arrived at the second, the next event of the second ends the test,
  and it has passed.
\<close>

theorem tcp_transfer_test_passes:
  assumes "loopback ops sent arrived taken" and "plain_codecs keypair hc mc (random_vec gen data_len)"
    and "transfer_run ops hc mc reg (random_vec gen data_len) sent arrived taken st"
    and "token = LISTENER_TOKEN \<and> (\<exists>s. accepted = Inr s \<and> arrived s = [] \<and> taken s = []) \<or>
      token = SOCKET1_TOKEN \<or> token = SOCKET2_TOKEN \<and> sock2 st \<noteq> None"
  shows "\<exists>r. transfer_event ops hc mc reg (random_vec gen data_len) token accepted rng t t' st = Some r \<and>
    r \<noteq> Inr Panicked \<and>
    (token = SOCKET2_TOKEN \<and> data_sent st \<and>
       (\<exists>i j. sock1 st = Some i \<and> sock2 st = Some (Some j) \<and> tcp_pending i = [] \<and>
          arrived (stream j) = sent (stream i)) \<longrightarrow> r = Inr (Done ()))"
proof -
  have len: "length (random_vec gen data_len) = data_len" by (simp add: random_vec_def)
  from transfer_event_ok [OF assms(1,2) len transfer_run_ok [OF assms(1,2) len assms(3)] assms(4), of reg rng t t']
  show ?thesis by blast
qed

text \<open>A stream as what it has sent, what it has handed out and what has arrived behind that.\<close>

type_synonym loop = "byte list \<times> byte list \<times> byte list"

definition loop_ops :: "loop tcp_ops" where
  "loop_ops = \<lparr> ts_connect = (\<lambda>w addr. Inr ([], [], [])),
     ts_read = (\<lambda>(out, given, ahead) n.
       if ahead = [] then (Inl (IoError WouldBlock []), out, given, []) else (Inr ahead, out, given @ ahead, [])),
     ts_write = (\<lambda>(out, r) d. (Inr (length d), out @ d, r)),
     ts_set_linger = (\<lambda>s d. (Inr (), s)), ts_set_ttl = (\<lambda>s t. (Inr (), s)), ts_ttl = (\<lambda>s. (Inr 64, s)),
     ts_local_addr = (\<lambda>s. (Inr (V4 0 0), s)), ts_peer_addr = (\<lambda>s. (Inr (V4 0 0), s)),
     ts_take_error = (\<lambda>s. (Inr None, s)), ts_register = (\<lambda>s p t i opt. (Inr (), s)),
     ts_reregister = (\<lambda>s p t i opt. (Inr (), s)), ts_deregister = (\<lambda>s p. (Inr (), s)),
     ts_shutdown_both = (\<lambda>s. (Inr (), s)) \<rparr>"

definition loop_arrived :: "loop \<Rightarrow> byte list" where
  "loop_arrived s = (case s of (out, given, ahead) \<Rightarrow> given @ ahead)"

definition loop_taken :: "loop \<Rightarrow> byte list" where
  "loop_taken s = (case s of (out, given, ahead) \<Rightarrow> given)"

lemma loop_loopback: "loopback loop_ops fst loop_arrived loop_taken"
  by (auto simp: loopback_def tcp_write_contract_def tcp_progress_def never_breaks_def tcp_read_contract_def
      loop_ops_def loop_arrived_def loop_taken_def is_would_block_def split: prod.splits sum.splits if_splits)

text \<open>Bincode's vectors of bytes start with their length, which is not looked at here.\<close>

definition vec_codec :: "(nat, byte list) codec" where
  "vec_codec = bytes_codec\<lparr> serialise := (\<lambda>m. Inr (replicate 8 0 @ m)), deserialise := (\<lambda>bs. Inr (drop 8 bs)) \<rparr>"

lemma vec_plain: "plain_codecs (=) le32_codec vec_codec data"
  using sample_linked
  by (auto simp: plain_codecs_def linked_def codec_contract_def vec_codec_def bytes_codec_def le32_codec_def)

theorem tcp_transfer_test_passes_witness:
  "\<exists>st r. transfer_start loop_ops sample_registration1 ([], [], []) (V4 0 0) = Done (st :: (loop, nat) transfer) \<and>
    transfer_event loop_ops le32_codec vec_codec sample_registration1 (random_vec (\<lambda>n. 7) data_len) SOCKET1_TOKEN
      (Inl (IoError OtherKind [])) 0 (\<lambda>_. 0) 0 st = Some r \<and> r \<noteq> Inr Panicked"
proof -
  let ?st = "\<lparr> sock1 = TcpSock_wrap_with_conf ([], [], []) SocketConfig_default, sock2 = None, data_sent = False,
    in_data = [] \<rparr> :: (loop, nat) transfer"
  have st: "transfer_start loop_ops sample_registration1 ([], [], []) (V4 0 0) = Done ?st"
    by (simp add: transfer_start_def TcpSock_connect_def TcpSock_connect_with_conf_def TcpSock_wrap_with_conf_def
        TcpSock_register_def with_inner_io_def TcpInner_register_def loop_ops_def TcpInner_new_with_conf_def Let_def)
  from tcp_transfer_test_passes [OF loop_loopback vec_plain transfer_run.started [OF st], where token = SOCKET1_TOKEN]
  obtain r where "transfer_event loop_ops le32_codec vec_codec sample_registration1 (random_vec (\<lambda>n. 7) data_len)
      SOCKET1_TOKEN (Inl (IoError OtherKind [])) 0 (\<lambda>_. 0) 0 ?st = Some r" "r \<noteq> Inr Panicked" by blast
  with st show ?thesis by blast
qed

end
