(* ===== verification/Udp_Sock.thy ===== *)
theory Udp_Sock
  imports Send_Order Recv_Loop
begin

text \<open>
  \<open>src/src/udp.rs\<close>: the UDP socket. \<open>UdpInner\<close> is the struct \<open>Inner\<close> of that file and
  \<open>UdpSock\<close> the option around it. A socket has two independent halves: the connected one
  (\<open>read\<close>, \<open>write\<close>) and the addressed one (\<open>read_frm\<close>, \<open>write_to\<close>), each with its own receive
  buffer, queue and message being written.
\<close>

type_synonym addressed = "byte list \<times> SocketAddr"

record ('s, 'k) UdpInner =
  sock :: 's
  peer :: "SocketAddr option"
  read_buffer :: "byte list list"
  read_buffer_2 :: "addressed list"
  out_queue :: "('k, byte list) OutQueue"
  current_write :: "byte list option"
  out_queue2 :: "('k, addressed) OutQueue"
  current_write_2 :: "addressed option"
  enc_ctx :: "'k EncryptContext"
  dec_ctx :: "'k DecryptContext"

type_synonym ('s, 'k) UdpSock = "('s, 'k) UdpInner option"

section \<open>\<open>Inner\<close>\<close>

definition UdpInner_new :: "'s \<Rightarrow> 'k SocketConfig \<Rightarrow> ('s, 'k) UdpInner" where
  "UdpInner_new s c =
     \<lparr> sock = s, peer = None, read_buffer = [], read_buffer_2 = [], out_queue = OutQueue_new c,
       current_write = None, out_queue2 = OutQueue_new c, current_write_2 = None,
       enc_ctx = conf_enc_ctx c, dec_ctx = conf_dec_ctx c \<rparr>"

definition UdpInner_set_encrypt_ctx :: "'k EncryptContext \<Rightarrow> ('s, 'k) UdpInner \<Rightarrow> ('s, 'k) UdpInner" where
  "UdpInner_set_encrypt_ctx ctx i = i\<lparr> enc_ctx := ctx \<rparr>"

definition UdpInner_set_decrypt_ctx :: "'k DecryptContext \<Rightarrow> ('s, 'k) UdpInner \<Rightarrow> ('s, 'k) UdpInner" where
  "UdpInner_set_decrypt_ctx ctx i = i\<lparr> dec_ctx := ctx \<rparr>"

subsection \<open>Receiving\<close>

text \<open>The two instances of the trait \<open>IsEmpty\<close>.\<close>

definition is_empty_vec :: "byte list \<Rightarrow> bool" where
  "is_empty_vec d \<longleftrightarrow> d = []"

definition is_empty_addressed :: "addressed \<Rightarrow> bool" where
  "is_empty_addressed d \<longleftrightarrow> fst d = []"

datatype 'a RecvResult = WouldBlock "'a option" | ContinueRecv

text \<open>Buffers a received datagram, unless it is empty, and decides when to stop receiving.\<close>

definition handle_recv_res ::
  "('a \<Rightarrow> bool) \<Rightarrow> io_error + 'a \<Rightarrow> 'a list \<Rightarrow> 'a RecvResult res \<times> 'a list" where
  "handle_recv_res is_empty recv_res buffered =
     (case recv_res of
        Inr msg \<Rightarrow>
          (Inr ContinueRecv, if \<not> is_empty msg then buffered @ [msg] else buffered)
      | Inl error \<Rightarrow>
          (if kind error = ErrorKind.WouldBlock \<or> kind error = Interrupted
           then (case buffered of
                   [] \<Rightarrow> (Inr (WouldBlock None), [])
                 | msg # rest \<Rightarrow> (Inr (WouldBlock (Some msg)), rest))
           else (Inl (Io error), buffered)))"

text \<open>\<open>Ok(Some(self.dec_ctx.decrypt(&data)?))\<close>, without and with the sender's address.\<close>

definition decrypt_some :: "('k, 'm) codec \<Rightarrow> 'k DecryptContext \<Rightarrow> byte list \<Rightarrow> 'm option res" where
  "decrypt_some mc ctx data = try_op id (decrypt mc ctx data) (\<lambda>m. Inr (Some m))"

definition decrypt_some_from ::
  "('k, 'm) codec \<Rightarrow> 'k DecryptContext \<Rightarrow> addressed \<Rightarrow> ('m \<times> SocketAddr) option res" where
  "decrypt_some_from mc ctx = (\<lambda>(data, from). try_op id (decrypt mc ctx data) (\<lambda>m. Inr (Some (m, from))))"

text \<open>One turn of the \<open>loop\<close> in \<open>Inner::read\<close>, and of the one in \<open>Inner::read_frm\<close>.\<close>

definition recv_turn ::
  "'s udp_ops \<Rightarrow> ('k, 'm) codec \<Rightarrow> ('s, 'k) UdpInner \<Rightarrow>
     ('s, 'k) UdpInner + ('m option res \<times> ('s, 'k) UdpInner)" where
  "recv_turn ops mc i =
     (case us_recv ops (sock i) BUF_LEN of
        (res, s) \<Rightarrow>
          (case handle_recv_res is_empty_vec res (read_buffer i) of
             (r, buf) \<Rightarrow>
               (let i = i\<lparr> sock := s, read_buffer := buf \<rparr> in
                case r of
                  Inl e \<Rightarrow> Inr (Inl e, i)
                | Inr ContinueRecv \<Rightarrow> Inl i
                | Inr (WouldBlock (Some data)) \<Rightarrow> Inr (decrypt_some mc (dec_ctx i) data, i)
                | Inr (WouldBlock None) \<Rightarrow> Inr (Inr None, i))))"

definition UdpInner_read ::
  "'s udp_ops \<Rightarrow> ('k, 'm) codec \<Rightarrow> ('s, 'k) UdpInner \<Rightarrow> ('m option res \<times> ('s, 'k) UdpInner) option" where
  "UdpInner_read ops mc i =
     (case read_buffer i of
        data # rest \<Rightarrow> Some (decrypt_some mc (dec_ctx i) data, i\<lparr> read_buffer := rest \<rparr>)
      | [] \<Rightarrow> rust_loop (recv_turn ops mc) i)"

definition recv_from_turn ::
  "'s udp_ops \<Rightarrow> ('k, 'm) codec \<Rightarrow> ('s, 'k) UdpInner \<Rightarrow>
     ('s, 'k) UdpInner + (('m \<times> SocketAddr) option res \<times> ('s, 'k) UdpInner)" where
  "recv_from_turn ops mc i =
     (case us_recv_from ops (sock i) BUF_LEN of
        (res, s) \<Rightarrow>
          (case handle_recv_res is_empty_addressed res (read_buffer_2 i) of
             (r, buf) \<Rightarrow>
               (let i = i\<lparr> sock := s, read_buffer_2 := buf \<rparr> in
                case r of
                  Inl e \<Rightarrow> Inr (Inl e, i)
                | Inr ContinueRecv \<Rightarrow> Inl i
                | Inr (WouldBlock (Some data)) \<Rightarrow> Inr (decrypt_some_from mc (dec_ctx i) data, i)
                | Inr (WouldBlock None) \<Rightarrow> Inr (Inr None, i))))"

definition UdpInner_read_frm ::
  "'s udp_ops \<Rightarrow> ('k, 'm) codec \<Rightarrow> ('s, 'k) UdpInner \<Rightarrow>
     (('m \<times> SocketAddr) option res \<times> ('s, 'k) UdpInner) option" where
  "UdpInner_read_frm ops mc i =
     (case read_buffer_2 i of
        data # rest \<Rightarrow> Some (decrypt_some_from mc (dec_ctx i) data, i\<lparr> read_buffer_2 := rest \<rparr>)
      | [] \<Rightarrow> rust_loop (recv_from_turn ops mc) i)"

subsection \<open>Sending\<close>

text \<open>A message that was sent in part or not at all becomes the message being written again.\<close>

definition handle_send_res ::
  "io_error + usize \<Rightarrow> 'a option \<Rightarrow> usize \<Rightarrow> 'a \<Rightarrow> bool res \<times> 'a option" where
  "handle_send_res send_res current msg_len msg =
     (case send_res of
        Inr bytes_txd \<Rightarrow> (Inr True, if bytes_txd < msg_len then Some msg else current)
      | Inl error \<Rightarrow>
          (if kind error = ErrorKind.WouldBlock \<or> kind error = Interrupted
           then (Inr False, Some msg)
           else (Inl (Io error), current)))"

definition send_turn ::
  "'s udp_ops \<Rightarrow> ('s, 'k) UdpInner \<Rightarrow> ('s, 'k) UdpInner + (bool res \<times> ('s, 'k) UdpInner) outcome" where
  "send_turn ops i =
     (case take_or_next next_msg (current_write i) (out_queue i) of
        Panicked \<Rightarrow> Inr Panicked
      | Done (None, q) \<Rightarrow> Inr (Done (Inr True, i\<lparr> current_write := None, out_queue := q \<rparr>))
      | Done (Some data, q) \<Rightarrow>
          (case us_send ops (sock i) data of
             (res, s) \<Rightarrow>
               (case handle_send_res res None (length data) data of
                  (r, current) \<Rightarrow>
                    (let i = i\<lparr> sock := s, current_write := current, out_queue := q \<rparr> in
                     case r of
                       Inl e \<Rightarrow> Inr (Done (Inl e, i))
                     | Inr True \<Rightarrow> Inl i
                     | Inr False \<Rightarrow> Inr (Done (Inr False, i))))))"

definition UdpInner_flush_write ::
  "'s udp_ops \<Rightarrow> ('s, 'k) UdpInner \<Rightarrow> (bool res \<times> ('s, 'k) UdpInner) outcome option" where
  "UdpInner_flush_write ops i = rust_loop (send_turn ops) i"

definition send_to_turn ::
  "'s udp_ops \<Rightarrow> ('s, 'k) UdpInner \<Rightarrow> ('s, 'k) UdpInner + (bool res \<times> ('s, 'k) UdpInner) outcome" where
  "send_to_turn ops i =
     (case take_or_next next_msg (current_write_2 i) (out_queue2 i) of
        Panicked \<Rightarrow> Inr Panicked
      | Done (None, q) \<Rightarrow> Inr (Done (Inr True, i\<lparr> current_write_2 := None, out_queue2 := q \<rparr>))
      | Done (Some (data, dest), q) \<Rightarrow>
          (case us_send_to ops (sock i) data dest of
             (res, s) \<Rightarrow>
               (case handle_send_res res None (length data) (data, dest) of
                  (r, current) \<Rightarrow>
                    (let i = i\<lparr> sock := s, current_write_2 := current, out_queue2 := q \<rparr> in
                     case r of
                       Inl e \<Rightarrow> Inr (Done (Inl e, i))
                     | Inr True \<Rightarrow> Inl i
                     | Inr False \<Rightarrow> Inr (Done (Inr False, i))))))"

definition UdpInner_flush_write_to ::
  "'s udp_ops \<Rightarrow> ('s, 'k) UdpInner \<Rightarrow> (bool res \<times> ('s, 'k) UdpInner) outcome option" where
  "UdpInner_flush_write_to ops i = rust_loop (send_to_turn ops) i"

text \<open>As in \<open>tcp.rs\<close>, \<open>t_drop\<close> and \<open>t_push\<close> are the clock readings of \<open>drop_expired\<close> and the one of
  \<open>push\<close>.\<close>

definition UdpInner_write ::
  "'s udp_ops \<Rightarrow> ('k, 'm) codec \<Rightarrow> nat \<Rightarrow> readings \<Rightarrow> instant \<Rightarrow> ('m \<times> Priority) option \<Rightarrow>
     ('s, 'k) UdpInner \<Rightarrow> (bool res \<times> ('s, 'k) UdpInner) outcome option" where
  "UdpInner_write ops mc rng t_drop t_push msg i =
     (let i = i\<lparr> out_queue := snd (drop_expired t_drop (out_queue i)) \<rparr> in
      case msg of
        None \<Rightarrow> UdpInner_flush_write ops i
      | Some (msg, priority) \<Rightarrow>
          (case encrypt mc rng (enc_ctx i) msg of
             Inl e \<Rightarrow> Some (Done (Inl e, i))
           | Inr data \<Rightarrow>
               UdpInner_flush_write ops
                 (i\<lparr> out_queue := push t_push data priority (out_queue i) \<rparr>)))"

definition UdpInner_write_to ::
  "'s udp_ops \<Rightarrow> ('k, 'm) codec \<Rightarrow> nat \<Rightarrow> readings \<Rightarrow> instant \<Rightarrow>
     ('m \<times> SocketAddr \<times> Priority) option \<Rightarrow>
     ('s, 'k) UdpInner \<Rightarrow> (bool res \<times> ('s, 'k) UdpInner) outcome option" where
  "UdpInner_write_to ops mc rng t_drop t_push msg i =
     (let i = i\<lparr> out_queue2 := snd (drop_expired t_drop (out_queue2 i)) \<rparr> in
      case msg of
        None \<Rightarrow> UdpInner_flush_write_to ops i
      | Some (msg, dest, priority) \<Rightarrow>
          (case encrypt mc rng (enc_ctx i) msg of
             Inl e \<Rightarrow> Some (Done (Inl e, i))
           | Inr data \<Rightarrow>
               UdpInner_flush_write_to ops
                 (i\<lparr> out_queue2 := push t_push (data, dest) priority (out_queue2 i) \<rparr>)))"

subsection \<open>\<open>Evented\<close>\<close>

definition UdpInner_register ::
  "'s udp_ops \<Rightarrow> Poll \<Rightarrow> Token \<Rightarrow> Ready \<Rightarrow> PollOpt \<Rightarrow> ('s, 'k) UdpInner \<Rightarrow>
     (io_error + unit) \<times> ('s, 'k) UdpInner" where
  "UdpInner_register ops poll token interest opts i =
     (case us_register ops (sock i) poll token interest opts of (r, s) \<Rightarrow> (r, i\<lparr> sock := s \<rparr>))"

definition UdpInner_reregister ::
  "'s udp_ops \<Rightarrow> Poll \<Rightarrow> Token \<Rightarrow> Ready \<Rightarrow> PollOpt \<Rightarrow> ('s, 'k) UdpInner \<Rightarrow>
     (io_error + unit) \<times> ('s, 'k) UdpInner" where
  "UdpInner_reregister ops poll token interest opts i =
     (case us_reregister ops (sock i) poll token interest opts of (r, s) \<Rightarrow> (r, i\<lparr> sock := s \<rparr>))"

definition UdpInner_deregister ::
  "'s udp_ops \<Rightarrow> Poll \<Rightarrow> ('s, 'k) UdpInner \<Rightarrow> (io_error + unit) \<times> ('s, 'k) UdpInner" where
  "UdpInner_deregister ops poll i =
     (case us_deregister ops (sock i) poll of (r, s) \<Rightarrow> (r, i\<lparr> sock := s \<rparr>))"

section \<open>\<open>UdpSock\<close>\<close>

definition UdpSock_default :: "('s, 'k) UdpSock" where
  "UdpSock_default = None"

definition UdpSock_wrap_with_conf :: "'s \<Rightarrow> 'k SocketConfig \<Rightarrow> ('s, 'k) UdpSock" where
  "UdpSock_wrap_with_conf s c = Some (UdpInner_new s c)"

definition UdpSock_wrap :: "'s \<Rightarrow> ('s, 'k) UdpSock" where
  "UdpSock_wrap s = UdpSock_wrap_with_conf s SocketConfig_default"

text \<open>\<open>w\<close> is the state of the operating system before the call.\<close>

definition UdpSock_bind_with_conf ::
  "'s udp_ops \<Rightarrow> 's \<Rightarrow> SocketAddr \<Rightarrow> 'k SocketConfig \<Rightarrow> ('s, 'k) UdpSock res" where
  "UdpSock_bind_with_conf ops w addr c =
     try_op Io (us_bind ops w addr) (\<lambda>s. Inr (UdpSock_wrap_with_conf s c))"

definition UdpSock_bind :: "'s udp_ops \<Rightarrow> 's \<Rightarrow> SocketAddr \<Rightarrow> ('s, 'k) UdpSock res" where
  "UdpSock_bind ops w addr = UdpSock_bind_with_conf ops w addr SocketConfig_default"

definition UdpSock_set_encrypt_ctx ::
  "'k EncryptContext \<Rightarrow> ('s, 'k) UdpSock \<Rightarrow> unit res \<times> ('s, 'k) UdpSock" where
  "UdpSock_set_encrypt_ctx ctx us = with_inner us (\<lambda>i. (Inr (), UdpInner_set_encrypt_ctx ctx i))"

definition UdpSock_set_decrypt_ctx ::
  "'k DecryptContext \<Rightarrow> ('s, 'k) UdpSock \<Rightarrow> unit res \<times> ('s, 'k) UdpSock" where
  "UdpSock_set_decrypt_ctx ctx us = with_inner us (\<lambda>i. (Inr (), UdpInner_set_decrypt_ctx ctx i))"

text \<open>The peer is remembered only when the operating system has accepted it.\<close>

definition UdpSock_connect ::
  "'s udp_ops \<Rightarrow> SocketAddr \<Rightarrow> ('s, 'k) UdpSock \<Rightarrow> unit res \<times> ('s, 'k) UdpSock" where
  "UdpSock_connect ops addr us =
     with_inner us (\<lambda>i.
       (case us_connect ops (sock i) addr of
          (Inl e, s) \<Rightarrow> (Inl (Io e), i\<lparr> sock := s \<rparr>)
        | (Inr _, s) \<Rightarrow> (Inr (), i\<lparr> sock := s, peer := Some addr \<rparr>)))"

text \<open>A call on the underlying socket that touches nothing else.\<close>

definition on_sock ::
  "('s \<Rightarrow> (io_error + 'a) \<times> 's) \<Rightarrow> ('s, 'k) UdpInner \<Rightarrow> 'a res \<times> ('s, 'k) UdpInner" where
  "on_sock f i = (case f (sock i) of (r, s) \<Rightarrow> (io_res r, i\<lparr> sock := s \<rparr>))"

definition UdpSock_local_addr ::
  "'s udp_ops \<Rightarrow> ('s, 'k) UdpSock \<Rightarrow> SocketAddr res \<times> ('s, 'k) UdpSock" where
  "UdpSock_local_addr ops us = with_inner us (on_sock (us_local_addr ops))"

definition UdpSock_peer_addr :: "('s, 'k) UdpSock \<Rightarrow> SocketAddr res \<times> ('s, 'k) UdpSock" where
  "UdpSock_peer_addr us =
     with_inner us (\<lambda>i. (case peer i of None \<Rightarrow> Inl UnconnectedUdpSocket | Some addr \<Rightarrow> Inr addr, i))"

definition UdpSock_set_ttl ::
  "'s udp_ops \<Rightarrow> u32 \<Rightarrow> ('s, 'k) UdpSock \<Rightarrow> unit res \<times> ('s, 'k) UdpSock" where
  "UdpSock_set_ttl ops ttl us = with_inner us (on_sock (\<lambda>s. us_set_ttl ops s ttl))"

definition UdpSock_ttl ::
  "'s udp_ops \<Rightarrow> ('s, 'k) UdpSock \<Rightarrow> u32 res \<times> ('s, 'k) UdpSock" where
  "UdpSock_ttl ops us = with_inner us (on_sock (us_ttl ops))"

definition UdpSock_take_error ::
  "'s udp_ops \<Rightarrow> ('s, 'k) UdpSock \<Rightarrow> io_error option res \<times> ('s, 'k) UdpSock" where
  "UdpSock_take_error ops us = with_inner us (on_sock (us_take_error ops))"

definition UdpSock_read ::
  "'s udp_ops \<Rightarrow> ('k, 'm) codec \<Rightarrow> ('s, 'k) UdpSock \<Rightarrow>
     ('m option res \<times> ('s, 'k) UdpSock) outcome option" where
  "UdpSock_read ops mc us = with_inner_loop us (\<lambda>i. map_option Done (UdpInner_read ops mc i))"

definition UdpSock_read_frm ::
  "'s udp_ops \<Rightarrow> ('k, 'm) codec \<Rightarrow> ('s, 'k) UdpSock \<Rightarrow>
     (('m \<times> SocketAddr) option res \<times> ('s, 'k) UdpSock) outcome option" where
  "UdpSock_read_frm ops mc us = with_inner_loop us (\<lambda>i. map_option Done (UdpInner_read_frm ops mc i))"

definition UdpSock_write ::
  "'s udp_ops \<Rightarrow> ('k, 'm) codec \<Rightarrow> nat \<Rightarrow> readings \<Rightarrow> instant \<Rightarrow> ('m \<times> Priority) option \<Rightarrow>
     ('s, 'k) UdpSock \<Rightarrow> (bool res \<times> ('s, 'k) UdpSock) outcome option" where
  "UdpSock_write ops mc rng t_drop t_push msg us =
     with_inner_loop us (UdpInner_write ops mc rng t_drop t_push msg)"

definition UdpSock_write_to ::
  "'s udp_ops \<Rightarrow> ('k, 'm) codec \<Rightarrow> nat \<Rightarrow> readings \<Rightarrow> instant \<Rightarrow>
     ('m \<times> SocketAddr \<times> Priority) option \<Rightarrow>
     ('s, 'k) UdpSock \<Rightarrow> (bool res \<times> ('s, 'k) UdpSock) outcome option" where
  "UdpSock_write_to ops mc rng t_drop t_push msg us =
     with_inner_loop us (UdpInner_write_to ops mc rng t_drop t_push msg)"

text \<open>The wrapper is consumed; what is left of it is empty.\<close>

definition UdpSock_into_underlying_sock :: "('s, 'k) UdpSock \<Rightarrow> 's res" where
  "UdpSock_into_underlying_sock us =
     (case us of None \<Rightarrow> Inl UninitialisedSocket | Some i \<Rightarrow> Inr (sock i))"

definition UdpSock_fmt :: "('s, 'k) UdpSock \<Rightarrow> string" where
  "UdpSock_fmt us = ''UdpSock: initialised = '' @ (if us \<noteq> None then ''true'' else ''false'')"

definition UdpSock_register ::
  "'s udp_ops \<Rightarrow> Poll \<Rightarrow> Token \<Rightarrow> Ready \<Rightarrow> PollOpt \<Rightarrow> ('s, 'k) UdpSock \<Rightarrow>
     (io_error + unit) \<times> ('s, 'k) UdpSock" where
  "UdpSock_register ops poll token interest opts us =
     with_inner_io us (UdpInner_register ops poll token interest opts)"

definition UdpSock_reregister ::
  "'s udp_ops \<Rightarrow> Poll \<Rightarrow> Token \<Rightarrow> Ready \<Rightarrow> PollOpt \<Rightarrow> ('s, 'k) UdpSock \<Rightarrow>
     (io_error + unit) \<times> ('s, 'k) UdpSock" where
  "UdpSock_reregister ops poll token interest opts us =
     with_inner_io us (UdpInner_reregister ops poll token interest opts)"

definition UdpSock_deregister ::
  "'s udp_ops \<Rightarrow> Poll \<Rightarrow> ('s, 'k) UdpSock \<Rightarrow> (io_error + unit) \<times> ('s, 'k) UdpSock" where
  "UdpSock_deregister ops poll us = with_inner_io us (UdpInner_deregister ops poll)"

section \<open>The receive loops\<close>

lemmas recv_defs = handle_recv_res_def is_would_block_def is_empty_vec_def is_empty_addressed_def

lemma UdpInner_simps [simp]:
  "i\<lparr> sock := sock i, read_buffer := read_buffer i \<rparr> = i"
  "i\<lparr> sock := sock i, read_buffer_2 := read_buffer_2 i \<rparr> = i"
  by simp_all

interpretation udp_recv: recv_loop "\<lambda>s. us_recv ops s BUF_LEN" is_empty_vec sock read_buffer
  "\<lambda>s b i. i\<lparr> sock := s, read_buffer := b \<rparr>" "\<lambda>i. decrypt_some mc (dec_ctx i)"
  "recv_turn ops mc" "UdpInner_read ops mc"
  for ops :: "'s udp_ops" and mc :: "('k, 'm) codec"
  by unfold_locales
    (auto simp: recv_turn_def UdpInner_read_def recv_defs Let_def split: list.splits)

interpretation udp_recv_from: recv_loop "\<lambda>s. us_recv_from ops s BUF_LEN" is_empty_addressed sock
  read_buffer_2 "\<lambda>s b i. i\<lparr> sock := s, read_buffer_2 := b \<rparr>" "\<lambda>i. decrypt_some_from mc (dec_ctx i)"
  "recv_from_turn ops mc" "UdpInner_read_frm ops mc"
  for ops :: "'s udp_ops" and mc :: "('k, 'm) codec"
  by unfold_locales
    (auto simp: recv_from_turn_def UdpInner_read_frm_def recv_defs Let_def split: list.splits)

section \<open>The flush loops\<close>

definition udp_ok :: "('s, 'k) UdpInner \<Rightarrow> bool" where
  "udp_ok i \<longleftrightarrow> oq_ok (out_queue i) \<and> oq_ok (out_queue2 i)"

definition udp_pending :: "('s, 'k) UdpInner \<Rightarrow> byte list list" where
  "udp_pending i = pending_of (current_write i) (view (out_queue i))"

definition udp_pending_to :: "('s, 'k) UdpInner \<Rightarrow> addressed list" where
  "udp_pending_to i = pending_of (current_write_2 i) (view (out_queue2 i))"

lemmas send_defs = udp_ok_def pending_of_def Let_def

lemma handle_send_simps:
  "handle_send_res (Inr n) current len msg = (Inr True, if n < len then Some msg else current)"
  "handle_send_res (Inl e) current len msg =
     (if is_would_block e then (Inr False, Some msg) else (Inl (Io e), current))"
  by (simp_all add: handle_send_res_def is_would_block_def)

lemma send_turn_empty:
  assumes "udp_ok i" and "udp_pending i = []"
  shows "\<exists>i'. send_turn ops i = Inr (Done (Inr True, i')) \<and> udp_ok i' \<and> udp_pending i' = [] \<and> sock i' = sock i"
proof -
  from assms(1) have q: "oq_ok (out_queue i)" by (simp add: udp_ok_def)
  then show ?thesis
    by (cases rule: oq.take_or_next_cases [where current = "current_write i"])
      (use assms in \<open>simp_all add: send_turn_def udp_pending_def send_defs split: option.splits\<close>)
qed

text \<open>A turn on a message, by what the operating system answers.\<close>

lemma send_turn_first:
  assumes "udp_ok i" and "udp_pending i = d # ds" and send: "us_send ops (sock i) d = (res, s)"
  shows "\<exists>i'. udp_ok i' \<and> sock i' = s \<and>
    (case res of
       Inr n \<Rightarrow> send_turn ops i = Inl i' \<and> udp_pending i' = (if n < length d then d # ds else ds)
     | Inl e \<Rightarrow>
         if is_would_block e then send_turn ops i = Inr (Done (Inr False, i')) \<and> udp_pending i' = d # ds
         else send_turn ops i = Inr (Done (Inl (Io e), i')) \<and> udp_pending i' = ds)"
proof -
  from assms(1) have q: "oq_ok (out_queue i)" by (simp add: udp_ok_def)
  then show ?thesis
  proof (cases rule: oq.take_or_next_cases [where current = "current_write i"])
    case none
    with assms(2) show ?thesis by (simp add: udp_pending_def pending_of_def)
  next
    case (some d' q')
    with assms(2) have "d' = d" "msgs (view q') = ds" by (simp_all add: udp_pending_def)
    with some assms(1) send show ?thesis
      by (cases res; cases "\<exists>e. res = Inl e \<and> is_would_block e")
        (auto simp: send_turn_def udp_pending_def handle_send_simps send_defs)
  qed
qed

interpretation udp_flush: flush_loop "send_turn ops" udp_pending udp_ok io_failure
  for ops :: "'s udp_ops"
proof
  fix i :: "('s, 'k) UdpInner" and d ds
  assume i: "udp_ok i" "udp_pending i = d # ds"
  obtain res s where "us_send ops (sock i) d = (res, s)" by (cases "us_send ops (sock i) d")
  from send_turn_first [OF i this]
  show "(\<exists>i'. send_turn ops i = Inl i' \<and> udp_ok i' \<and>
        (udp_pending i' = ds \<or> (\<exists>d'. udp_pending i' = d' # ds))) \<or>
      (\<exists>i'. send_turn ops i = Inr (Done (Inr False, i')) \<and> udp_ok i' \<and> udp_pending i' = d # ds) \<or>
      (\<exists>i' e. send_turn ops i = Inr (Done (Inl e, i')) \<and> udp_ok i' \<and> udp_pending i' = ds \<and>
        io_failure e)"
    by (cases res) (auto simp: io_failure_def split: if_splits)
qed (use send_turn_empty in blast)

lemma send_to_turn_empty:
  assumes "udp_ok i" and "udp_pending_to i = []"
  shows "\<exists>i'. send_to_turn ops i = Inr (Done (Inr True, i')) \<and> udp_ok i' \<and> udp_pending_to i' = [] \<and> sock i' = sock i"
proof -
  from assms(1) have q: "oq_ok (out_queue2 i)" by (simp add: udp_ok_def)
  then show ?thesis
    by (cases rule: oq.take_or_next_cases [where current = "current_write_2 i"])
      (use assms in \<open>simp_all add: send_to_turn_def udp_pending_to_def send_defs split: option.splits\<close>)
qed

lemma send_to_turn_first:
  assumes "udp_ok i" and "udp_pending_to i = (d, a) # ds"
    and send: "us_send_to ops (sock i) d a = (res, s)"
  shows "\<exists>i'. udp_ok i' \<and> sock i' = s \<and>
    (case res of
       Inr n \<Rightarrow> send_to_turn ops i = Inl i' \<and> udp_pending_to i' = (if n < length d then (d, a) # ds else ds)
     | Inl e \<Rightarrow>
         if is_would_block e
         then send_to_turn ops i = Inr (Done (Inr False, i')) \<and> udp_pending_to i' = (d, a) # ds
         else send_to_turn ops i = Inr (Done (Inl (Io e), i')) \<and> udp_pending_to i' = ds)"
proof -
  from assms(1) have q: "oq_ok (out_queue2 i)" by (simp add: udp_ok_def)
  then show ?thesis
  proof (cases rule: oq.take_or_next_cases [where current = "current_write_2 i"])
    case none
    with assms(2) show ?thesis by (simp add: udp_pending_to_def pending_of_def)
  next
    case (some d' q')
    with assms(2) have "d' = (d, a)" "msgs (view q') = ds" by (simp_all add: udp_pending_to_def)
    with some assms(1) send show ?thesis
      by (cases res; cases "\<exists>e. res = Inl e \<and> is_would_block e")
        (auto simp: send_to_turn_def udp_pending_to_def handle_send_simps send_defs)
  qed
qed

interpretation udp_flush_to: flush_loop "send_to_turn ops" udp_pending_to udp_ok io_failure
  for ops :: "'s udp_ops"
proof
  fix i :: "('s, 'k) UdpInner" and d ds
  assume i: "udp_ok i" "udp_pending_to i = d # ds"
  obtain b a where d: "d = (b, a)" by (cases d)
  obtain res s where "us_send_to ops (sock i) b a = (res, s)" by (cases "us_send_to ops (sock i) b a")
  from send_to_turn_first [OF i(1) i(2) [unfolded d] this] d
  show "(\<exists>i'. send_to_turn ops i = Inl i' \<and> udp_ok i' \<and>
        (udp_pending_to i' = ds \<or> (\<exists>d'. udp_pending_to i' = d' # ds))) \<or>
      (\<exists>i'. send_to_turn ops i = Inr (Done (Inr False, i')) \<and> udp_ok i' \<and> udp_pending_to i' = d # ds) \<or>
      (\<exists>i' e. send_to_turn ops i = Inr (Done (Inl e, i')) \<and> udp_ok i' \<and> udp_pending_to i' = ds \<and>
        io_failure e)"
    by (cases res) (auto simp: io_failure_def split: if_splits)
qed (use send_to_turn_empty in blast)

section \<open>Whole datagrams\<close>

text \<open>
  What the documentation of a datagram socket promises: a send that succeeds has sent the whole
  datagram, a failed one nothing. \<open>log\<close> lists the datagrams handed to the network.
\<close>

definition whole_sends ::
  "('s \<Rightarrow> 'd \<Rightarrow> (io_error + usize) \<times> 's) \<Rightarrow> ('d \<Rightarrow> usize) \<Rightarrow> ('s \<Rightarrow> 'd list) \<Rightarrow> bool" where
  "whole_sends send len log \<longleftrightarrow>
     (\<forall>s d n s'. send s d = (Inr n, s') \<longrightarrow> n = len d \<and> log s' = log s @ [d]) \<and>
     (\<forall>s d e s'. send s d = (Inl e, s') \<longrightarrow> log s' = log s)"

interpretation udp_whole_to: whole_flush "send_to_turn ops" udp_pending_to
  "\<lambda>i. udp_ok i \<and> whole_sends (\<lambda>s (d, a). us_send_to ops s d a) (length \<circ> fst) log" io_failure "\<lambda>i. log (sock i)"
  for ops :: "'s udp_ops" and log
proof
  fix i :: "('s, 'k) UdpInner" and d ds i'
  assume i: "udp_ok i \<and> whole_sends (\<lambda>s (d, a). us_send_to ops s d a) (length \<circ> fst) log"
      "udp_pending_to i = d # ds"
    and t: "send_to_turn ops i = Inl i'"
  obtain b a where d: "d = (b, a)" by (cases d)
  obtain res s where r: "us_send_to ops (sock i) b a = (res, s)" by (cases "us_send_to ops (sock i) b a")
  from send_to_turn_first [OF conjunct1 [OF i(1)] i(2) [unfolded d] r] t obtain n where
    "res = Inr n" "sock i' = s" "udp_pending_to i' = (if n < length b then (b, a) # ds else ds)"
    by (cases res) (auto split: if_splits)
  with r i(1) d show "udp_pending_to i' = ds \<and> log (sock i') = log (sock i) @ [d]"
    by (auto simp: whole_sends_def)
next
  fix i :: "('s, 'k) UdpInner" and r i'
  assume i: "udp_ok i \<and> whole_sends (\<lambda>s (d, a). us_send_to ops s d a) (length \<circ> fst) log"
    and t: "send_to_turn ops i = Inr (Done (r, i'))"
  show "log (sock i') = log (sock i)"
  proof (cases "udp_pending_to i")
    case Nil
    with i t send_to_turn_empty [of i ops] show ?thesis by auto
  next
    case (Cons d ds)
    obtain b a where d: "d = (b, a)" by (cases d)
    obtain res s where "us_send_to ops (sock i) b a = (res, s)" by (cases "us_send_to ops (sock i) b a")
    with send_to_turn_first [OF conjunct1 [OF i] Cons [unfolded d] this] i t d show ?thesis
      by (cases res) (auto simp: whole_sends_def split: if_splits)
  qed
qed (use udp_flush_to.turn_empty udp_flush_to.turn_first in blast)+

text \<open>
  The datagrams handed to the network and the one being written: a turn extends them by the front of
  the queue.
\<close>

definition udp_line_to :: "('s \<Rightarrow> addressed list) \<Rightarrow> ('s, 'k) UdpInner \<Rightarrow> addressed list" where
  "udp_line_to log i = log (sock i) @ (case current_write_2 i of None \<Rightarrow> [] | Some d \<Rightarrow> [d])"

lemma send_to_turn_effect:
  assumes contract: "whole_sends (\<lambda>s (d, a). us_send_to ops s d a) (length \<circ> fst) log" and ok: "udp_ok i"
    and turn: "send_to_turn ops i = Inl i' \<and> ans = Inr b \<or> send_to_turn ops i = Inr (Done (ans, i'))"
  shows "udp_ok i' \<and> enc_ctx i' = enc_ctx i \<and> conf (out_queue2 i') = conf (out_queue2 i) \<and>
    (\<exists>taken. view (out_queue2 i) = taken @ view (out_queue2 i') \<and>
      (case ans of
         Inr _ \<Rightarrow> udp_line_to log i' = udp_line_to log i @ msgs taken
       | Inl _ \<Rightarrow> \<exists>lost. length lost = 1 \<and> udp_line_to log i' @ lost = udp_line_to log i @ msgs taken))"
proof -
  from ok have q: "oq_ok (out_queue2 i)" by (simp add: udp_ok_def)
  have sent: "case r of Inl e \<Rightarrow> log s = log (sock i) | Inr n \<Rightarrow> n = length d \<and> log s = log (sock i) @ [(d, a)]"
    if "us_send_to ops (sock i) d a = (r, s)" for d a r s
    using contract that by (fastforce simp: whole_sends_def split: sum.split)
  from q show ?thesis
  proof (cases rule: oq.take_or_next_tagged [where current = "current_write_2 i"])
    case none
    with turn ok show ?thesis
      by (auto simp: send_to_turn_def udp_line_to_def udp_ok_def split: sum.split)
  next
    case (current x)
    obtain d a where x: "x = (d, a)" by (cases x)
    obtain r s where wr: "us_send_to ops (sock i) d a = (r, s)" by (cases "us_send_to ops (sock i) d a")
    with current sent [OF wr] turn ok x show ?thesis
      by (cases r) (auto simp: send_to_turn_def udp_line_to_def handle_send_simps udp_ok_def Let_def split: if_splits sum.split)
  next
    case (queued p t x q')
    obtain d a where x: "x = (d, a)" by (cases x)
    obtain r s where wr: "us_send_to ops (sock i) d a = (r, s)" by (cases "us_send_to ops (sock i) d a")
    with queued sent [OF wr] turn ok x take_or_next_conf [OF queued(2)] show ?thesis
      by (cases r) (auto simp: send_to_turn_def udp_line_to_def handle_send_simps udp_ok_def Let_def
          intro!: exI [of _ "[(p, t, x)]"] split: if_splits sum.split)
  qed
qed

interpretation udp_order_to: ordered_flush "send_to_turn ops" "\<lambda>i. view (out_queue2 i)" "udp_line_to log"
  "\<lambda>d. [d]" "\<lambda>lost. length lost = 1" "\<lambda>i. udp_ok i \<and> whole_sends (\<lambda>s (d, a). us_send_to ops s d a) (length \<circ> fst) log"
  "\<lambda>i. (enc_ctx i, conf (out_queue2 i))"
  for ops :: "'s udp_ops" and log
  by (unfold_locales, elim conjE, frule (2) send_to_turn_effect, simp add: concat_units cong: sum.case_cong del: map_map)

section \<open>Writing a message\<close>

text \<open>
  \<open>write\<close> either fails to encrypt, with nothing sent, or flushes the queue that holds the message.
\<close>

lemma UdpInner_write_cases:
  assumes "udp_ok i"
  obtains (refused) m p e j where "msg = Some (m, p)" "encrypt mc rng (enc_ctx i) m = Inl e" "udp_ok j"
      "UdpInner_write ops mc rng t t' msg i = Some (Done (Inl e, j))"
  | (flushed) new j where "UdpInner_write ops mc rng t t' msg i = rust_loop (send_turn ops) j"
      "udp_ok j" "sock j = sock i"
      "udp_pending j = pending_of (current_write i)
         (queued_after t t' (conf (out_queue i)) new (view (out_queue i)))"
      "case msg of None \<Rightarrow> new = None
         | Some (m, p) \<Rightarrow> \<exists>d. encrypt mc rng (enc_ctx i) m = Inr d \<and> new = Some (p, d)"
proof (cases msg)
  case None
  show thesis
    by (rule flushed [of "i\<lparr> out_queue := snd (drop_expired t (out_queue i)) \<rparr>" None])
      (use assms None in \<open>simp_all add: UdpInner_write_def UdpInner_flush_write_def udp_ok_def
        udp_pending_def queued_after_def drop_expired_steps\<close>)
next
  case (Some mp)
  obtain m p where mp: "mp = (m, p)" by (cases mp)
  show thesis
  proof (cases "encrypt mc rng (enc_ctx i) m")
    case (Inl e)
    show thesis
      by (rule refused [of m p e "i\<lparr> out_queue := snd (drop_expired t (out_queue i)) \<rparr>"])
        (use assms Some mp Inl in \<open>simp_all add: UdpInner_write_def udp_ok_def drop_expired_steps Let_def\<close>)
  next
    case (Inr d)
    show thesis
      by (rule flushed [of "i\<lparr> out_queue := push t' d p (snd (drop_expired t (out_queue i))) \<rparr>" "Some (p, d)"])
        (use assms Some mp Inr in \<open>simp_all add: UdpInner_write_def UdpInner_flush_write_def udp_ok_def
          udp_pending_def queued_after_def drop_expired_steps push_steps Let_def\<close>)
  qed
qed

lemma UdpInner_write_to_cases:
  assumes "udp_ok i"
  obtains (refused) m a p e j where "msg = Some (m, a, p)" "encrypt mc rng (enc_ctx i) m = Inl e" "udp_ok j"
      "sock j = sock i"
      "udp_pending_to j = pending_of (current_write_2 i) (spec_drop t (conf (out_queue2 i)) (view (out_queue2 i)))"
      "UdpInner_write_to ops mc rng t t' msg i = Some (Done (Inl e, j))"
  | (flushed) new j where "UdpInner_write_to ops mc rng t t' msg i = rust_loop (send_to_turn ops) j"
      "udp_ok j" "sock j = sock i"
      "udp_pending_to j = pending_of (current_write_2 i)
         (queued_after t t' (conf (out_queue2 i)) new (view (out_queue2 i)))"
      "case msg of None \<Rightarrow> new = None
         | Some (m, a, p) \<Rightarrow> \<exists>d. encrypt mc rng (enc_ctx i) m = Inr d \<and> new = Some (p, d, a)"
proof (cases msg)
  case None
  show thesis
    by (rule flushed [of "i\<lparr> out_queue2 := snd (drop_expired t (out_queue2 i)) \<rparr>" None])
      (use assms None in \<open>simp_all add: UdpInner_write_to_def UdpInner_flush_write_to_def udp_ok_def
        udp_pending_to_def queued_after_def drop_expired_steps\<close>)
next
  case (Some mp)
  obtain m a p where mp: "mp = (m, a, p)" by (cases mp)
  show thesis
  proof (cases "encrypt mc rng (enc_ctx i) m")
    case (Inl e)
    show thesis
      by (rule refused [of m a p e "i\<lparr> out_queue2 := snd (drop_expired t (out_queue2 i)) \<rparr>"])
        (use assms Some mp Inl in \<open>simp_all add: UdpInner_write_to_def udp_ok_def udp_pending_to_def
          drop_expired_steps Let_def\<close>)
  next
    case (Inr d)
    show thesis
      by (rule flushed [of "i\<lparr> out_queue2 := push t' (d, a) p (snd (drop_expired t (out_queue2 i))) \<rparr>"
            "Some (p, d, a)"])
        (use assms Some mp Inr in \<open>simp_all add: UdpInner_write_to_def UdpInner_flush_write_to_def
          udp_ok_def udp_pending_to_def queued_after_def drop_expired_steps push_steps Let_def\<close>)
  qed
qed

section \<open>A concrete network\<close>

text \<open>The datagrams waiting, those sent, and how many more can be sent before a send would block.\<close>

type_synonym net = "addressed list \<times> addressed list \<times> nat"

definition net_recv_from :: "net \<Rightarrow> usize \<Rightarrow> (io_error + addressed) \<times> net" where
  "net_recv_from s n =
     (case s of
        ([], rest) \<Rightarrow> (Inl (IoError ErrorKind.WouldBlock []), [], rest)
      | (d # ds, rest) \<Rightarrow> (Inr d, ds, rest))"

definition net_send_to :: "net \<Rightarrow> byte list \<Rightarrow> SocketAddr \<Rightarrow> (io_error + usize) \<times> net" where
  "net_send_to s d a =
     (case s of
        (ds, out, 0) \<Rightarrow> (Inl (IoError ErrorKind.WouldBlock []), s)
      | (ds, out, Suc room) \<Rightarrow> (Inr (length d), ds, out @ [(d, a)], room))"

definition net_ops :: "net udp_ops" where
  "net_ops = \<lparr>
     us_bind = (\<lambda>s a. Inr s), us_connect = (\<lambda>s a. (Inr (), s)),
     us_recv = (\<lambda>s n. case net_recv_from s n of (r, s') \<Rightarrow> (map_sum id fst r, s')),
     us_recv_from = net_recv_from,
     us_send = (\<lambda>s d. net_send_to s d (V4 0 9)), us_send_to = net_send_to,
     us_set_ttl = (\<lambda>s t. (Inr (), s)), us_ttl = (\<lambda>s. (Inr 64, s)),
     us_local_addr = (\<lambda>s. (Inr (V4 0 1), s)), us_take_error = (\<lambda>s. (Inr None, s)),
     us_register = (\<lambda>s p t i q. (Inr (), s)), us_reregister = (\<lambda>s p t i q. (Inr (), s)),
     us_deregister = (\<lambda>s p. (Inr (), s)) \<rparr>"

definition net_sent :: "net \<Rightarrow> addressed list" where
  "net_sent s = fst (snd s)"

lemmas net_defs = net_ops_def net_recv_from_def net_send_to_def net_sent_def

lemma net_whole_to: "whole_sends (\<lambda>s (d, a). us_send_to net_ops s d a) (length \<circ> fst) net_sent"
  by (auto simp: whole_sends_def net_defs split: prod.splits nat.splits)

lemma net_finite: "finite_arrivals (\<lambda>s. us_recv net_ops s BUF_LEN) (\<lambda>s. length (fst s))"
  by (auto simp: finite_arrivals_def net_defs split: prod.splits list.splits)

definition sample_udp :: "net \<Rightarrow> (net, nat) UdpInner" where
  "sample_udp s = UdpInner_new s SocketConfig_default"

lemma sample_udp_simps [simp]:
  "sock (sample_udp s) = s" "peer (sample_udp s) = None" "read_buffer (sample_udp s) = []"
  "read_buffer_2 (sample_udp s) = []" "current_write (sample_udp s) = None"
  "current_write_2 (sample_udp s) = None" "out_queue (sample_udp s) = OutQueue_new SocketConfig_default"
  "out_queue2 (sample_udp s) = OutQueue_new SocketConfig_default"
  "enc_ctx (sample_udp s) = EncryptContext.Null" "dec_ctx (sample_udp s) = DecryptContext.Null"
  by (simp_all add: sample_udp_def UdpInner_new_def config_defaults)

lemma sample_udp_ok: "udp_ok (sample_udp s)"
  by (simp add: udp_ok_def oq_ok_new)

section \<open>Properties\<close>

text \<open>
  A call of \<open>write\<close> that returns never panics, keeps the invariant of both queues and answers
  what it documents: \<open>Ok(true)\<close> exactly when nothing is left to send, \<open>Ok(false)\<close> when something
  is, and otherwise an error of the socket other than would-block or the error of encrypting the
  message.
\<close>

theorem udp_write_answers:
  assumes "UdpInner_write ops mc rng t t' msg i = Some out" and "udp_ok i"
  shows "\<exists>r i'. out = Done (r, i') \<and> udp_ok i' \<and>
    (r = Inr True \<and> udp_pending i' = [] \<or> r = Inr False \<and> udp_pending i' \<noteq> [] \<or>
     (\<exists>e. r = Inl (Io e) \<and> \<not> is_would_block e) \<or>
     (\<exists>m p e. msg = Some (m, p) \<and> encrypt mc rng (enc_ctx i) m = Inl e \<and> r = Inl e))"
  using assms(2)
proof (cases rule: UdpInner_write_cases [where msg = msg and mc = mc and rng = rng and ops = ops and t = t and t' = t'])
  case (flushed new j)
  with udp_flush.flush_result [of ops j out] assms(1) show ?thesis by (auto simp: io_failure_def)
qed (use assms(1) in auto)

theorem udp_write_answers_witness:
  "UdpInner_write net_ops bytes_codec 0 (\<lambda>_. 0) 0 (Some ([5], 1)) (sample_udp ([], [], 0)) =
     Some (Done (Inr False, (sample_udp ([], [], 0))\<lparr> current_write := Some [5] \<rparr>)) \<and>
   udp_pending ((sample_udp ([], [], 0))\<lparr> current_write := Some [5] \<rparr>) \<noteq> []"
proof -
  have w: "UdpInner_write net_ops bytes_codec 0 (\<lambda>_. 0) 0 (Some ([5], 1)) (sample_udp ([], [], 0)) =
     Some (Done (Inr False, (sample_udp ([], [], 0))\<lparr> current_write := Some [5] \<rparr>))"
    by (simp add: UdpInner_write_def UdpInner_flush_write_def rust_loop.simps send_turn_def
        take_or_next_def handle_send_simps is_would_block_def encrypt_def bytes_codec_def net_defs queue_simps)
  with udp_write_answers [OF w sample_udp_ok] show ?thesis by simp
qed

text \<open>
  On a socket that sends datagrams whole or not at all, every call of \<open>write_to\<close> returns, and
  what it puts on the network is exactly the front of what there is to send: the message being
  written, then the queue, expired messages dropped and the new one inserted by priority. With
  \<open>Ok\<close> the rest is still to be sent, in order; after an error of the socket the one message that
  caused it is gone.
\<close>

theorem udp_write_to_delivers:
  fixes t :: readings and t' :: instant
  assumes "whole_sends (\<lambda>s (d, a). us_send_to ops s d a) (length \<circ> fst) log" and "udp_ok i"
    and "case msg of None \<Rightarrow> new = None
         | Some (m, a, p) \<Rightarrow> \<exists>d. encrypt mc rng (enc_ctx i) m = Inr d \<and> new = Some (p, d, a)"
  defines "todo \<equiv> pending_of (current_write_2 i)
      (queued_after t t' (conf (out_queue2 i)) new (view (out_queue2 i)))"
  shows "\<exists>r i' taken. UdpInner_write_to ops mc rng t t' msg i = Some (Done (r, i')) \<and>
    log (sock i') = log (sock i) @ taken \<and>
    (case r of
       Inr b \<Rightarrow> todo = taken @ udp_pending_to i' \<and> (b \<longleftrightarrow> udp_pending_to i' = [])
     | Inl e \<Rightarrow> \<exists>d. todo = taken @ d # udp_pending_to i')"
  using assms(2)
proof (cases rule: UdpInner_write_to_cases [where msg = msg and mc = mc and rng = rng and ops = ops and t = t and t' = t'])
  case (flushed new' j)
  then have "new' = new" using assms(3) by (auto split: option.splits)
  have ok: "udp_ok j \<and> whole_sends (\<lambda>s (d, a). us_send_to ops s d a) (length \<circ> fst) log"
    using flushed assms(1) by simp
  obtain out where out: "rust_loop (send_to_turn ops) j = Some out"
    using udp_whole_to.whole_returns [OF ok] by blast
  with udp_flush_to.flush_result [OF out] flushed obtain r i' where
    r: "out = Done (r, i')" "r = Inr True \<and> udp_pending_to i' = [] \<or> r = Inr False \<and> udp_pending_to i' \<noteq> [] \<or>
      (\<exists>e. r = Inl e)" by blast
  from udp_whole_to.whole_sends [OF out [unfolded r(1)] ok] out r flushed \<open>new' = new\<close> show ?thesis
    by (auto simp: todo_def)
qed (use assms(3) in auto)

theorem udp_write_to_delivers_witness:
  "\<exists>r i' taken. UdpInner_write_to net_ops bytes_codec 0 (\<lambda>_. 0) 0 (Some ([5], V4 7 80, 1)) (sample_udp ([], [], 3)) =
      Some (Done (r, i')) \<and> net_sent (sock i') = taken \<and>
      (case r of Inr b \<Rightarrow> [([5], V4 7 80)] = taken @ udp_pending_to i' \<and> (b \<longleftrightarrow> udp_pending_to i' = [])
       | Inl e \<Rightarrow> \<exists>d. [([5], V4 7 80)] = taken @ d # udp_pending_to i')"
proof -
  let ?i = "sample_udp ([], [], 3)"
  have new: "case Some ([5], V4 7 80, 1) of None \<Rightarrow> Some (1, [5], V4 7 80) = None
      | Some (m, a, p) \<Rightarrow> \<exists>d. encrypt bytes_codec 0 (enc_ctx ?i) m = Inr d \<and> Some (1, [5], V4 7 80) = Some (p, d, a)"
    by (simp add: encrypt_def bytes_codec_def)
  have todo: "pending_of (current_write_2 ?i) (queued_after (\<lambda>_. 0) 0 (conf (out_queue2 ?i))
      (Some (1, [5], V4 7 80)) (view (out_queue2 ?i))) = [([5], V4 7 80)]"
    by (simp add: queued_after_def view_new spec_drop_def spec_push_def pending_of_def)
  have "net_sent (sock ?i) = []" by (simp add: net_sent_def)
  with udp_write_to_delivers [OF net_whole_to sample_udp_ok new, where t = "\<lambda>_. 0" and t' = 0]
  show ?thesis unfolding todo by auto
qed

text \<open>
  C31. A datagram that the socket reports as sent only in part is sent again in full, at once and
  without bound: on a socket that keeps sending less than the whole, flushing never returns.
\<close>

theorem udp_partial_send_hangs:
  fixes i :: "('s, 'k) UdpInner"
  assumes "\<forall>s d. d \<noteq> [] \<longrightarrow> (\<exists>n s'. us_send ops s d = (Inr n, s') \<and> n < length d)"
    and "udp_ok i" and "udp_pending i = d # ds" and "d \<noteq> []"
  shows "UdpInner_flush_write ops i = None"
  unfolding UdpInner_flush_write_def
proof (rule rust_loop_diverges [where P = "\<lambda>j. udp_ok j \<and> udp_pending j = d # ds"])
  fix j :: "('s, 'k) UdpInner" assume j: "udp_ok j \<and> udp_pending j = d # ds"
  from assms(1,4) obtain n s where "us_send ops (sock j) d = (Inr n, s)" "n < length d" by blast
  with send_turn_first [OF conjunct1 [OF j] conjunct2 [OF j] this(1)]
  show "\<exists>j'. send_turn ops j = Inl j' \<and> udp_ok j' \<and> udp_pending j' = d # ds" by auto
qed (use assms(2,3) in simp)

theorem udp_partial_send_hangs_witness:
  "UdpInner_flush_write (net_ops\<lparr> us_send := (\<lambda>s d. (Inr (length d - 1), s)) \<rparr>)
     ((sample_udp ([], [], 0))\<lparr> current_write := Some [5, 6] \<rparr>) = None"
  by (rule udp_partial_send_hangs [where d = "[5, 6]" and ds = "[]"])
    (simp_all add: udp_ok_def udp_pending_def pending_of_def oq_ok_new view_new)

text \<open>
  A burst of datagrams that arrives before the socket would block is handed out in order of
  arrival, one per call of \<open>read_frm\<close> and each with its sender, then \<open>None\<close>. A datagram that
  cannot be decrypted costs one call its error and does not disturb the others. Empty datagrams,
  and so messages whose encoding is empty, are dropped without notice.
\<close>

theorem udp_reads_in_order:
  assumes "read_buffer_2 i = []"
    and "datagrams (\<lambda>s. us_recv_from ops s BUF_LEN) (sock i) ds e s" and "is_would_block e"
    and "us_recv_from ops s BUF_LEN = (Inl e', s')" and "is_would_block e'"
  defines "received \<equiv> filter (\<lambda>d. fst d \<noteq> []) ds"
  shows "\<exists>j. repeat_read (UdpInner_read_frm ops mc) (Suc (length received)) i =
    Some (map (decrypt_some_from mc (dec_ctx i)) received @ [Inr None], j) \<and> read_buffer_2 j = []"
  using udp_recv_from.burst_in_order [OF assms(1-5)]
  by (simp add: received_def is_empty_addressed_def)

theorem udp_reads_in_order_witness:
  "\<exists>j. repeat_read (UdpInner_read_frm net_ops bytes_codec) 3
      (sample_udp ([([1], V4 1 1), ([], V4 2 2), ([3], V4 3 3)], [], 0)) =
    Some ([Inr (Some ([1], V4 1 1)), Inr (Some ([3], V4 3 3)), Inr None], j)"
proof -
  let ?i = "sample_udp ([([1], V4 1 1), ([], V4 2 2), ([3], V4 3 3)], [], 0)"
  have d: "datagrams (\<lambda>s. us_recv_from net_ops s BUF_LEN) (sock ?i)
      [([1], V4 1 1), ([], V4 2 2), ([3], V4 3 3)] (IoError ErrorKind.WouldBlock []) ([], [], 0)"
    by (simp add: datagrams_simps net_defs)
  have "read_buffer_2 ?i = []" by simp
  from udp_reads_in_order [OF this d _ _ , where mc = bytes_codec and e' = "IoError ErrorKind.WouldBlock []"
      and s' = "([], [], 0)"]
  show ?thesis
    by (auto simp: net_defs is_would_block_def eval_nat_numeral decrypt_some_from_def decrypt_def bytes_codec_def)
qed

text \<open>
  When the socket fails after some datagrams, the call reports the error at once, and the
  datagrams received before it are handed out by the calls that follow: none is lost.
\<close>

theorem udp_error_keeps_received:
  assumes "read_buffer i = []"
    and "datagrams (\<lambda>s. us_recv ops s BUF_LEN) (sock i) ds e s" and "\<not> is_would_block e"
  defines "received \<equiv> filter (\<lambda>d. d \<noteq> []) ds"
  shows "\<exists>j. repeat_read (UdpInner_read ops mc) (Suc (length received)) i =
    Some (Inl (Io e) # map (decrypt_some mc (dec_ctx i)) received, j) \<and> read_buffer j = []"
  using udp_recv.error_keeps_buffer [OF assms(1-3)] by (simp add: received_def is_empty_vec_def)

definition failing_recv :: "net \<Rightarrow> usize \<Rightarrow> (io_error + byte list) \<times> net" where
  "failing_recv s n =
     (case s of
        ([], rest) \<Rightarrow> (Inl (IoError ConnectionRefused []), [], rest)
      | (d # ds, rest) \<Rightarrow> (Inr (fst d), ds, rest))"

theorem udp_error_keeps_received_witness:
  "\<exists>j. repeat_read (UdpInner_read (net_ops\<lparr> us_recv := failing_recv \<rparr>) bytes_codec) 2
      (sample_udp ([([1], V4 1 1)], [], 0)) =
    Some ([Inl (Io (IoError ConnectionRefused [])), Inr (Some [1])], j)"
proof -
  let ?i = "sample_udp ([([1], V4 1 1)], [], 0)" and ?ops = "net_ops\<lparr> us_recv := failing_recv \<rparr>"
  have d: "datagrams (\<lambda>s. us_recv ?ops s BUF_LEN) (sock ?i) [[1]] (IoError ConnectionRefused []) ([], [], 0)"
    by (simp add: datagrams_simps failing_recv_def)
  have "read_buffer ?i = []" by simp
  from udp_error_keeps_received [OF this d, where mc = bytes_codec]
  show ?thesis
    by (auto simp: is_would_block_def eval_nat_numeral decrypt_some_def decrypt_def bytes_codec_def)
qed

text \<open>
  Every call of \<open>read\<close> returns, provided only finitely many datagrams are waiting, and it
  touches only the socket and its own receive buffer: the addressed buffer, both queues, the
  contexts and the peer are as before.
\<close>

theorem udp_read_returns:
  assumes "finite_arrivals (\<lambda>s. us_recv ops s BUF_LEN) backlog"
  shows "\<exists>r s b. UdpInner_read ops mc i = Some (r, i\<lparr> sock := s, read_buffer := b \<rparr>)"
proof (cases "read_buffer i")
  case Nil
  obtain ds e s where d: "datagrams (\<lambda>s. us_recv ops s BUF_LEN) (sock i) ds e s"
    using finite_arrivals_datagrams [OF assms] by blast
  show ?thesis
    unfolding udp_recv.rd_leaves [OF Nil d] by (auto simp: udp_recv.leave_def split: list.split)
next
  case (Cons d b)
  have "UdpInner_read ops mc i =
      Some (decrypt_some mc (dec_ctx i) d, i\<lparr> sock := sock i, read_buffer := b \<rparr>)"
    by (rule udp_recv.rd_buffered) (rule Cons)
  then show ?thesis by blast
qed

theorem udp_read_returns_witness:
  "\<exists>r s b. UdpInner_read net_ops bytes_codec (sample_udp ([([1], V4 1 1)], [], 0)) =
     Some (r, (sample_udp ([([1], V4 1 1)], [], 0))\<lparr> sock := s, read_buffer := b \<rparr>)"
  by (rule udp_read_returns [OF net_finite])

text \<open>
  \<open>peer_addr\<close> answers the address of the last \<open>connect\<close> that succeeded: a new socket has none
  (\<open>UnconnectedUdpSocket\<close>), a successful \<open>connect\<close> sets it and a failed one leaves it as it was.
\<close>

theorem udp_peer_addr_after_connect:
  "fst (UdpSock_peer_addr (UdpSock_wrap_with_conf s c)) = Inl UnconnectedUdpSocket \<and>
   fst (UdpSock_peer_addr (snd (UdpSock_connect ops addr (Some i)))) =
     (if fst (UdpSock_connect ops addr (Some i)) = Inr () then Inr addr
      else fst (UdpSock_peer_addr (Some i)))"
  by (auto simp: UdpSock_peer_addr_def UdpSock_connect_def UdpSock_wrap_with_conf_def UdpInner_new_def
      guard_defs split: prod.splits sum.splits)

text \<open>
  A socket that was never bound or wrapped answers every operation with
  \<open>UninitialisedSocket\<close> (as an \<open>io::Error\<close> of kind \<open>Other\<close> from \<open>Evented\<close>), and stays
  uninitialised.
\<close>

theorem udp_uninitialised:
  "UdpSock_read ops mc UdpSock_default = Some (Done (Inl UninitialisedSocket, None)) \<and>
   UdpSock_read_frm ops mc UdpSock_default = Some (Done (Inl UninitialisedSocket, None)) \<and>
   UdpSock_write ops mc rng t t' msg UdpSock_default = Some (Done (Inl UninitialisedSocket, None)) \<and>
   UdpSock_write_to ops mc rng t t' msg2 UdpSock_default = Some (Done (Inl UninitialisedSocket, None)) \<and>
   UdpSock_set_encrypt_ctx e UdpSock_default = (Inl UninitialisedSocket, UdpSock_default) \<and>
   UdpSock_set_decrypt_ctx d UdpSock_default = (Inl UninitialisedSocket, UdpSock_default) \<and>
   UdpSock_connect ops addr UdpSock_default = (Inl UninitialisedSocket, UdpSock_default) \<and>
   UdpSock_peer_addr UdpSock_default = (Inl UninitialisedSocket, UdpSock_default) \<and>
   UdpSock_local_addr ops UdpSock_default = (Inl UninitialisedSocket, UdpSock_default) \<and>
   UdpSock_set_ttl ops ttl UdpSock_default = (Inl UninitialisedSocket, UdpSock_default) \<and>
   UdpSock_ttl ops UdpSock_default = (Inl UninitialisedSocket, UdpSock_default) \<and>
   UdpSock_take_error ops UdpSock_default = (Inl UninitialisedSocket, UdpSock_default) \<and>
   UdpSock_into_underlying_sock UdpSock_default = Inl UninitialisedSocket \<and>
   UdpSock_register ops poll token interest opts UdpSock_default = (Inl uninitialised_io_error, UdpSock_default) \<and>
   UdpSock_reregister ops poll token interest opts UdpSock_default = (Inl uninitialised_io_error, UdpSock_default) \<and>
   UdpSock_deregister ops poll UdpSock_default = (Inl uninitialised_io_error, UdpSock_default)"
  by (simp add: UdpSock_default_def guard_defs UdpSock_read_def UdpSock_read_frm_def UdpSock_write_def
      UdpSock_write_to_def UdpSock_set_encrypt_ctx_def UdpSock_set_decrypt_ctx_def UdpSock_connect_def
      UdpSock_peer_addr_def UdpSock_local_addr_def UdpSock_set_ttl_def UdpSock_ttl_def
      UdpSock_take_error_def UdpSock_into_underlying_sock_def UdpSock_register_def
      UdpSock_reregister_def UdpSock_deregister_def)

end
