(* ===== verification/Udp_Session.thy ===== *)
theory Udp_Session
  imports Udp_Sock
begin

text \<open>
  Two UDP sockets (\<open>src/src/udp.rs\<close>) and the network between them, which may lose, duplicate and
  reorder datagrams: any sequence of \<open>write_to\<close> calls on one side, whatever they answer, and a
  burst of datagrams read on the other.
\<close>

text \<open>The datagram a call adds, if the message can be encrypted.\<close>

definition written ::
  "('k, 'm) codec \<Rightarrow> nat \<Rightarrow> 'k EncryptContext \<Rightarrow> ('m \<times> SocketAddr \<times> Priority) option \<Rightarrow> ('m \<times> addressed) list" where
  "written mc rng e msg =
     (case msg of
        None \<Rightarrow> []
      | Some (m, a, p) \<Rightarrow> (case encrypt mc rng e m of Inl _ \<Rightarrow> [] | Inr d \<Rightarrow> [(m, d, a)]))"

text \<open>
  Between two calls anything may happen that leaves the addressed sending half alone: reads, the
  connected half, and what the system does to the socket, as long as the datagrams handed to the
  network stay the same.
\<close>

definition same_sending_to ::
  "('s \<Rightarrow> addressed list) \<Rightarrow> ('s, 'k) UdpInner \<Rightarrow> ('s, 'k) UdpInner \<Rightarrow> bool" where
  "same_sending_to log i i' \<longleftrightarrow>
     (udp_ok i \<longrightarrow> udp_ok i') \<and> out_queue2 i' = out_queue2 i \<and> current_write_2 i' = current_write_2 i \<and>
     enc_ctx i' = enc_ctx i \<and> log (sock i') = log (sock i)"

inductive udp_session ::
  "'s udp_ops \<Rightarrow> ('k, 'm) codec \<Rightarrow> ('s \<Rightarrow> addressed list) \<Rightarrow> ('s, 'k) UdpInner \<Rightarrow>
     ('m \<times> addressed) list \<Rightarrow> ('s, 'k) UdpInner \<Rightarrow> bool"
  for ops mc log i0 where
  opened: "udp_session ops mc log i0 [] i0"
| wrote: "udp_session ops mc log i0 es i \<Longrightarrow>
    UdpInner_write_to ops mc rng t t' msg i = Some (Done (r, i')) \<Longrightarrow>
    udp_session ops mc log i0 (es @ written mc rng (enc_ctx i) msg) i'"
| elsewhere: "udp_session ops mc log i0 es i \<Longrightarrow> same_sending_to log i i' \<Longrightarrow>
    udp_session ops mc log i0 es i'"

lemma send_to_turn_enc_ctx:
  "send_to_turn ops i = Inl i' \<Longrightarrow> enc_ctx i' = enc_ctx i"
  "send_to_turn ops i = Inr (Done (r, i')) \<Longrightarrow> enc_ctx i' = enc_ctx i"
  by (auto simp: send_to_turn_def Let_def split: outcome.splits prod.splits option.splits sum.splits bool.splits)

lemma send_to_loop_enc_ctx:
  assumes "rust_loop (send_to_turn ops) i = Some (Done (r, i'))"
  shows "enc_ctx i' = enc_ctx i"
proof -
  have "\<forall>r i'. out = Done (r, i') \<longrightarrow> enc_ctx i' = enc_ctx i" if "rust_loop (send_to_turn ops) i = Some out" for out
    by (rule rust_loop_rule [OF that, where P = "\<lambda>j. enc_ctx j = enc_ctx i"])
      (auto dest: send_to_turn_enc_ctx)
  with assms show ?thesis by blast
qed

lemma UdpInner_write_to_enc_ctx:
  assumes "UdpInner_write_to ops mc rng t t' msg i = Some (Done (r, i'))"
  shows "enc_ctx i' = enc_ctx i"
  using assms
  by (auto simp: UdpInner_write_to_def UdpInner_flush_write_to_def Let_def
      split: option.splits sum.splits dest!: send_to_loop_enc_ctx)

lemma spec_drop_set: "set (msgs (spec_drop t c v)) \<subseteq> set (msgs v)"
  by (auto simp: spec_drop_def dest: set_takeWhileD)

lemma queued_after_set:
  "set (msgs (queued_after t t' c new v)) \<subseteq> set (msgs v) \<union> (case new of None \<Rightarrow> {} | Some (p, d) \<Rightarrow> {d})"
  using spec_drop_set [of t c v] by (auto simp: queued_after_def spec_push_def split: option.splits)

lemma pending_of_set:
  "set (msgs v) \<subseteq> set (msgs w) \<union> D \<Longrightarrow> set (pending_of c v) \<subseteq> set (pending_of c w) \<union> D"
  by (auto simp: pending_of_def)

text \<open>One call sends and keeps nothing but what was there or was written.\<close>

lemma UdpInner_write_to_nothing_new:
  assumes w: "UdpInner_write_to ops mc rng t t' msg i = Some (Done (r, i'))"
    and contract: "whole_sends (\<lambda>s (d, a). us_send_to ops s d a) (length \<circ> fst) log" and "udp_ok i"
  shows "udp_ok i' \<and> set (log (sock i')) \<union> set (udp_pending_to i') \<subseteq>
    set (log (sock i)) \<union> set (udp_pending_to i) \<union> snd ` set (written mc rng (enc_ctx i) msg)"
  using assms(3)
proof (cases rule: UdpInner_write_to_cases [where msg = msg and mc = mc and rng = rng and ops = ops and t = t and t' = t'])
  case (refused m a p e j)
  then have "i' = j" "udp_ok j" using w by simp_all
  moreover have "set (udp_pending_to j) \<subseteq> set (udp_pending_to i)"
    using refused(5) spec_drop_set [of t "conf (out_queue2 i)" "view (out_queue2 i)"]
    by (auto simp: udp_pending_to_def pending_of_def)
  ultimately show ?thesis using refused(4) by auto
next
  case (flushed new j)
  have ok: "udp_ok j \<and> whole_sends (\<lambda>s (d, a). us_send_to ops s d a) (length \<circ> fst) log"
    using flushed contract by simp
  have loop: "rust_loop (send_to_turn ops) j = Some (Done (r, i'))" using w flushed(1) by simp
  have "set (udp_pending_to j) \<subseteq> set (udp_pending_to i) \<union> (case new of None \<Rightarrow> {} | Some (p, d) \<Rightarrow> {d})"
    by (subst flushed(4), unfold udp_pending_to_def) (intro pending_of_set queued_after_set)
  moreover have "(case new of None \<Rightarrow> {} | Some (p, d) \<Rightarrow> {d}) = snd ` set (written mc rng (enc_ctx i) msg)"
    using flushed(5) by (auto simp: written_def split: option.splits)
  ultimately have "set (udp_pending_to j) \<subseteq> set (udp_pending_to i) \<union> snd ` set (written mc rng (enc_ctx i) msg)"
    by simp
  moreover obtain taken where "log (sock i') = log (sock j) @ taken"
    "set taken \<union> set (udp_pending_to i') \<subseteq> set (udp_pending_to j)"
    using udp_whole_to.whole_sends [OF loop ok] by (cases r) fastforce+
  moreover have "udp_ok i'" using udp_flush_to.flush_result [OF loop flushed(2)] by auto
  ultimately show ?thesis using flushed(3) by auto
qed

text \<open>Everything sent or still to be sent was written.\<close>

lemma udp_session_invariant:
  assumes "udp_session ops mc log i0 es i"
    and contract: "whole_sends (\<lambda>s (d, a). us_send_to ops s d a) (length \<circ> fst) log"
    and "udp_ok i0" and "udp_pending_to i0 = []" and "log (sock i0) = []"
  shows "udp_ok i \<and> enc_ctx i = enc_ctx i0 \<and>
    set (log (sock i)) \<union> set (udp_pending_to i) \<subseteq> snd ` set es \<and>
    (\<forall>(m, d, a)\<in>set es. \<exists>rng. encrypt mc rng (enc_ctx i0) m = Inr d)"
  using assms(1)
proof induction
  case opened
  with assms(3-5) show ?case by simp
next
  case (wrote es i rng t t' msg r i')
  have "\<forall>(m, d, a)\<in>set (written mc rng (enc_ctx i) msg). \<exists>rng. encrypt mc rng (enc_ctx i0) m = Inr d"
    using wrote.IH by (auto simp: written_def split: option.splits sum.splits)
  moreover have "enc_ctx i' = enc_ctx i" using wrote(2) by (rule UdpInner_write_to_enc_ctx)
  moreover have "udp_ok i' \<and> set (log (sock i')) \<union> set (udp_pending_to i') \<subseteq>
      set (log (sock i)) \<union> set (udp_pending_to i) \<union> snd ` set (written mc rng (enc_ctx i) msg)"
    using UdpInner_write_to_nothing_new [OF wrote(2) contract] wrote.IH by blast
  ultimately show ?case
    using wrote.IH unfolding set_append image_Un ball_Un by simp blast
next
  case (elsewhere es i i')
  then show ?case by (simp add: same_sending_to_def udp_pending_to_def)
qed

section \<open>Order\<close>

text \<open>
  Sessions whose calls answer \<open>Ok\<close> or refuse a message that cannot be encrypted. The messages
  accepted are kept with the datagrams they were encrypted to. The argument of a write is the random
  choice for the encryption and the message, if any, with its destination.
\<close>

definition udp_encode_to ::
  "('k, 'm) codec \<Rightarrow> 'k EncryptContext \<Rightarrow> nat \<times> ('m \<times> SocketAddr \<times> Priority) option \<Rightarrow>
     (Priority \<times> 'm \<times> addressed) option res" where
  "udp_encode_to mc e = (\<lambda>(rng, msg).
     case msg of
       None \<Rightarrow> Inr None
     | Some (m, a, p) \<Rightarrow> try_op id (encrypt mc rng e m) (\<lambda>d. Inr (Some (p, m, d, a))))"

lemma udp_encode_to_simps [simp]:
  "udp_encode_to mc e (rng, None) = Inr None"
  "udp_encode_to mc e (rng, Some (m, a, p)) =
     (case encrypt mc rng e m of Inl err \<Rightarrow> Inl err | Inr d \<Rightarrow> Inr (Some (p, m, d, a)))"
  by (simp_all add: udp_encode_to_def try_op_def split: sum.split)

abbreviation udp_write_to ::
  "'s udp_ops \<Rightarrow> ('k, 'm) codec \<Rightarrow> readings \<Rightarrow> instant \<Rightarrow> nat \<times> ('m \<times> SocketAddr \<times> Priority) option \<Rightarrow>
     ('s, 'k) UdpInner \<Rightarrow> (bool res \<times> ('s, 'k) UdpInner) outcome option" where
  "udp_write_to ops mc \<equiv> \<lambda>t t' (rng, msg). UdpInner_write_to ops mc rng t t' msg"

abbreviation udp_writes ::
  "'s udp_ops \<Rightarrow> ('k, 'm) codec \<Rightarrow> ('s \<Rightarrow> addressed list) \<Rightarrow> ('s, 'k) UdpInner \<Rightarrow>
     ('m \<times> addressed) queued list \<Rightarrow> ('s, 'k) UdpInner \<Rightarrow> bool" where
  "udp_writes ops mc log \<equiv>
     session (\<lambda>i. udp_encode_to mc (enc_ctx i)) (udp_write_to ops mc) (same_sending_to log)"

interpretation udp_mail_to: mail_sender "send_to_turn ops" "\<lambda>i. view (out_queue2 i)" "udp_line_to log" "\<lambda>d. [d]" "\<lambda>lost. length lost = 1"
  "\<lambda>i. udp_ok i \<and> whole_sends (\<lambda>s (d, a). us_send_to ops s d a) (length \<circ> fst) log"
  "\<lambda>i. (enc_ctx i, conf (out_queue2 i))" "snd :: 'm \<times> addressed \<Rightarrow> addressed"
  "\<lambda>i. conf (out_queue2 i)" "\<lambda>i. udp_encode_to mc (enc_ctx i)" "udp_write_to ops mc" "same_sending_to log"
  for ops :: "'s udp_ops" and log and mc :: "('k, 'm) codec"
proof unfold_locales
  fix i :: "('s, 'k) UdpInner" and t t' and w :: "nat \<times> ('m \<times> SocketAddr \<times> Priority) option"
  assume good: "udp_ok i \<and> whole_sends (\<lambda>s (d, a). us_send_to ops s d a) (length \<circ> fst) log"
  let ?q = "snd (drop_expired t (out_queue2 i))"
  have q: "oq_ok (out_queue2 i)" using good by (simp add: udp_ok_def)
  note write_simps = UdpInner_write_to_def UdpInner_flush_write_to_def udp_line_to_def queued_after_def
    udp_ok_def drop_expired_steps [OF q] push_steps Let_def udp_encode_to_def try_op_def
  show "\<exists>j. udp_write_to ops mc t t' w i = Some (Done (Inl e, j)) \<and>
      (udp_ok j \<and> whole_sends (\<lambda>s (d, a). us_send_to ops s d a) (length \<circ> fst) log) \<and>
      (enc_ctx j, conf (out_queue2 j)) = (enc_ctx i, conf (out_queue2 i)) \<and> udp_line_to log j = udp_line_to log i \<and>
      view (out_queue2 j) = spec_drop t (conf (out_queue2 i)) (view (out_queue2 i))"
    if "udp_encode_to mc (enc_ctx i) w = Inl e" for e
    using that good by (intro exI [of _ "i\<lparr> out_queue2 := ?q \<rparr>"])
      (auto simp: write_simps split: prod.splits option.splits sum.splits)
  show "\<exists>j. udp_write_to ops mc t t' w i = rust_loop (send_to_turn ops) j \<and>
      (udp_ok j \<and> whole_sends (\<lambda>s (d, a). us_send_to ops s d a) (length \<circ> fst) log) \<and>
      (enc_ctx j, conf (out_queue2 j)) = (enc_ctx i, conf (out_queue2 i)) \<and> udp_line_to log j = udp_line_to log i \<and>
      view (out_queue2 j) =
        queued_after t t' (conf (out_queue2 i)) (map_option (apsnd snd) new) (view (out_queue2 i))"
    if "udp_encode_to mc (enc_ctx i) w = Inr new" for new
  proof (cases new)
    case None
    with that good show ?thesis
      by (intro exI [of _ "i\<lparr> out_queue2 := ?q \<rparr>"])
        (auto simp: write_simps split: prod.splits option.splits sum.splits)
  next
    case (Some x)
    obtain p m d a where "x = (p, m, d, a)" by (cases x)
    with Some that good show ?thesis
      by (intro exI [of _ "i\<lparr> out_queue2 := push t' (d, a) p ?q \<rparr>"])
        (auto simp: write_simps split: prod.splits option.splits sum.splits)
  qed
qed (auto simp: same_sending_to_def udp_line_to_def)

lemma udp_writes_invariant:
  assumes "udp_writes ops mc log i0 es i"
    and contract: "whole_sends (\<lambda>s (d, a). us_send_to ops s d a) (length \<circ> fst) log"
    and "udp_ok i0" and "view (out_queue2 i0) = []" and "udp_line_to log i0 = []"
  shows "udp_ok i \<and> conf (out_queue2 i) = conf (out_queue2 i0) \<and>
    in_order (conf (out_queue2 i0)) snd (\<lambda>d. [d]) es (udp_line_to log i) (view (out_queue2 i))"
  using udp_mail_to.session_invariant [OF assms(1)] assms(2-5) by simp

section \<open>Properties\<close>

text \<open>
  Nothing is invented: over a network that may lose, duplicate and reorder datagrams but not
  forge them, every call of \<open>read_frm\<close> in a burst answers either a message that the other socket
  was asked to write, or \<open>None\<close>. It is never an error and never a message mangled by the queue,
  the retries or the buffers.
\<close>

theorem udp_nothing_invented:
  assumes "udp_session ops mc log i0 es i"
    and "whole_sends (\<lambda>s (d, a). us_send_to ops s d a) (length \<circ> fst) log"
    and "udp_ok i0" and "udp_pending_to i0 = []" and "log (sock i0) = []"
    and "codec_contract keypair mc" and "contexts_match keypair (enc_ctx i0) (dec_ctx j)"
    and "fst ` set ds \<subseteq> fst ` set (log (sock i))"
    and "datagrams (\<lambda>s. us_recv_from ops s BUF_LEN) (sock j) ds e s" and "is_would_block e"
    and "us_recv_from ops s BUF_LEN = (Inl e', s')" and "is_would_block e'" and "read_buffer_2 j = []"
  shows "\<exists>rs k. repeat_read (UdpInner_read_frm ops mc) (Suc (length (filter (\<lambda>d. fst d \<noteq> []) ds))) j = Some (rs, k) \<and>
    (\<forall>r\<in>set rs. r = Inr None \<or> (\<exists>m a. r = Inr (Some (m, a)) \<and> m \<in> fst ` set es))"
proof -
  from udp_session_invariant [OF assms(1-5)]
  have sent: "set (log (sock i)) \<subseteq> snd ` set es"
    and enc: "\<forall>(m, d, a)\<in>set es. \<exists>rng. encrypt mc rng (enc_ctx i0) m = Inr d" by auto
  have one: "\<exists>m. decrypt_some_from mc (dec_ctx j) d = Inr (Some (m, snd d)) \<and> m \<in> fst ` set es" if "d \<in> set ds" for d
  proof -
    from that assms(8) have "fst d \<in> fst ` snd ` set es" using sent by blast
    then obtain m a where m: "(m, fst d, a) \<in> set es" by force
    with enc obtain rng' where "encrypt mc rng' (enc_ctx i0) m = Inr (fst d)" by blast
    with encrypt_decrypt [OF assms(6,7)] have "decrypt mc (dec_ctx j) (fst d) = Inr m" by blast
    with m show ?thesis by (cases d) (force simp: decrypt_some_from_def)
  qed
  let ?q = "filter (\<lambda>d. fst d \<noteq> []) ds"
  obtain k where k: "repeat_read (UdpInner_read_frm ops mc) (Suc (length ?q)) j =
      Some (map (decrypt_some_from mc (dec_ctx j)) ?q @ [Inr None], k)"
    using udp_recv_from.burst_in_order [OF assms(13,9-12), of mc] by (auto simp: is_empty_addressed_def)
  have "\<forall>r\<in>set (map (decrypt_some_from mc (dec_ctx j)) ?q @ [Inr None]).
      r = Inr None \<or> (\<exists>m a. r = Inr (Some (m, a)) \<and> m \<in> fst ` set es)"
    using one by fastforce
  with k show ?thesis by blast
qed

theorem udp_nothing_invented_witness:
  "\<exists>rs k. repeat_read (UdpInner_read_frm net_ops bytes_codec) 3
      (sample_udp ([([5], V4 1 1), ([5], V4 1 1)], [], 0)) = Some (rs, k) \<and>
    (\<forall>r\<in>set rs. r = Inr None \<or> (\<exists>m a. r = Inr (Some (m, a)) \<and> m \<in> {[5]}))"
proof -
  let ?i = "sample_udp ([], [], Suc 0)" and ?j = "sample_udp ([([5], V4 1 1), ([5], V4 1 1)], [], 0)"
  let ?k = "?i\<lparr> sock := ([], [([5], V4 7 80)], 0) \<rparr>"
  have "UdpInner_write_to net_ops bytes_codec 0 (\<lambda>_. 0) 0 (Some ([5], V4 7 80, 1)) ?i = Some (Done (Inr True, ?k))"
    by (simp add: UdpInner_write_to_def UdpInner_flush_write_to_def rust_loop.simps send_to_turn_def
        take_or_next_def handle_send_simps encrypt_def bytes_codec_def net_defs queue_simps)
  from udp_session.wrote [OF udp_session.opened this]
  have s: "udp_session net_ops bytes_codec net_sent ?i [([5], [5], V4 7 80)] ?k"
    by (simp add: written_def encrypt_def bytes_codec_def)
  have d: "datagrams (\<lambda>s. us_recv_from net_ops s BUF_LEN) (sock ?j)
      [([5], V4 1 1), ([5], V4 1 1)] (IoError ErrorKind.WouldBlock []) ([], [], 0)"
    by (simp add: datagrams_simps net_defs)
  have p: "udp_pending_to ?i = []" "net_sent (sock ?i) = []"
    by (simp_all add: udp_pending_to_def pending_of_def view_new net_sent_def)
  from udp_nothing_invented [OF s net_whole_to sample_udp_ok p bytes_codec_contract [of "\<lambda>_ _. True"] _ _ d, where
      e' = "IoError ErrorKind.WouldBlock []" and s' = "([], [], 0)"]
  show ?thesis by (simp add: net_defs is_would_block_def eval_nat_numeral)
qed

text \<open>
  Order and loss on the sending side of UDP: after any sequence of \<open>write_to\<close> calls that do not
  hit an error of the socket, the datagrams handed to the network, and the one being written, are
  accepted messages. Within each priority they are in the order they were written, none twice; and
  with what is still queued they are everything written, for every priority that may not be dropped.
\<close>

theorem udp_session_keeps_order:
  assumes "udp_writes ops mc log i0 es i"
    and "whole_sends (\<lambda>s (d, a). us_send_to ops s d a) (length \<circ> fst) log"
    and "udp_ok i0" and "view (out_queue2 i0) = []" and "current_write_2 i0 = None" and "log (sock i0) = []"
  shows "\<exists>out v. log (sock i) @ (case current_write_2 i of None \<Rightarrow> [] | Some d \<Rightarrow> [d]) = msgs (retag snd out) \<and>
    view (out_queue2 i) = retag snd v \<and>
    (\<forall>k. subseq (of_class k out @ of_class k v) (of_class k es)) \<and>
    (\<forall>k < conf_msg_drop_priority (conf (out_queue2 i0)). of_class k out @ of_class k v = of_class k es)"
proof -
  have "udp_line_to log i0 = []" using assms(5,6) by (simp add: udp_line_to_def)
  from udp_writes_invariant [OF assms(1-4) this] obtain out v where
    "view (out_queue2 i) = retag snd v" "udp_line_to log i = msgs (retag snd out)"
    "delivered (conf (out_queue2 i0)) es out v" using in_order_datagrams by metis
  then show ?thesis unfolding delivered_def udp_line_to_def by blast
qed

theorem udp_session_keeps_order_witness:
  "\<exists>out v. [([5], V4 7 80)] = msgs (retag snd out) \<and> retag snd v = ([] :: addressed queued list) \<and>
    (\<forall>k < 2. of_class k out @ of_class k v = of_class k [(1, 0, [5 :: byte], [5], V4 7 80)])"
proof -
  let ?i = "sample_udp ([], [], Suc 0)"
  let ?k = "?i\<lparr> sock := ([], [([5], V4 7 80)], 0) \<rparr>"
  have w: "UdpInner_write_to net_ops bytes_codec 0 (\<lambda>_. 0) 0 (Some ([5], V4 7 80, 1)) ?i = Some (Done (Inr True, ?k))"
    by (simp add: UdpInner_write_to_def UdpInner_flush_write_to_def rust_loop.simps send_to_turn_def
        take_or_next_def handle_send_simps encrypt_def bytes_codec_def net_defs queue_simps)
  have "udp_writes net_ops bytes_codec net_sent ?i ([] @ arrival 0 (Some (1, [5], [5], V4 7 80))) ?k"
    by (rule session.wrote [OF session.opened, where w = "(0, Some ([5], V4 7 80, 1))" and t = "\<lambda>_. 0" and b = True])
      (use w in \<open>simp_all add: encrypt_def bytes_codec_def\<close>)
  then have s: "udp_writes net_ops bytes_codec net_sent ?i [(1, 0, [5], [5], V4 7 80)] ?k"
    by (simp add: arrival_def)
  have e: "view (out_queue2 ?i) = []" "current_write_2 ?i = None" "net_sent (sock ?i) = []"
    by (simp_all add: view_new net_sent_def)
  have k: "net_sent (sock ?k) = [([5], V4 7 80)]" "current_write_2 ?k = None" "view (out_queue2 ?k) = []"
    by (simp_all add: view_new net_sent_def)
  have c: "conf_msg_drop_priority (conf (out_queue2 ?i)) = 2"
    by (simp add: OutQueue_new_def config_defaults)
  from udp_session_keeps_order [OF s net_whole_to sample_udp_ok e] show ?thesis
    unfolding k c option.case append_Nil2 by metis
qed

end
