(* ===== verification/Udp_Connected.thy ===== *)
theory Udp_Connected
  imports Udp_Session
begin

text \<open>
  Two connected UDP sockets (\<open>src/src/udp.rs\<close>): any sequence of \<open>write\<close> calls on one side, a network
  that may lose datagrams but keeps their order (one hop, the loopback), and a burst of datagrams
  read on the other side with \<open>read\<close>.
\<close>

section \<open>One turn\<close>

text \<open>The datagrams handed to the network and the one being written.\<close>

definition udp_line :: "('s \<Rightarrow> byte list list) \<Rightarrow> ('s, 'k) UdpInner \<Rightarrow> byte list list" where
  "udp_line log i = log (sock i) @ (case current_write i of None \<Rightarrow> [] | Some d \<Rightarrow> [d])"

lemma send_turn_effect:
  assumes contract: "whole_sends (us_send ops) length log" and ok: "udp_ok i"
    and turn: "send_turn ops i = Inl i' \<and> ans = Inr b \<or> send_turn ops i = Inr (Done (ans, i'))"
  shows "udp_ok i' \<and> enc_ctx i' = enc_ctx i \<and> conf (out_queue i') = conf (out_queue i) \<and>
    (\<exists>taken. view (out_queue i) = taken @ view (out_queue i') \<and>
      (case ans of
         Inr _ \<Rightarrow> udp_line log i' = udp_line log i @ msgs taken
       | Inl _ \<Rightarrow> \<exists>lost. length lost = 1 \<and> udp_line log i' @ lost = udp_line log i @ msgs taken))"
proof -
  from ok have q: "oq_ok (out_queue i)" by (simp add: udp_ok_def)
  have sent: "case r of Inl e \<Rightarrow> log s = log (sock i) | Inr n \<Rightarrow> n = length d \<and> log s = log (sock i) @ [d]"
    if "us_send ops (sock i) d = (r, s)" for d r s
    using contract that by (fastforce simp: whole_sends_def split: sum.split)
  from q show ?thesis
  proof (cases rule: oq.take_or_next_tagged [where current = "current_write i"])
    case none
    with turn ok show ?thesis
      by (auto simp: send_turn_def udp_line_def udp_ok_def split: sum.split)
  next
    case (current d)
    obtain r s where wr: "us_send ops (sock i) d = (r, s)" by (cases "us_send ops (sock i) d")
    with current sent [OF wr] turn ok show ?thesis
      by (cases r) (auto simp: send_turn_def udp_line_def handle_send_simps udp_ok_def Let_def split: if_splits sum.split)
  next
    case (queued p t d q')
    obtain r s where wr: "us_send ops (sock i) d = (r, s)" by (cases "us_send ops (sock i) d")
    with queued sent [OF wr] turn ok take_or_next_conf [OF queued(2)] show ?thesis
      by (cases r) (auto simp: send_turn_def udp_line_def handle_send_simps udp_ok_def Let_def
          intro!: exI [of _ "[(p, t, d)]"] split: if_splits sum.split)
  qed
qed

interpretation udp_order: ordered_flush "send_turn ops" "\<lambda>i. view (out_queue i)" "udp_line log"
  "\<lambda>d. [d]" "\<lambda>lost. length lost = 1" "\<lambda>i. udp_ok i \<and> whole_sends (us_send ops) length log"
  "\<lambda>i. (enc_ctx i, conf (out_queue i))"
  for ops :: "'s udp_ops" and log
  by (unfold_locales, elim conjE, frule (2) send_turn_effect, simp add: concat_units cong: sum.case_cong del: map_map)

section \<open>Sessions\<close>

text \<open>Between two writes anything may happen that leaves the connected sending half alone.\<close>

definition same_sending_connected ::
  "('s \<Rightarrow> byte list list) \<Rightarrow> ('s, 'k) UdpInner \<Rightarrow> ('s, 'k) UdpInner \<Rightarrow> bool" where
  "same_sending_connected log i i' \<longleftrightarrow>
     (udp_ok i \<longrightarrow> udp_ok i') \<and> out_queue i' = out_queue i \<and> current_write i' = current_write i \<and>
     enc_ctx i' = enc_ctx i \<and> log (sock i') = log (sock i)"

definition udp_encode ::
  "('k, 'm) codec \<Rightarrow> 'k EncryptContext \<Rightarrow> nat \<times> ('m \<times> Priority) option \<Rightarrow>
     (Priority \<times> 'm \<times> byte list) option res" where
  "udp_encode mc e = (\<lambda>(rng, msg).
     case msg of
       None \<Rightarrow> Inr None
     | Some (m, p) \<Rightarrow> try_op id (encrypt mc rng e m) (\<lambda>d. Inr (Some (p, m, d))))"

lemma udp_encode_simps [simp]:
  "udp_encode mc e (rng, None) = Inr None"
  "udp_encode mc e (rng, Some (m, p)) =
     (case encrypt mc rng e m of Inl err \<Rightarrow> Inl err | Inr d \<Rightarrow> Inr (Some (p, m, d)))"
  by (simp_all add: udp_encode_def try_op_def split: sum.split)

lemma udp_encode_Some:
  "udp_encode mc e w = Inr (Some (p, x)) \<Longrightarrow> \<exists>rng. encrypt mc rng e (fst x) = Inr (snd x)"
  by (auto simp: udp_encode_def try_op_eq_Inr split: prod.splits option.splits)

abbreviation udp_write ::
  "'s udp_ops \<Rightarrow> ('k, 'm) codec \<Rightarrow> readings \<Rightarrow> instant \<Rightarrow> nat \<times> ('m \<times> Priority) option \<Rightarrow>
     ('s, 'k) UdpInner \<Rightarrow> (bool res \<times> ('s, 'k) UdpInner) outcome option" where
  "udp_write ops mc \<equiv> \<lambda>t t' (rng, msg). UdpInner_write ops mc rng t t' msg"

text \<open>The writes answer \<open>Ok\<close>, or refuse a message that cannot be encrypted.\<close>

abbreviation udp_connected ::
  "'s udp_ops \<Rightarrow> ('k, 'm) codec \<Rightarrow> ('s \<Rightarrow> byte list list) \<Rightarrow> ('s, 'k) UdpInner \<Rightarrow>
     ('m \<times> byte list) queued list \<Rightarrow> ('s, 'k) UdpInner \<Rightarrow> bool" where
  "udp_connected ops mc log \<equiv>
     session (\<lambda>i. udp_encode mc (enc_ctx i)) (udp_write ops mc) (same_sending_connected log)"

interpretation udp_mail: mail_sender "send_turn ops" "\<lambda>i. view (out_queue i)" "udp_line log" "\<lambda>d. [d]" "\<lambda>lost. length lost = 1"
  "\<lambda>i. udp_ok i \<and> whole_sends (us_send ops) length log" "\<lambda>i. (enc_ctx i, conf (out_queue i))"
  "snd :: 'm \<times> byte list \<Rightarrow> byte list" "\<lambda>i. conf (out_queue i)" "\<lambda>i. udp_encode mc (enc_ctx i)"
  "udp_write ops mc" "same_sending_connected log"
  for ops :: "'s udp_ops" and log and mc :: "('k, 'm) codec"
proof unfold_locales
  fix i :: "('s, 'k) UdpInner" and t t' and w :: "nat \<times> ('m \<times> Priority) option"
  assume good: "udp_ok i \<and> whole_sends (us_send ops) length log"
  let ?q = "snd (drop_expired t (out_queue i))"
  have q: "oq_ok (out_queue i)" using good by (simp add: udp_ok_def)
  note write_simps = UdpInner_write_def UdpInner_flush_write_def udp_line_def queued_after_def
    udp_ok_def drop_expired_steps [OF q] push_steps Let_def udp_encode_def try_op_def
  show "\<exists>j. udp_write ops mc t t' w i = Some (Done (Inl e, j)) \<and>
      (udp_ok j \<and> whole_sends (us_send ops) length log) \<and>
      (enc_ctx j, conf (out_queue j)) = (enc_ctx i, conf (out_queue i)) \<and> udp_line log j = udp_line log i \<and>
      view (out_queue j) = spec_drop t (conf (out_queue i)) (view (out_queue i))"
    if "udp_encode mc (enc_ctx i) w = Inl e" for e
    using that good by (intro exI [of _ "i\<lparr> out_queue := ?q \<rparr>"])
      (auto simp: write_simps split: prod.splits option.splits sum.splits)
  show "\<exists>j. udp_write ops mc t t' w i = rust_loop (send_turn ops) j \<and>
      (udp_ok j \<and> whole_sends (us_send ops) length log) \<and>
      (enc_ctx j, conf (out_queue j)) = (enc_ctx i, conf (out_queue i)) \<and> udp_line log j = udp_line log i \<and>
      view (out_queue j) =
        queued_after t t' (conf (out_queue i)) (map_option (apsnd snd) new) (view (out_queue i))"
    if "udp_encode mc (enc_ctx i) w = Inr new" for new
  proof (cases new)
    case None
    with that good show ?thesis
      by (intro exI [of _ "i\<lparr> out_queue := ?q \<rparr>"])
        (auto simp: write_simps split: prod.splits option.splits sum.splits)
  next
    case (Some x)
    obtain p m d where "x = (p, m, d)" by (cases x)
    with Some that good show ?thesis
      by (intro exI [of _ "i\<lparr> out_queue := push t' d p ?q \<rparr>"])
        (auto simp: write_simps split: prod.splits option.splits sum.splits)
  qed
qed (auto simp: same_sending_connected_def udp_line_def)

text \<open>Each accepted message comes with the datagram it was encrypted to.\<close>

definition encrypted ::
  "('k, 'm) codec \<Rightarrow> 'k EncryptContext \<Rightarrow> ('m \<times> byte list) queued list \<Rightarrow> bool" where
  "encrypted mc e es \<longleftrightarrow>
     (\<forall>x\<in>set es. \<exists>rng. encrypt mc rng e (fst (snd (snd x))) = Inr (snd (snd (snd x))))"

lemma udp_connected_invariant:
  assumes "udp_connected ops mc log i0 es i"
    and contract: "whole_sends (us_send ops) length log"
    and "udp_ok i0" and "view (out_queue i0) = []" and "udp_line log i0 = []"
  shows "udp_ok i \<and> enc_ctx i = enc_ctx i0 \<and> conf (out_queue i) = conf (out_queue i0) \<and>
    encrypted mc (enc_ctx i0) es \<and>
    in_order (conf (out_queue i0)) snd (\<lambda>d. [d]) es (udp_line log i) (view (out_queue i))"
  using udp_mail.session_invariant [OF assms(1)] assms(2-5)
  by (auto simp: encrypted_def dest: udp_encode_Some)

text \<open>
  Datagrams that are some of those of the messages \<open>out\<close>, in their order, are decrypted to the
  messages themselves.
\<close>

lemma decrypt_datagrams:
  assumes "codec_contract keypair mc" and "contexts_match keypair e d"
    and "encrypted mc e out" and "subseq ds (map (snd \<circ> snd \<circ> snd) out)"
  obtains got where "map (decrypt_some mc d) ds = map (\<lambda>m. Inr (Some m)) got"
    "subseq got (map (fst \<circ> snd \<circ> snd) out)" "length ds = length got"
    "length ds = length out \<longrightarrow> got = map (fst \<circ> snd \<circ> snd) out"
proof -
  from assms(4) obtain N where ds: "ds = map (snd \<circ> snd \<circ> snd) (nths out N)"
    by (auto simp: subseq_conv_nths nths_map)
  define got where "got = map (fst \<circ> snd \<circ> snd) (nths out N)"
  have "decrypt_some mc d (snd (snd (snd x))) = Inr (Some (fst (snd (snd x))))" if "x \<in> set out" for x
  proof -
    from that assms(3) obtain rng where "encrypt mc rng e (fst (snd (snd x))) = Inr (snd (snd (snd x)))"
      unfolding encrypted_def by blast
    from encrypt_decrypt [OF assms(1,2) this] show ?thesis by (simp add: decrypt_some_def)
  qed
  then have answers: "map (decrypt_some mc d) ds = map (\<lambda>m. Inr (Some m)) got"
    using set_nths_subset [of out N] by (auto simp: ds got_def)
  have sub: "subseq got (map (fst \<circ> snd \<circ> snd) out)"
    by (auto simp: got_def subseq_conv_nths nths_map)
  have all: "got = map (fst \<circ> snd \<circ> snd) out" if "length ds = length out"
  proof -
    from that have "length (nths out N) = length out" by (simp add: ds)
    then have "nths out N = out" by (rule subseq_same_length [rotated]) (auto simp: subseq_conv_nths)
    then show ?thesis by (simp add: got_def)
  qed
  have "length ds = length got" by (simp add: ds got_def)
  with answers sub all show thesis by (intro that [of got]) simp_all
qed

section \<open>Properties\<close>

text \<open>
  C12. End to end over connected UDP: if the contexts match and the network loses datagrams but keeps
  their order, the calls of \<open>read\<close> in a burst return, without an error, messages that were
  written, in the order in which they were sent, and then \<open>None\<close>. If nothing is lost, nothing is left to
  send and no datagram is empty, they return every message that was not dropped.
\<close>

theorem udp_connected_end_to_end:
  assumes "udp_connected ops mc log i0 es i" and "whole_sends (us_send ops) length log"
    and "udp_ok i0" and "view (out_queue i0) = []" and "current_write i0 = None" and "log (sock i0) = []"
    and "codec_contract keypair mc" and "contexts_match keypair (enc_ctx i0) (dec_ctx j)"
    and "subseq ds (log (sock i))"
    and "datagrams (\<lambda>s. us_recv ops' s BUF_LEN) (sock j) ds e s" and "is_would_block e"
    and "us_recv ops' s BUF_LEN = (Inl e', s')" and "is_would_block e'" and "read_buffer j = []"
  shows "\<exists>out v got k. delivered (conf (out_queue i0)) es out v \<and>
    repeat_read (UdpInner_read ops' mc) (Suc (length got)) j = Some (map (\<lambda>m. Inr (Some m)) got @ [Inr None], k) \<and>
    subseq got (map (fst \<circ> snd \<circ> snd) out) \<and>
    (udp_pending i = [] \<and> ds = log (sock i) \<and> [] \<notin> set ds \<longrightarrow> got = map (fst \<circ> snd \<circ> snd) out \<and> v = [])"
proof -
  have "udp_line log i0 = []" using assms(5,6) by (simp add: udp_line_def)
  from udp_connected_invariant [OF assms(1-4) this] obtain out v where
    enc: "encrypted mc (enc_ctx i0) es" and out: "udp_line log i = map (snd \<circ> snd \<circ> snd) out"
      "view (out_queue i) = retag snd v" "delivered (conf (out_queue i0)) es out v"
    by (auto elim!: in_order_datagrams simp: o_def)
  have enc: "encrypted mc (enc_ctx i0) out"
    using enc delivered_subset [OF out(3)] unfolding encrypted_def by blast
  let ?q = "filter (\<lambda>d. d \<noteq> []) ds"
  have "subseq (log (sock i)) (udp_line log i)"
    by (intro prefix_imp_subseq) (simp add: udp_line_def)
  from subseq_order.trans [OF subseq_order.trans [OF subseq_filter_left assms(9)] this]
  have "subseq ?q (map (snd \<circ> snd \<circ> snd) out)" by (simp only: out(1))
  with assms(7,8) enc obtain got where got: "map (decrypt_some mc (dec_ctx j)) ?q = map (\<lambda>m. Inr (Some m)) got"
    "subseq got (map (fst \<circ> snd \<circ> snd) out)" "length ?q = length got"
    "length ?q = length out \<longrightarrow> got = map (fst \<circ> snd \<circ> snd) out"
    by (rule decrypt_datagrams)
  obtain k where "repeat_read (UdpInner_read ops' mc) (Suc (length got)) j =
      Some (map (\<lambda>m. Inr (Some m)) got @ [Inr None], k)"
    using udp_recv.burst_in_order [OF assms(14,10-13), of mc] got(1,3) by (auto simp: is_empty_vec_def)
  moreover have "got = map (fst \<circ> snd \<circ> snd) out \<and> v = []"
    if "udp_pending i = []" "ds = log (sock i)" "[] \<notin> set ds"
  proof -
    have "view (out_queue i) = []" "current_write i = None"
      using that(1) by (auto simp: udp_pending_def pending_of_def split: option.splits)
    with out that(2) have "v = []" "ds = map (snd \<circ> snd \<circ> snd) out" by (simp_all add: udp_line_def)
    moreover have "?q = ds" using that(3) by (auto intro: filter_True)
    ultimately show ?thesis using got(4) by simp
  qed
  ultimately show ?thesis using out(3) got(2) by blast
qed

text \<open>Two messages, of which the more urgent one waits until there is room, and no datagram is lost.\<close>

definition connected_log :: "net \<Rightarrow> byte list list" where
  "connected_log s = map fst (net_sent s)"

lemma connected_whole: "whole_sends (us_send net_ops) length connected_log"
  by (auto simp: whole_sends_def connected_log_def net_defs split: prod.splits nat.splits)

definition waiting_udp :: "(net, nat) UdpInner" where
  "waiting_udp = (sample_udp ([], [([5], V4 0 9)], 0))\<lparr> current_write := Some [6] \<rparr>"

lemma sample_encrypt: "encrypt bytes_codec rng EncryptContext.Null m = Inr m"
  by (simp add: encrypt_def bytes_codec_def)

lemma sample_connected:
  "udp_connected net_ops bytes_codec connected_log (sample_udp ([], [], Suc 0))
     [(1, 0, [5], [5]), (0, 0, [6], [6])] waiting_udp"
proof -
  let ?i = "sample_udp ([], [], Suc 0)" and ?j = "sample_udp ([], [([5], V4 0 9)], 0)"
  have "UdpInner_write net_ops bytes_codec 0 (\<lambda>_. 0) 0 (Some ([5], 1)) ?i =
      Some (Done (Inr True, ?i\<lparr> sock := ([], [([5], V4 0 9)], 0) \<rparr>))"
    by (simp add: UdpInner_write_def UdpInner_flush_write_def rust_loop.simps send_turn_def
        take_or_next_def handle_send_simps encrypt_def bytes_codec_def net_defs queue_simps)
  also have "?i\<lparr> sock := ([], [([5], V4 0 9)], 0) \<rparr> = ?j"
    by (simp add: sample_udp_def UdpInner_new_def)
  finally have first: "udp_connected net_ops bytes_codec connected_log ?i ([] @ arrival 0 (Some (1, [5], [5]))) ?j"
    by (intro session.wrote [OF session.opened, where w = "(0, Some ([5], 1))" and t = "\<lambda>_. 0" and b = True])
      (simp_all add: sample_encrypt)
  have "UdpInner_write net_ops bytes_codec 0 (\<lambda>_. 0) 0 (Some ([6], 0)) ?j = Some (Done (Inr False, waiting_udp))"
    by (simp add: UdpInner_write_def UdpInner_flush_write_def rust_loop.simps send_turn_def waiting_udp_def
        take_or_next_def handle_send_simps encrypt_def bytes_codec_def net_defs queue_simps is_would_block_def)
  then have "udp_connected net_ops bytes_codec connected_log ?i
      (([] @ arrival 0 (Some (1, [5], [5]))) @ arrival 0 (Some (0, [6], [6]))) waiting_udp"
    by (intro session.wrote [OF first, where w = "(0, Some ([6], 0))" and t = "\<lambda>_. 0" and b = False])
      (simp_all add: sample_encrypt)
  then show ?thesis by (simp add: arrival_def)
qed

theorem udp_connected_end_to_end_witness:
  "\<exists>out v got k. delivered (SocketConfig_default :: nat SocketConfig) [(1, 0, [5 :: byte], [5 :: byte]), (0, 0, [6], [6])] out v \<and>
    repeat_read (UdpInner_read net_ops bytes_codec) (Suc (length got)) (sample_udp ([([5], V4 0 1)], [], 0)) =
      Some (map (\<lambda>m. Inr (Some m)) got @ [Inr None], k) \<and>
    subseq got (map (fst \<circ> snd \<circ> snd) out)"
proof -
  let ?i = "sample_udp ([], [], Suc 0)" and ?j = "sample_udp ([([5], V4 0 1)], [], 0)"
  have start: "view (UdpInner.out_queue ?i) = []" "UdpInner.current_write ?i = None" "connected_log (sock ?i) = []"
    by (simp_all add: view_new connected_log_def net_sent_def)
  have lost: "subseq [[5]] (connected_log (sock waiting_udp))"
    by (simp add: waiting_udp_def connected_log_def net_sent_def)
  have d: "datagrams (\<lambda>s. us_recv net_ops s BUF_LEN) (sock ?j) [[5]] (IoError ErrorKind.WouldBlock []) ([], [], 0)"
    by (simp add: datagrams_simps net_defs)
  have blocked: "is_would_block (IoError ErrorKind.WouldBlock [])"
      "us_recv net_ops ([], [], 0) BUF_LEN = (Inl (IoError ErrorKind.WouldBlock []), ([], [], 0))"
    by (simp_all add: is_would_block_def net_defs)
  have contexts: "contexts_match (\<lambda>_ _. True) (enc_ctx (sample_udp ([], [], Suc 0))) (dec_ctx ?j)"
    and conf: "conf (UdpInner.out_queue (sample_udp ([], [], Suc 0))) = SocketConfig_default"
    by (simp_all add: OutQueue_new_def)
  show ?thesis
    using udp_connected_end_to_end [OF sample_connected connected_whole sample_udp_ok start
        bytes_codec_contract contexts lost d blocked(1,2,1)]
    unfolding conf by fastforce
qed

end
