(* ===== verification/Udp_Liveness.thy ===== *)
theory Udp_Liveness
  imports Udp_Connected Drain
begin

text \<open>
  What eventually happens on a UDP socket (\<open>src/src/udp.rs\<close>): both halves, the connected one with
  \<open>write\<close> and the addressed one with \<open>write_to\<close>, get everything out that is not dropped; and both
  implement the mailbox.
\<close>

section \<open>The connected half\<close>

lemma udp_pending_empty:
  "udp_pending i = [] \<Longrightarrow> view (out_queue i) = []"
  "udp_pending i = [] \<Longrightarrow> udp_line log i = log (sock i)"
  by (auto simp: udp_pending_def pending_of_def udp_line_def split: option.splits)

lemma same_connected_pending: "same_sending_connected log i i' \<Longrightarrow> udp_pending i' = udp_pending i"
  by (simp add: same_sending_connected_def udp_pending_def)

text \<open>A turn that goes on has sent the first datagram.\<close>

lemma send_turn_sends:
  assumes "whole_sends (us_send ops) length log" and "udp_ok i" and "send_turn ops i = Inl i'"
  shows "\<exists>d. udp_pending i = d # udp_pending i'"
proof (cases "udp_pending i")
  case Nil
  with send_turn_empty [OF assms(2), of ops] assms(3) show ?thesis by auto
next
  case (Cons d ds)
  obtain res s where r: "us_send ops (sock i) d = (res, s)" by (cases "us_send ops (sock i) d")
  with assms(1) have "n = length d" if "res = Inr n" for n
    using that unfolding whole_sends_def by blast
  with send_turn_first [OF assms(2) Cons r] assms(3) Cons show ?thesis
    by (cases res) (auto split: if_splits)
qed

lemma send_turn_succeeds:
  assumes "never_breaks (us_send ops)" and "udp_ok i"
  shows "send_turn ops i \<noteq> Inr (Done (Inl e, i'))"
proof (cases "udp_pending i")
  case Nil
  with send_turn_empty [OF assms(2), of ops] show ?thesis by auto
next
  case (Cons d ds)
  obtain res s where r: "us_send ops (sock i) d = (res, s)" by (cases "us_send ops (sock i) d")
  with assms(1) have "is_would_block e" if "res = Inl e" for e
    using that unfolding never_breaks_def by blast
  with send_turn_first [OF assms(2) Cons r] show ?thesis by (cases res) auto
qed

lemma send_turn_ready:
  assumes "accepts (us_send ops) (sock i)" and "udp_ok i" and "udp_pending i \<noteq> []"
  shows "\<exists>j. send_turn ops i = Inl j"
proof -
  from assms(3) obtain d ds where p: "udp_pending i = d # ds" by (cases "udp_pending i") simp_all
  from assms(1) obtain n s where "us_send ops (sock i) d = (Inr n, s)" unfolding accepts_def by blast
  from send_turn_first [OF assms(2) p this] show ?thesis by auto
qed

interpretation udp_drain: draining_sender "send_turn ops" "\<lambda>i. view (out_queue i)" "udp_line log" "\<lambda>d. [d]" "\<lambda>lost. length lost = 1"
  "\<lambda>i. udp_ok i \<and> whole_sends (us_send ops) length log" "\<lambda>i. (enc_ctx i, conf (out_queue i))"
  "snd :: 'm \<times> byte list \<Rightarrow> byte list" "\<lambda>i. conf (out_queue i)" "\<lambda>i. udp_encode mc (enc_ctx i)"
  "udp_write ops mc" "same_sending_connected log" udp_pending udp_ok io_failure "\<lambda>d. 1" "(0, None)"
  "never_breaks (us_send ops)" "\<lambda>i. accepts (us_send ops) (sock i)"
  for ops :: "'s udp_ops" and log and mc :: "('k, 'm) codec"
proof unfold_locales
  fix i :: "('s, 'k) UdpInner" and t t'
  assume good: "udp_ok i \<and> whole_sends (us_send ops) length log"
  then have q: "oq_ok (out_queue i)" by (simp add: udp_ok_def)
  let ?j = "i\<lparr> out_queue := snd (drop_expired t (out_queue i)) \<rparr>"
  have "\<exists>dropped. udp_pending i = udp_pending ?j @ dropped"
    unfolding udp_pending_def using drop_expired_steps [OF q, of t] pending_of_drop by simp
  then show "\<exists>j dropped. udp_write ops mc t t' (0, None) i = rust_loop (send_turn ops) j \<and>
      (udp_ok j \<and> whole_sends (us_send ops) length log) \<and> udp_pending i = udp_pending j @ dropped \<and>
      accepts (us_send ops) (sock j) = accepts (us_send ops) (sock i)"
    using good drop_expired_steps [OF q, of t]
    by (intro exI [of _ ?j]) (auto simp: UdpInner_write_def UdpInner_flush_write_def udp_ok_def)
next
  fix i i' :: "('s, 'k) UdpInner"
  assume "udp_ok i \<and> whole_sends (us_send ops) length log" and "send_turn ops i = Inl i'"
  with send_turn_sends [of ops log i i'] show "(\<Sum>d\<leftarrow>udp_pending i'. 1) < (\<Sum>d\<leftarrow>udp_pending i. (1 :: nat))" by auto
qed (auto simp: send_turn_succeeds send_turn_ready same_connected_pending udp_pending_empty(1))

section \<open>The addressed half\<close>

lemma udp_pending_to_empty:
  "udp_pending_to i = [] \<longleftrightarrow> view (out_queue2 i) = [] \<and> current_write_2 i = None"
  "udp_pending_to i = [] \<Longrightarrow> udp_line_to log i = log (sock i)"
  by (auto simp: udp_pending_to_def pending_of_def udp_line_to_def split: option.splits)

lemma same_to_pending: "same_sending_to log i i' \<Longrightarrow> udp_pending_to i' = udp_pending_to i"
  by (simp add: same_sending_to_def udp_pending_to_def)

lemma send_to_turn_succeeds:
  assumes "never_breaks (\<lambda>s (d, a). us_send_to ops s d a)" and "udp_ok i"
  shows "send_to_turn ops i \<noteq> Inr (Done (Inl e, i'))"
proof (cases "udp_pending_to i")
  case Nil
  with send_to_turn_empty [OF assms(2), of ops] show ?thesis by auto
next
  case (Cons x ds)
  obtain d a where x: "x = (d, a)" by (cases x)
  obtain res s where r: "us_send_to ops (sock i) d a = (res, s)" by (cases "us_send_to ops (sock i) d a")
  with assms(1) have "is_would_block e" if "res = Inl e" for e
    using that unfolding never_breaks_def by fastforce
  with send_to_turn_first [OF assms(2) Cons [unfolded x] r] show ?thesis by (cases res) auto
qed

lemma send_to_turn_ready:
  assumes "accepts (\<lambda>s (d, a). us_send_to ops s d a) (sock i)" and "udp_ok i" and "udp_pending_to i \<noteq> []"
  shows "\<exists>j. send_to_turn ops i = Inl j"
proof -
  from assms(3) obtain d a ds where p: "udp_pending_to i = (d, a) # ds" by (cases "udp_pending_to i") auto
  from assms(1) obtain n s where "us_send_to ops (sock i) d a = (Inr n, s)" unfolding accepts_def by fastforce
  from send_to_turn_first [OF assms(2) p this] show ?thesis by auto
qed

interpretation udp_drain_to: draining_sender "send_to_turn ops" "\<lambda>i. view (out_queue2 i)" "udp_line_to log" "\<lambda>d. [d]" "\<lambda>lost. length lost = 1"
  "\<lambda>i. udp_ok i \<and> whole_sends (\<lambda>s (d, a). us_send_to ops s d a) (length \<circ> fst) log"
  "\<lambda>i. (enc_ctx i, conf (out_queue2 i))" "snd :: 'm \<times> addressed \<Rightarrow> addressed"
  "\<lambda>i. conf (out_queue2 i)" "\<lambda>i. udp_encode_to mc (enc_ctx i)" "udp_write_to ops mc" "same_sending_to log"
  udp_pending_to udp_ok io_failure "\<lambda>d. 1" "(0, None)" "never_breaks (\<lambda>s (d, a). us_send_to ops s d a)"
  "\<lambda>i. accepts (\<lambda>s (d, a). us_send_to ops s d a) (sock i)"
  for ops :: "'s udp_ops" and log and mc :: "('k, 'm) codec"
proof unfold_locales
  fix i :: "('s, 'k) UdpInner" and t t'
  assume good: "udp_ok i \<and> whole_sends (\<lambda>s (d, a). us_send_to ops s d a) (length \<circ> fst) log"
  then have q: "oq_ok (out_queue2 i)" by (simp add: udp_ok_def)
  let ?j = "i\<lparr> out_queue2 := snd (drop_expired t (out_queue2 i)) \<rparr>"
  have "\<exists>dropped. udp_pending_to i = udp_pending_to ?j @ dropped"
    unfolding udp_pending_to_def using drop_expired_steps [OF q, of t] pending_of_drop by simp
  then show "\<exists>j dropped. udp_write_to ops mc t t' (0, None) i = rust_loop (send_to_turn ops) j \<and>
      (udp_ok j \<and> whole_sends (\<lambda>s (d, a). us_send_to ops s d a) (length \<circ> fst) log) \<and>
      udp_pending_to i = udp_pending_to j @ dropped \<and>
      accepts (\<lambda>s (d, a). us_send_to ops s d a) (sock j) = accepts (\<lambda>s (d, a). us_send_to ops s d a) (sock i)"
    using good drop_expired_steps [OF q, of t]
    by (intro exI [of _ ?j]) (auto simp: UdpInner_write_to_def UdpInner_flush_write_to_def udp_ok_def)
next
  fix i i' :: "('s, 'k) UdpInner"
  assume "udp_ok i \<and> whole_sends (\<lambda>s (d, a). us_send_to ops s d a) (length \<circ> fst) log"
    and "send_to_turn ops i = Inl i'"
  then have "udp_pending_to i = hd (udp_pending_to i) # udp_pending_to i'"
    using udp_whole_to.turn_shortens by blast
  from arg_cong [OF this, of length]
  show "(\<Sum>d\<leftarrow>udp_pending_to i'. 1) < (\<Sum>d\<leftarrow>udp_pending_to i. (1 :: nat))" by (simp add: sum_list_triv)
qed (auto simp: send_to_turn_succeeds send_to_turn_ready same_to_pending udp_pending_to_empty(1))

abbreviation udp_rounds_to ::
  "'s udp_ops \<Rightarrow> ('k, 'm) codec \<Rightarrow> (nat \<Rightarrow> 's \<Rightarrow> 's) \<Rightarrow> (nat \<Rightarrow> readings) \<Rightarrow> ('s, 'k) UdpInner \<Rightarrow> nat \<Rightarrow>
     ('s, 'k) UdpInner option" where
  "udp_rounds_to ops mc env clock \<equiv>
     rounds (\<lambda>n. UdpInner_write_to ops mc 0 (clock n) 0 None) (\<lambda>n i. i\<lparr> sock := env n (sock i) \<rparr>)"

lemma send_to_loop_fails:
  assumes "rust_loop (send_to_turn ops) i = Some (Done (Inl e, i'))"
  shows "current_write_2 i' = None"
proof -
  have exit: "current_write_2 j' = None" if "send_to_turn ops j = Inr (Done (Inl e, j'))" for j e j'
    using that by (auto simp: send_to_turn_def handle_send_res_def Let_def
        split: outcome.splits option.splits prod.splits sum.splits if_splits bool.splits)
  have "\<forall>e i'. out = Done (Inl e, i') \<longrightarrow> current_write_2 i' = None" if "rust_loop (send_to_turn ops) j = Some out" for j out
    by (rule rust_loop_rule [OF that, where P = "\<lambda>_. True"]) (auto dest: exit)
  with assms show ?thesis by blast
qed

section \<open>Properties\<close>

text \<open>
  C10. \<open>write_to\<close> implements the mailbox: on a socket that sends datagrams whole or not at all, every call
  is a run of it, whatever the socket answers. The queue and the datagrams handed over, completed by the one being
  written, mirror the mailbox, and the answer says whether it is empty. After an error of the socket
  the queue still mirrors the mailbox, nothing is being written, and what was handed over is exactly
  what has departed but for the last datagram, the one that met the error.
\<close>

theorem udp_refines_mailbox:
  assumes "udp_ok i" and "whole_sends (\<lambda>s (d, a). us_send_to ops s d a) (length \<circ> fst) log"
    and "mirrors snd (\<lambda>d. [d]) m (view (out_queue2 i)) (udp_line_to log i)"
    and "UdpInner_write_to ops mc rng t t' msg i = Some (Done (r, i'))"
  shows "case udp_encode_to mc (enc_ctx i) (rng, msg) of
      Inl e \<Rightarrow> r = Inl e \<and> (\<exists>m'. mail_run (conf (out_queue2 i)) [Expire t] m = Some m' \<and>
        mirrors snd (\<lambda>d. [d]) m' (view (out_queue2 i')) (udp_line_to log i'))
    | Inr new \<Rightarrow> \<exists>n m'. mail_run (conf (out_queue2 i)) (write_events t t' new n) m = Some m' \<and>
        (case r of
           Inr b \<Rightarrow> mirrors snd (\<lambda>d. [d]) m' (view (out_queue2 i')) (udp_line_to log i') \<and>
             (b \<longleftrightarrow> waiting m' = [] \<and> current_write_2 i' = None)
         | Inl _ \<Rightarrow> view (out_queue2 i') = retag snd (waiting m') \<and> current_write_2 i' = None \<and>
             (\<exists>d. log (sock i') @ [d] = msgs (retag snd (departed m'))))"
proof -
  have gone: "current_write_2 i' = None" if "r = Inl e" "udp_encode_to mc (enc_ctx i) (rng, msg) = Inr new" for e new
    using assms(1)
  proof (cases rule: UdpInner_write_to_cases [where msg = msg and mc = mc and rng = rng and ops = ops and t = t and t' = t'])
    case (flushed new j)
    with assms(4) that(1) show ?thesis by (simp add: send_to_loop_fails)
  qed (use that(2) in \<open>auto simp: try_op_def\<close>)
  have answer: "b \<longleftrightarrow> view (out_queue2 i') = [] \<and> current_write_2 i' = None" if "r = Inr b" for b
    using assms(1)
  proof (cases rule: UdpInner_write_to_cases [where msg = msg and mc = mc and rng = rng and ops = ops and t = t and t' = t'])
    case (flushed new j)
    with udp_flush_to.flush_result [of ops j "Done (r, i')"] assms(4) that show ?thesis
      by (cases b) (auto simp: udp_pending_to_empty(1))
  qed (use assms(4) that in simp)
  have empty: "waiting m' = [] \<longleftrightarrow> view (out_queue2 i') = []"
    if "mirrors snd (\<lambda>d. [d]) m' (view (out_queue2 i')) l" for m' l
    using that by (simp add: mirrors_def)
  note sim = udp_mail_to.write_simulates [where ops = ops and log = log and i = i and m = m and
      mc = mc and t = t and t' = t' and w = "(rng, msg)" and r = r and i' = i', simplified, OF _ assms(3,4)]
  have lost: "view (out_queue2 i') = retag snd (waiting m') \<and> (\<exists>d. log (sock i') @ [d] = msgs (retag snd (departed m')))"
    if "cut_by (\<lambda>lost. length lost = 1) snd (\<lambda>d. [d]) m' (view (out_queue2 i')) (udp_line_to log i')"
      "current_write_2 i' = None" for m'
  proof -
    from that obtain lost where "length lost = 1" "log (sock i') @ lost = msgs (retag snd (departed m'))"
      "view (out_queue2 i') = retag snd (waiting m')"
      by (auto simp: cut_by_def udp_line_to_def concat_units simp del: map_map)
    then show ?thesis by (auto simp: length_Suc_conv)
  qed
  show ?thesis
  proof (cases r)
    case (Inl e)
    with sim assms(1,2) gone lost show ?thesis by (fastforce split: sum.split)
  next
    case (Inr b)
    with sim assms(1,2) answer empty show ?thesis by (auto split: sum.splits)
  qed
qed

lemma sample_write_to:
  "UdpInner_write_to net_ops bytes_codec 0 (\<lambda>_. 0) 0 (Some ([5], V4 7 80, 1)) (sample_udp ([], [], Suc 0)) =
     Some (Done (Inr True, sample_udp ([], [([5], V4 7 80)], 0)))"
  by (simp add: UdpInner_write_to_def UdpInner_flush_write_to_def rust_loop.simps send_to_turn_def
      take_or_next_def handle_send_simps encrypt_def bytes_codec_def net_defs queue_simps sample_udp_def UdpInner_new_def)

theorem udp_refines_mailbox_witness:
  "\<exists>n m'. mail_run (SocketConfig_default :: nat SocketConfig)
      (write_events (\<lambda>_. 0) 0 (Some (1, [5 :: byte], [5 :: byte], V4 7 80)) n) empty_mailbox = Some m' \<and>
    mirrors snd (\<lambda>d. [d]) m' [] [([5], V4 7 80)] \<and> waiting m' = []"
proof -
  let ?i = "sample_udp ([], [], Suc 0)"
  have m: "mirrors snd (\<lambda>d. [d]) empty_mailbox (view (out_queue2 ?i)) (udp_line_to net_sent ?i)"
    by (simp add: view_new udp_line_to_def net_sent_def mirrors_empty)
  have conf: "conf (OutQueue_new c) = c" for c :: "nat SocketConfig" by (simp add: OutQueue_new_def)
  from udp_refines_mailbox [OF sample_udp_ok net_whole_to m sample_write_to] show ?thesis
    by (simp add: sample_encrypt view_new udp_line_to_def net_sent_def conf)
qed

text \<open>
  C11. Everything gets out over UDP: if, after any session of \<open>write_to\<close> calls, the program goes on
  calling \<open>write_to(None)\<close>, and the socket accepts datagrams again and again and never fails for another
  reason than a lack of room, then from some point on nothing is left to send. The datagrams handed
  to the network are then those of accepted messages, in order within each priority, and none of
  a priority that may not be dropped is missing.
\<close>

theorem udp_everything_gets_out:
  assumes "udp_writes ops mc log i0 es i"
    and "whole_sends (\<lambda>s (d, a). us_send_to ops s d a) (length \<circ> fst) log"
    and "udp_ok i0" and "udp_pending_to i0 = []" and "log (sock i0) = []"
    and "never_breaks (\<lambda>s (d, a). us_send_to ops s d a)" and "\<forall>n s. log (env n s) = log s"
    and "\<forall>m. \<exists>n\<ge>m. \<forall>j. udp_rounds_to ops mc env clock i n = Some j \<longrightarrow>
      accepts (\<lambda>s (d, a). us_send_to ops s d a) (env n (sock j))"
  shows "\<exists>N. \<forall>n\<ge>N. \<exists>j out. udp_rounds_to ops mc env clock i n = Some j \<and>
    udp_pending_to j = [] \<and> log (sock j) = msgs (retag snd out) \<and>
    (\<forall>k. subseq (of_class k out) (of_class k es)) \<and>
    (\<forall>k < conf_msg_drop_priority (conf (out_queue2 i0)). of_class k out = of_class k es)"
proof -
  let ?e = "\<lambda>n (i :: ('a, 'b) UdpInner). i\<lparr> sock := env n (sock i) \<rparr>"
  have good: "udp_ok i0 \<and> whole_sends (\<lambda>s (d, a). us_send_to ops s d a) (length \<circ> fst) log"
    and empty: "view (out_queue2 i0) = []" "udp_line_to log i0 = []"
    using assms(2-5) udp_pending_to_empty [of i0] by simp_all
  have steps: "\<forall>n j. same_sending_to log j (?e n j)"
    using assms(7) by (simp add: same_sending_to_def udp_ok_def)
  have fair: "\<forall>m. \<exists>n\<ge>m. \<forall>j. rounds (\<lambda>n. udp_write_to ops mc (clock n) 0 (0, None)) ?e i n = Some j \<longrightarrow>
      accepts (\<lambda>s (d, a). us_send_to ops s d a) (sock (?e n j))"
    using assms(8) by simp
  have line: "udp_pending_to j = [] \<and> udp_line_to log j = x \<and> P \<longleftrightarrow> udp_pending_to j = [] \<and> log (sock j) = x \<and> P"
    for j :: "('a, 'b) UdpInner" and x P
    using udp_pending_to_empty(2) [of j log] by auto
  from udp_drain_to.everything_gets_out [OF assms(6,1) good empty steps fair] show ?thesis
    by (simp only: concat_units line prod.case)
qed

text \<open>A datagram that finds no room at first, and room for one more in each round.\<close>

definition stuck_udp :: "(net, nat) UdpInner" where
  "stuck_udp = (sample_udp ([], [], 0))\<lparr> current_write_2 := Some ([5], V4 7 80) \<rparr>"

definition more_slots :: "net \<Rightarrow> net" where
  "more_slots s = (case s of (ds, out, room) \<Rightarrow> (ds, out, Suc room))"

lemma stuck_udp_session:
  "udp_writes net_ops bytes_codec net_sent (sample_udp ([], [], 0)) [(1, 0, [5], [5], V4 7 80)] stuck_udp"
proof -
  have "UdpInner_write_to net_ops bytes_codec 0 (\<lambda>_. 0) 0 (Some ([5], V4 7 80, 1)) (sample_udp ([], [], 0)) =
      Some (Done (Inr False, stuck_udp))"
    by (simp add: UdpInner_write_to_def UdpInner_flush_write_to_def rust_loop.simps send_to_turn_def stuck_udp_def
        take_or_next_def handle_send_simps encrypt_def bytes_codec_def net_defs queue_simps is_would_block_def)
  then have "udp_writes net_ops bytes_codec net_sent (sample_udp ([], [], 0))
      ([] @ arrival 0 (Some (1, [5], [5], V4 7 80))) stuck_udp"
    by (intro session.wrote [OF session.opened, where w = "(0, Some ([5], V4 7 80, 1))" and t = "\<lambda>_. 0" and b = False])
      (simp_all add: sample_encrypt)
  then show ?thesis by (simp add: arrival_def)
qed

theorem udp_everything_gets_out_witness:
  "\<exists>N. \<forall>n\<ge>N. \<exists>j out. udp_rounds_to net_ops bytes_codec (\<lambda>_. more_slots) (\<lambda>n p. n) stuck_udp n = Some j \<and>
    udp_pending_to j = [] \<and> net_sent (sock j) = msgs (retag snd out) \<and>
    (\<forall>k. subseq (of_class k out) (of_class k [(1, 0, [5 :: byte], [5 :: byte], V4 7 80)])) \<and>
    (\<forall>k < 2. of_class k out = of_class k [(1, 0, [5 :: byte], [5 :: byte], V4 7 80)])"
proof -
  let ?i = "sample_udp ([], [], 0)"
  have start: "udp_pending_to ?i = []" "net_sent (sock ?i) = []"
    by (simp_all add: udp_pending_to_def pending_of_def view_new net_sent_def)
  have never: "never_breaks (\<lambda>s (d, a). us_send_to net_ops s d a)"
    by (auto simp: never_breaks_def net_defs is_would_block_def split: prod.splits nat.splits)
  have accepts: "accepts (\<lambda>s (d, a). us_send_to net_ops s d a) (more_slots s)" for s
    by (cases s) (auto simp: accepts_def more_slots_def net_defs)
  have log: "\<forall>n s. net_sent (more_slots s) = net_sent s"
    by (simp add: more_slots_def net_sent_def split: prod.split)
  have conf: "conf_msg_drop_priority (conf (out_queue2 ?i)) = 2"
    by (simp add: OutQueue_new_def config_defaults)
  from udp_everything_gets_out [OF stuck_udp_session net_whole_to sample_udp_ok start never log, where
      clock = "\<lambda>n p. n"] accepts
  show ?thesis unfolding conf by fast
qed

end
