(* ===== verification/Udp_Tests.thy ===== *)
theory Udp_Tests
  imports Udp_Liveness Test_Setup
begin

text \<open>
  Two integration tests of UDP (\<open>tests/udp.rs\<close>): two sockets send a datagram each to a third, which is
  not connected (\<open>any_endpoint\<close>) or connected to one of them (\<open>only_connected\<close>). The tests are driven by
  the events of a \<open>Poll\<close>; which event comes next and what the system delivers in between are open.
\<close>

section \<open>The tests\<close>

definition SOCKET3_TOKEN :: Token where
  "SOCKET3_TOKEN = 2"

definition TIMEOUT_TOKEN :: Token where
  "TIMEOUT_TOKEN = 3"

lemmas endpoint_tokens = SOCKET1_TOKEN_def SOCKET2_TOKEN_def SOCKET3_TOKEN_def TIMEOUT_TOKEN_def

record ('s, 'k) endpoints =
  sock1 :: "('s, 'k) UdpSock"
  sock2 :: "('s, 'k) UdpSock"
  sock3 :: "('s, 'k) UdpSock"
  received_from :: "SocketAddr list"

text \<open>
  Setting up. \<open>any_addr\<close> is \<open>127.0.0.1:0\<close>, and each socket is bound in a state of the system of its own.
\<close>

definition register_all ::
  "'s udp_ops \<Rightarrow> registration \<Rightarrow> ('s, 'k) UdpSock \<Rightarrow> ('s, 'k) UdpSock \<Rightarrow> ('s, 'k) UdpSock \<Rightarrow>
     ('s, 'k) endpoints outcome" where
  "register_all ops reg s1 s2 s3 =
     unwrap_call (UdpSock_register ops (the_poll reg) SOCKET1_TOKEN (readable reg) (edge reg) s1) (\<lambda>_ s1.
     unwrap_call (UdpSock_register ops (the_poll reg) SOCKET2_TOKEN (writable reg) (edge reg) s2) (\<lambda>_ s2.
     unwrap_call (UdpSock_register ops (the_poll reg) SOCKET3_TOKEN (writable reg) (edge reg) s3) (\<lambda>_ s3.
       Done \<lparr> sock1 = s1, sock2 = s2, sock3 = s3, received_from = [] \<rparr>)))"

definition any_endpoint_start ::
  "'s udp_ops \<Rightarrow> registration \<Rightarrow> SocketAddr \<Rightarrow> 's \<Rightarrow> 's \<Rightarrow> 's \<Rightarrow>
     (('s, 'k) endpoints \<times> SocketAddr \<times> SocketAddr \<times> SocketAddr) outcome" where
  "any_endpoint_start ops reg any_addr w1 w2 w3 =
     unwrap (UdpSock_bind ops w1 any_addr) (\<lambda>s1.
     unwrap_call (UdpSock_local_addr ops s1) (\<lambda>server_addr s1.
     unwrap (UdpSock_bind ops w2 any_addr) (\<lambda>s2.
     unwrap_call (UdpSock_local_addr ops s2) (\<lambda>sock2_addr s2.
     unwrap (UdpSock_bind ops w3 any_addr) (\<lambda>s3.
     unwrap_call (UdpSock_local_addr ops s3) (\<lambda>sock3_addr s3.
       map_outcome (\<lambda>st. (st, server_addr, sock2_addr, sock3_addr)) (register_all ops reg s1 s2 s3)))))))"

definition only_connected_start ::
  "'s udp_ops \<Rightarrow> registration \<Rightarrow> SocketAddr \<Rightarrow> 's \<Rightarrow> 's \<Rightarrow> 's \<Rightarrow>
     (('s, 'k) endpoints \<times> SocketAddr \<times> SocketAddr) outcome" where
  "only_connected_start ops reg any_addr w1 w2 w3 =
     unwrap (UdpSock_bind ops w2 any_addr) (\<lambda>s2.
     unwrap_call (UdpSock_local_addr ops s2) (\<lambda>sock2_addr s2.
     unwrap (UdpSock_bind ops w1 any_addr) (\<lambda>s1.
     unwrap_call (UdpSock_connect ops sock2_addr s1) (\<lambda>_ s1.
     unwrap_call (UdpSock_local_addr ops s1) (\<lambda>server_addr s1.
     unwrap (UdpSock_bind ops w3 any_addr) (\<lambda>s3.
       map_outcome (\<lambda>st. (st, server_addr, sock2_addr)) (register_all ops reg s1 s2 s3)))))))"

text \<open>
  The inner loop of both: \<open>add\<close> is \<open>push\<close> on the vector, or \<open>insert\<close> on the set, which is a list
  without repetitions; its order does not matter, since the test looks at an element only when
  there is one.
\<close>

definition collect_turn ::
  "(SocketAddr list \<Rightarrow> SocketAddr \<Rightarrow> SocketAddr list) \<Rightarrow> 's udp_ops \<Rightarrow> ('k, byte list) codec \<Rightarrow>
     ('s, 'k) UdpSock \<times> SocketAddr list \<Rightarrow>
     (('s, 'k) UdpSock \<times> SocketAddr list) + (('s, 'k) UdpSock \<times> SocketAddr list) outcome option" where
  "collect_turn add ops mc = (\<lambda>(s1, received_from).
     (case UdpSock_read_frm ops mc s1 of
        None \<Rightarrow> Inr None
      | Some (Done (Inr (Some (_, peer_addr)), s1)) \<Rightarrow> Inl (s1, add received_from peer_addr)
      | Some (Done (Inr None, s1)) \<Rightarrow> Inr (Some (Done (s1, received_from)))
      | Some _ \<Rightarrow> Inr (Some Panicked)))"

definition collect ::
  "(SocketAddr list \<Rightarrow> SocketAddr \<Rightarrow> SocketAddr list) \<Rightarrow> 's udp_ops \<Rightarrow> ('k, byte list) codec \<Rightarrow>
     ('s, 'k) UdpSock \<times> SocketAddr list \<Rightarrow> (('s, 'k) UdpSock \<times> SocketAddr list) outcome option" where
  "collect add ops mc p = (case rust_loop (collect_turn add ops mc) p of None \<Rightarrow> None | Some r \<Rightarrow> r)"

definition push_addr :: "SocketAddr list \<Rightarrow> SocketAddr \<Rightarrow> SocketAddr list" where
  "push_addr v a = v @ [a]"

definition insert_addr :: "SocketAddr list \<Rightarrow> SocketAddr \<Rightarrow> SocketAddr list" where
  "insert_addr v a = List.insert a v"

text \<open>A sender's event: the datagram is written, and has to be sent at once.\<close>

definition payload :: "byte list" where
  "payload = [1, 2, 3]"

definition send_payload ::
  "'s udp_ops \<Rightarrow> ('k, byte list) codec \<Rightarrow> nat \<Rightarrow> readings \<Rightarrow> instant \<Rightarrow> SocketAddr \<Rightarrow> ('s, 'k) UdpSock \<Rightarrow>
     ('s, 'k) UdpSock outcome option" where
  "send_payload ops mc rng t t' server_addr us =
     (case UdpSock_write_to ops mc rng t t' (Some (payload, server_addr, 1)) us of
        None \<Rightarrow> None
      | Some (Done (Inr data_sent, us)) \<Rightarrow> Some (if data_sent then Done us else Panicked)
      | Some _ \<Rightarrow> Some Panicked)"

text \<open>
  An event leads to the next state or ends the test, with a panic unless it has passed. \<open>contains\<close> is
  the matcher \<open>contains(..).exactly()\<close> of the library \<open>hamcrest2\<close>.
\<close>

definition any_endpoint_event ::
  "'s udp_ops \<Rightarrow> ('k, byte list) codec \<Rightarrow> registration \<Rightarrow> (SocketAddr list \<Rightarrow> SocketAddr list \<Rightarrow> bool) \<Rightarrow>
     SocketAddr \<times> SocketAddr \<times> SocketAddr \<Rightarrow> Token \<Rightarrow> nat \<Rightarrow> readings \<Rightarrow> instant \<Rightarrow>
     ('s, 'k) endpoints \<Rightarrow> (('s, 'k) endpoints + unit outcome) option" where
  "any_endpoint_event ops mc reg contains addrs token rng t t' st =
     (case addrs of (server_addr, sock2_addr, sock3_addr) \<Rightarrow>
      if token = SOCKET1_TOKEN then
        (case collect push_addr ops mc (sock1 st, received_from st) of
           None \<Rightarrow> None
         | Some Panicked \<Rightarrow> Some (Inr Panicked)
         | Some (Done (s1, from)) \<Rightarrow>
             Some (if length from = 2
                   then Inr (if contains from [sock2_addr, sock3_addr] then Done () else Panicked)
                   else Inl (st\<lparr> sock1 := s1, received_from := from \<rparr>)))
      else if token = SOCKET2_TOKEN then
        (case send_payload ops mc rng t t' server_addr (sock2 st) of
           None \<Rightarrow> None
         | Some Panicked \<Rightarrow> Some (Inr Panicked)
         | Some (Done s2) \<Rightarrow>
             (case UdpSock_deregister ops (the_poll reg) s2 of
                (Inl _, _) \<Rightarrow> Some (Inr Panicked)
              | (Inr _, s2) \<Rightarrow> Some (Inl (st\<lparr> sock2 := s2 \<rparr>))))
      else if token = SOCKET3_TOKEN then
        (case send_payload ops mc rng t t' server_addr (sock3 st) of
           None \<Rightarrow> None
         | Some Panicked \<Rightarrow> Some (Inr Panicked)
         | Some (Done s3) \<Rightarrow>
             (case UdpSock_deregister ops (the_poll reg) s3 of
                (Inl _, _) \<Rightarrow> Some (Inr Panicked)
              | (Inr _, s3) \<Rightarrow> Some (Inl (st\<lparr> sock3 := s3 \<rparr>))))
      else Some (Inr Panicked))"

definition only_connected_event ::
  "'s udp_ops \<Rightarrow> ('k, byte list) codec \<Rightarrow> SocketAddr \<times> SocketAddr \<Rightarrow> Token \<Rightarrow> nat \<Rightarrow> readings \<Rightarrow> instant \<Rightarrow>
     ('s, 'k) endpoints \<Rightarrow> (('s, 'k) endpoints + unit outcome) option" where
  "only_connected_event ops mc addrs token rng t t' st =
     (case addrs of (server_addr, sock2_addr) \<Rightarrow>
      if token = SOCKET1_TOKEN then
        (case collect insert_addr ops mc (sock1 st, received_from st) of
           None \<Rightarrow> None
         | Some Panicked \<Rightarrow> Some (Inr Panicked)
         | Some (Done (s1, from)) \<Rightarrow> Some (Inl (st\<lparr> sock1 := s1, received_from := from \<rparr>)))
      else if token = SOCKET2_TOKEN then
        (case send_payload ops mc rng t t' server_addr (sock2 st) of
           None \<Rightarrow> None
         | Some Panicked \<Rightarrow> Some (Inr Panicked)
         | Some (Done s2) \<Rightarrow> Some (Inl (st\<lparr> sock2 := s2 \<rparr>)))
      else if token = SOCKET3_TOKEN then
        (case send_payload ops mc rng t t' server_addr (sock3 st) of
           None \<Rightarrow> None
         | Some Panicked \<Rightarrow> Some (Inr Panicked)
         | Some (Done s3) \<Rightarrow> Some (Inl (st\<lparr> sock3 := s3 \<rparr>)))
      else if token = TIMEOUT_TOKEN then
        Some (Inr (if length (received_from st) = 1 \<and>
             (case received_from st of [] \<Rightarrow> None | a # _ \<Rightarrow> Some a) = Some sock2_addr
           then Done () else Panicked))
      else Some (Inr Panicked))"

section \<open>The system they run on\<close>

text \<open>
  What can be observed of a socket of the system: its address, the peer it is connected to, if it
  is registered with the poll, the datagrams it has sent with their destinations, and those that
  have arrived with their senders, of which some have been taken by \<open>recv_from\<close>.
\<close>

record observed =
  home :: SocketAddr
  only_from :: "SocketAddr option"
  polled :: bool
  sent :: "addressed list"
  arrived :: "addressed list"
  taken :: "addressed list"

text \<open>What the calls that set a socket up do to it, and what a receive hands out: the next datagram, cut
  to the length of the buffer, or nothing when all that has arrived is taken.\<close>

definition udp_setup :: "'s udp_ops \<Rightarrow> ('s \<Rightarrow> observed) \<Rightarrow> bool" where
  "udp_setup ops obs \<longleftrightarrow>
     (\<forall>w a s. us_bind ops w a = Inr s \<longrightarrow>
        (\<exists>b. obs s = \<lparr> home = b, only_from = None, polled = False, sent = [], arrived = [], taken = [] \<rparr>)) \<and>
     (\<forall>s a s'. us_local_addr ops s = (Inr a, s') \<longrightarrow> a = home (obs s) \<and> obs s' = obs s) \<and>
     (\<forall>s a s'. us_connect ops s a = (Inr (), s') \<longrightarrow> obs s' = (obs s)\<lparr> only_from := Some a \<rparr>) \<and>
     (\<forall>s poll token interest opt s'. us_register ops s poll token interest opt = (Inr (), s') \<longrightarrow>
        obs s' = (obs s)\<lparr> polled := True \<rparr>)"

definition udp_takes :: "'s udp_ops \<Rightarrow> ('s \<Rightarrow> observed) \<Rightarrow> bool" where
  "udp_takes ops obs \<longleftrightarrow>
     (\<forall>s n r s'. us_recv_from ops s n = (r, s') \<longrightarrow>
        (case r of
           Inl e \<Rightarrow> is_would_block e \<and> obs s' = obs s \<and> taken (obs s) = arrived (obs s)
         | Inr (buf, a) \<Rightarrow> \<exists>d rest. arrived (obs s) = taken (obs s) @ (d, a) # rest \<and> buf = take n d \<and>
             obs s' = (obs s)\<lparr> taken := taken (obs s) @ [(d, a)] \<rparr>))"

text \<open>The loopback interface under little load: a send is not refused.\<close>

definition udp_loopback :: "'s udp_ops \<Rightarrow> ('s \<Rightarrow> observed) \<Rightarrow> bool" where
  "udp_loopback ops obs \<longleftrightarrow>
     udp_setup ops obs \<and> udp_takes ops obs \<and>
     (\<forall>s poll. \<exists>s'. us_deregister ops s poll = (Inr (), s') \<and> obs s' = (obs s)\<lparr> polled := False \<rparr>) \<and>
     (\<forall>s d a. \<exists>s'. us_send_to ops s d a = (Inr (length d), s') \<and>
        obs s' = (obs s)\<lparr> sent := sent (obs s) @ [(d, a)] \<rparr>)"

text \<open>
  Between two events datagrams arrive at the first socket: from the peer it is connected to, if it
  is, and each of those sent to it at most once, with the address of the sender.
\<close>

definition incoming :: "observed \<Rightarrow> observed \<Rightarrow> addressed multiset" where
  "incoming here there = mset (map (\<lambda>(d, _). (d, home there)) (filter (\<lambda>(_, a). a = home here) (sent there)))"

definition delivery :: "observed \<Rightarrow> observed \<Rightarrow> observed \<Rightarrow> observed \<Rightarrow> bool" where
  "delivery o1 o2 o3 o1' \<longleftrightarrow>
     (\<exists>new. o1' = o1\<lparr> arrived := arrived o1 @ new \<rparr> \<and>
        (\<forall>d\<in>set new. case only_from o1 of None \<Rightarrow> True | Some a \<Rightarrow> snd d = a)) \<and>
     mset (arrived o1') \<subseteq># incoming o1 o2 + incoming o1 o3"

definition moves :: "('s \<Rightarrow> observed) \<Rightarrow> ('s, 'k) endpoints \<Rightarrow> ('s, 'k) endpoints \<Rightarrow> bool" where
  "moves obs st st' \<longleftrightarrow>
     (\<exists>i1 i2 i3 s1. sock1 st = Some i1 \<and> sock2 st = Some i2 \<and> sock3 st = Some i3 \<and>
        delivery (obs (sock i1)) (obs (sock i2)) (obs (sock i3)) (obs s1) \<and>
        st' = st\<lparr> sock1 := Some (i1\<lparr> sock := s1 \<rparr>) \<rparr>)"

text \<open>What may happen: the poll reports events of registered sockets only.\<close>

definition may_report :: "('s \<Rightarrow> observed) \<Rightarrow> Token \<Rightarrow> ('s, 'k) endpoints \<Rightarrow> bool" where
  "may_report obs token st \<longleftrightarrow>
     token \<in> {SOCKET1_TOKEN, SOCKET2_TOKEN, SOCKET3_TOKEN} \<and>
     (token = SOCKET2_TOKEN \<longrightarrow> (\<exists>i. sock2 st = Some i \<and> polled (obs (sock i)))) \<and>
     (token = SOCKET3_TOKEN \<longrightarrow> (\<exists>i. sock3 st = Some i \<and> polled (obs (sock i))))"

text \<open>
  The states a test reaches. \<open>event\<close> is the handling of one event, and the argument of the first
  rule the state after setting up.
\<close>

inductive test_run ::
  "('s \<Rightarrow> observed) \<Rightarrow> (Token \<Rightarrow> nat \<Rightarrow> readings \<Rightarrow> instant \<Rightarrow> ('s, 'k) endpoints \<Rightarrow>
     (('s, 'k) endpoints + unit outcome) option) \<Rightarrow> ('s, 'k) endpoints \<Rightarrow> ('s, 'k) endpoints \<Rightarrow> bool"
  for obs event st0 where
  started: "test_run obs event st0 st0"
| moved: "test_run obs event st0 st \<Longrightarrow> moves obs st st' \<Longrightarrow> test_run obs event st0 st'"
| handled: "test_run obs event st0 st \<Longrightarrow> may_report obs token st \<Longrightarrow>
    event token rng t t' st = Some (Inl st') \<Longrightarrow> test_run obs event st0 st'"

section \<open>Calls on this system\<close>

text \<open>How the payload looks on the wire, under the null contexts the tests use.\<close>

definition carries :: "('k, byte list) codec \<Rightarrow> byte list \<Rightarrow> byte list \<Rightarrow> bool" where
  "carries mc m d \<longleftrightarrow> serialise mc m = Inr d \<and> deserialise mc d = Inr m \<and> d \<noteq> [] \<and> length d \<le> BUF_LEN"

lemma carriesD:
  assumes "carries mc m d"
  shows "encrypt mc rng EncryptContext.Null m = Inr d" "decrypt mc DecryptContext.Null d = Inr m"
    "d \<noteq> []" "take BUF_LEN d = d"
  using assms by (simp_all add: carries_def encrypt_def decrypt_def try_op_def)

definition idle_sender :: "('s, 'k) UdpInner \<Rightarrow> bool" where
  "idle_sender i \<longleftrightarrow> udp_ok i \<and> udp_pending_to i = [] \<and> enc_ctx i = EncryptContext.Null"

lemma loopback_send:
  assumes "udp_loopback ops obs"
  shows "\<exists>s'. us_send_to ops s d a = (Inr (length d), s') \<and> obs s' = (obs s)\<lparr> sent := sent (obs s) @ [(d, a)] \<rparr>"
  using assms unfolding udp_loopback_def by blast

lemma loopback_recv:
  assumes "udp_takes ops obs" and "us_recv_from ops s n = (r, s')"
  shows "case r of
      Inl e \<Rightarrow> is_would_block e \<and> obs s' = obs s \<and> taken (obs s) = arrived (obs s)
    | Inr (buf, a) \<Rightarrow> \<exists>d rest. arrived (obs s) = taken (obs s) @ (d, a) # rest \<and> buf = take n d \<and>
        obs s' = (obs s)\<lparr> taken := taken (obs s) @ [(d, a)] \<rparr>"
  using assms unfolding udp_takes_def by blast

lemma loopback_parts:
  assumes "udp_loopback ops obs"
  shows "udp_setup ops obs" "udp_takes ops obs"
  using assms by (simp_all add: udp_loopback_def)

lemma loopback_sends:
  assumes "udp_loopback ops obs"
  shows "whole_sends (\<lambda>s (d, a). us_send_to ops s d a) (length \<circ> fst) (\<lambda>s. sent (obs s))"
    "never_breaks (\<lambda>s (d, a). us_send_to ops s d a)" "accepts (\<lambda>s (d, a). us_send_to ops s d a) s"
proof -
  note * = loopback_send [OF assms]
  have s: "r = Inr (length d) \<and> sent (obs s') = sent (obs s) @ [(d, a)]" if "us_send_to ops s d a = (r, s')" for s d a r s'
    using * [of s d a] that by auto
  show "whole_sends (\<lambda>s (d, a). us_send_to ops s d a) (length \<circ> fst) (\<lambda>s. sent (obs s))"
    "never_breaks (\<lambda>s (d, a). us_send_to ops s d a)"
    by (auto simp: whole_sends_def never_breaks_def dest: s)
  show "accepts (\<lambda>s (d, a). us_send_to ops s d a) s" using * by (fastforce simp: accepts_def)
qed

lemma write_to_keeps_sock:
  assumes "\<And>s d a r s'. us_send_to ops s d a = (r, s') \<Longrightarrow> f s' = f s"
    and "UdpInner_write_to ops mc rng t t' msg i = Some (Done (r, i'))"
  shows "f (sock i') = f (sock i)"
proof -
  have "f (sock i') = f (sock k)" if "rust_loop (send_to_turn ops) k = Some (Done (r, i'))" for k
    by (rule rust_loop_keeps_done [OF that, where f = "\<lambda>i. f (sock i)"])
      (auto simp: send_to_turn_def Let_def dest: assms(1)
        split: outcome.splits option.splits prod.splits sum.splits bool.splits)
  with assms(2) show ?thesis
    by (auto simp: UdpInner_write_to_def UdpInner_flush_write_to_def Let_def split: option.splits sum.splits)
qed

lemma idle_write:
  assumes sys: "udp_loopback ops obs" and d: "carries mc m d" and i: "idle_sender i"
  obtains i' where "UdpInner_write_to ops mc rng t t' (Some (m, a, p)) i = Some (Done (Inr True, i'))"
    "idle_sender i'" "obs (sock i') = (obs (sock i))\<lparr> sent := sent (obs (sock i)) @ [(d, a)] \<rparr>"
proof -
  let ?log = "\<lambda>s. sent (obs s)"
  from i have good: "udp_ok i \<and> whole_sends (\<lambda>s (d, a). us_send_to ops s d a) (length \<circ> fst) ?log"
    and q: "view (out_queue2 i) = []" "current_write_2 i = None"
    using loopback_sends(1) [OF sys] udp_pending_to_empty [of i] by (auto simp: idle_sender_def)
  have enc: "udp_encode_to mc (enc_ctx i) (rng, Some (m, a, p)) = Inr (Some (p, m, d, a))"
    using i carriesD(1) [OF d] by (simp add: idle_sender_def)
  obtain b i' tk where w: "UdpInner_write_to ops mc rng t t' (Some (m, a, p)) i = Some (Done (Inr b, i'))"
    "udp_ok i'" "enc_ctx i' = enc_ctx i" "b \<and> udp_pending_to i' = []"
    "queued_after t t' (conf (out_queue2 i)) (Some (p, d, a)) (view (out_queue2 i)) = tk @ view (out_queue2 i')"
    "udp_line_to ?log i' = udp_line_to ?log i @ msgs tk"
  proof (rule udp_drain_to.write_succeeds [OF loopback_sends(2) [OF sys] good enc, of t t'], goal_cases)
    case (1 b i' tk)
    from 1(7) loopback_sends(3) [OF sys] have "b \<and> udp_pending_to i' = []" by blast
    with 1(2-6) show ?case by (intro 1(1)) (simp_all add: concat_units del: map_map)
  qed
  then have w: "UdpInner_write_to ops mc rng t t' (Some (m, a, p)) i = Some (Done (Inr True, i'))"
    "udp_ok i'" "enc_ctx i' = enc_ctx i" "udp_pending_to i' = []"
    "queued_after t t' (conf (out_queue2 i)) (Some (p, d, a)) (view (out_queue2 i)) = tk @ view (out_queue2 i')"
    "udp_line_to ?log i' = udp_line_to ?log i @ msgs tk" by simp_all
  have "tk = [(p, t', d, a)]"
    using w(4,5) q udp_pending_to_empty(1) [of i'] by (simp add: queued_after_def spec_drop_def spec_push_def)
  with w(4,6) q udp_pending_to_empty(2) [of i' ?log] have "sent (obs (sock i')) = sent (obs (sock i)) @ [(d, a)]"
    by (simp add: udp_line_to_def)
  moreover have "obs s'\<lparr> sent := [] \<rparr> = obs s\<lparr> sent := [] \<rparr>" if "us_send_to ops s d a = (r, s')" for s d a r s'
    using loopback_send [OF sys, of s d a] that by auto
  from write_to_keeps_sock [where f = "\<lambda>s. obs s\<lparr> sent := [] \<rparr>", OF this w(1)]
  have "(obs (sock i'))\<lparr> sent := [] \<rparr> = (obs (sock i))\<lparr> sent := [] \<rparr>" .
  ultimately have "obs (sock i') = (obs (sock i))\<lparr> sent := sent (obs (sock i)) @ [(d, a)] \<rparr>"
    by (cases "obs (sock i)"; cases "obs (sock i')") simp
  with w(1-4) i show thesis by (intro that [of i']) (simp_all add: idle_sender_def)
qed

text \<open>A burst of reads takes all that has arrived.\<close>

lemma loopback_datagrams:
  assumes sys: "udp_takes ops obs" and "datagrams (\<lambda>s. us_recv_from ops s BUF_LEN) s ds e s'"
    and "\<forall>x\<in>set (arrived (obs s)). take BUF_LEN (fst x) = fst x"
  shows "is_would_block e \<and> arrived (obs s) = taken (obs s) @ ds \<and> obs s' = (obs s)\<lparr> taken := arrived (obs s) \<rparr>"
  using assms(2,3)
proof induction
  case (stop s e s')
  from loopback_recv [OF sys stop(1)] show ?case by (cases "obs s") simp
next
  case (more s x s1 ds e s')
  from loopback_recv [OF sys more(1)] obtain d rest where x: "arrived (obs s) = taken (obs s) @ (d, snd x) # rest"
    "fst x = take BUF_LEN d" "obs s1 = (obs s)\<lparr> taken := taken (obs s) @ [(d, snd x)] \<rparr>" by (cases x) auto
  with more.prems have "fst x = d" by simp
  with more.IH more.prems x show ?case by (cases x) simp
qed

lemma loopback_burst:
  assumes sys: "udp_takes ops obs" and "\<forall>x\<in>set (arrived (obs s)). take BUF_LEN (fst x) = fst x"
  obtains ds e s' where "datagrams (\<lambda>s. us_recv_from ops s BUF_LEN) s ds e s'" "is_would_block e"
    "arrived (obs s) = taken (obs s) @ ds" "obs s' = (obs s)\<lparr> taken := arrived (obs s) \<rparr>"
proof -
  have "finite_arrivals (\<lambda>s. us_recv_from ops s BUF_LEN) (\<lambda>s. length (arrived (obs s)) - length (taken (obs s)))"
    unfolding finite_arrivals_def using loopback_recv [OF sys] by (fastforce split: sum.splits)
  from finite_arrivals_datagrams [OF this] loopback_datagrams [OF sys _ assms(2)] show thesis
    using that by blast
qed

text \<open>The receiver between two events: it has handed out all it has taken.\<close>

definition idle_receiver :: "('s \<Rightarrow> observed) \<Rightarrow> (SocketAddr list \<Rightarrow> SocketAddr \<Rightarrow> SocketAddr list) \<Rightarrow>
    byte list \<Rightarrow> SocketAddr list \<Rightarrow> ('s, 'k) UdpInner \<Rightarrow> bool" where
  "idle_receiver obs add d from i \<longleftrightarrow>
     read_buffer_2 i = [] \<and> dec_ctx i = DecryptContext.Null \<and>
     prefix (taken (obs (sock i))) (arrived (obs (sock i))) \<and> fst ` set (arrived (obs (sock i))) \<subseteq> {d} \<and>
     from = foldl add [] (map snd (taken (obs (sock i))))"

lemma collects:
  assumes sys: "udp_takes ops obs" and d: "carries mc m d" and i: "idle_receiver obs add d from i"
  obtains s' where "collect add ops mc (Some i, from) =
      Some (Done (Some (i\<lparr> sock := s' \<rparr>), foldl add [] (map snd (arrived (obs (sock i))))))"
    "obs s' = (obs (sock i))\<lparr> taken := arrived (obs (sock i)) \<rparr>"
proof -
  let ?o = "obs (sock i)"
  from i have all: "\<forall>x\<in>set (arrived ?o). take BUF_LEN (fst x) = fst x" "\<forall>x\<in>set (arrived ?o). fst x = d"
    using carriesD(4) [OF d] by (auto simp: idle_receiver_def)
  obtain ds e s where ds: "datagrams (\<lambda>s. us_recv_from ops s BUF_LEN) (sock i) ds e s" "is_would_block e"
    "arrived ?o = taken ?o @ ds" "obs s = ?o\<lparr> taken := arrived ?o \<rparr>"
    using loopback_burst [OF sys all(1)] by blast
  obtain r s' where r: "us_recv_from ops s BUF_LEN = (r, s')" by (cases "us_recv_from ops s BUF_LEN")
  from loopback_recv [OF sys r] ds(4) obtain e' where e': "r = Inl e'" "is_would_block e'" "obs s' = obs s"
    by (auto split: sum.splits)
  have keep: "filter (\<lambda>x. \<not> is_empty_addressed x) ds = ds"
    using all(2) ds(3) carriesD(3) [OF d] by (auto simp: is_empty_addressed_def intro!: filter_True)
  have "decrypt_some_from mc (dec_ctx i) x = Inr (Some (m, snd x))" if "x \<in> set ds" for x
  proof -
    from that all(2) ds(3) have "fst x = d" by simp
    with i carriesD(2) [OF d] show ?thesis
      by (cases x) (simp add: idle_receiver_def decrypt_some_from_def try_op_def)
  qed
  then have answers: "map (decrypt_some_from mc (dec_ctx i)) ds = map (\<lambda>x. Inr (Some x)) (map (\<lambda>x. (m, snd x)) ds)"
    by simp
  let ?s = "if ds = [] then s else s'"
  have "repeat_read (UdpInner_read_frm ops mc) (Suc (length (map (\<lambda>x. (m, snd x)) ds))) i =
      Some (map (\<lambda>x. Inr (Some x)) (map (\<lambda>x. (m, snd x)) ds) @ [Inr None], i\<lparr> sock := ?s, read_buffer_2 := [] \<rparr>)"
    using udp_recv_from.burst_state [OF _ ds(1,2) r [unfolded e'(1)] e'(2), of mc] i keep answers
    by (simp add: idle_receiver_def)
  then have "rust_loop (collect_turn add ops mc) (Some i, from) =
      Some (Some (Done (Some (i\<lparr> sock := ?s, read_buffer_2 := [] \<rparr>), foldl (\<lambda>v x. add v (snd x)) from (map (\<lambda>x. (m, snd x)) ds))))"
    by (rule gathering_loop [where g = "\<lambda>i v. Some (Done (Some i, v))", rotated 2])
      (auto simp: collect_turn_def UdpSock_read_frm_def with_inner_loop_def)
  moreover have "foldl (\<lambda>v x. add v (snd x)) from (map (\<lambda>x. (m, snd x)) ds) = foldl add [] (map snd (arrived ?o))"
    using i ds(3) by (simp add: idle_receiver_def foldl_map)
  moreover have "i\<lparr> sock := ?s, read_buffer_2 := [] \<rparr> = i\<lparr> sock := ?s \<rparr>"
    using i by (cases i) (simp add: idle_receiver_def)
  ultimately show thesis
    using ds(4) e'(3) by (intro that [of ?s]) (simp_all add: collect_def)
qed

section \<open>What holds between two events\<close>

definition test_ok ::
  "('s \<Rightarrow> observed) \<Rightarrow> (SocketAddr list \<Rightarrow> SocketAddr \<Rightarrow> SocketAddr list) \<Rightarrow> byte list \<Rightarrow> SocketAddr \<Rightarrow>
     (observed \<Rightarrow> observed \<Rightarrow> observed \<Rightarrow> bool) \<Rightarrow> ('s, 'k) endpoints \<Rightarrow> bool" where
  "test_ok obs add d server_addr law st \<longleftrightarrow>
     (\<exists>i1 i2 i3. sock1 st = Some i1 \<and> sock2 st = Some i2 \<and> sock3 st = Some i3 \<and>
        idle_receiver obs add d (received_from st) i1 \<and> idle_sender i2 \<and> idle_sender i3 \<and>
        home (obs (sock i1)) = server_addr \<and>
        set (sent (obs (sock i2))) \<union> set (sent (obs (sock i3))) \<subseteq> {(d, server_addr)} \<and>
        mset (arrived (obs (sock i1))) \<subseteq># incoming (obs (sock i1)) (obs (sock i2)) + incoming (obs (sock i1)) (obs (sock i3)) \<and>
        law (obs (sock i1)) (obs (sock i2)) (obs (sock i3)))"

lemma incoming_here [simp]:
  "incoming (o1\<lparr> taken := x \<rparr>) o2 = incoming o1 o2" "incoming (o1\<lparr> arrived := x \<rparr>) o2 = incoming o1 o2"
  by (simp_all add: incoming_def)

lemma incoming_sent:
  "incoming o1 (o2\<lparr> sent := sent o2 @ [(d, a)] \<rparr>) = incoming o1 o2 + (if a = home o1 then {#(d, home o2)#} else {#})"
  "incoming o1 (o2\<lparr> polled := b \<rparr>) = incoming o1 o2"
  by (simp_all add: incoming_def)

lemma incoming_payload: "set (sent o2) \<subseteq> {(d, a)} \<Longrightarrow> fst ` set_mset (incoming o1 o2) \<subseteq> {d}"
  by (auto simp: incoming_def)

lemma test_ok_moves:
  assumes "test_ok obs add d server_addr law st" and "moves obs st st'"
    and "\<And>o1 o2 o3 o1'. law o1 o2 o3 \<Longrightarrow> delivery o1 o2 o3 o1' \<Longrightarrow> law o1' o2 o3"
  shows "test_ok obs add d server_addr law st'"
proof -
  from assms(2) obtain i1 i2 i3 s1 where m: "sock1 st = Some i1" "sock2 st = Some i2" "sock3 st = Some i3"
    "delivery (obs (sock i1)) (obs (sock i2)) (obs (sock i3)) (obs s1)"
    "st' = st\<lparr> sock1 := Some (i1\<lparr> sock := s1 \<rparr>) \<rparr>" by (auto simp: moves_def)
  from m(4) obtain new where new: "obs s1 = (obs (sock i1))\<lparr> arrived := arrived (obs (sock i1)) @ new \<rparr>"
    "mset (arrived (obs s1)) \<subseteq># incoming (obs (sock i1)) (obs (sock i2)) + incoming (obs (sock i1)) (obs (sock i3))"
    unfolding delivery_def by blast
  from assms(1) m(1-3) have ok: "idle_receiver obs add d (received_from st) i1" "idle_sender i2" "idle_sender i3"
    "home (obs (sock i1)) = server_addr"
    "set (sent (obs (sock i2))) \<subseteq> {(d, server_addr)}" "set (sent (obs (sock i3))) \<subseteq> {(d, server_addr)}"
    "law (obs (sock i1)) (obs (sock i2)) (obs (sock i3))" by (auto simp: test_ok_def)
  have "fst ` set (arrived (obs s1)) \<subseteq> {d}"
    using set_mset_mono [OF new(2)] incoming_payload [OF ok(5)] incoming_payload [OF ok(6)] by fastforce
  with ok(1) new(1) have "idle_receiver obs add d (received_from st) (i1\<lparr> sock := s1 \<rparr>)"
    by (auto simp: idle_receiver_def)
  with ok m new assms(3) [OF ok(7) m(4)] show ?thesis by (auto simp: test_ok_def)
qed

text \<open>The three kinds of events.\<close>

lemma test_ok_collect:
  assumes sys: "udp_loopback ops obs" and d: "carries mc payload d"
    and ok: "test_ok obs add d server_addr law st"
    and law: "\<And>o1 o2 o3 x. law o1 o2 o3 \<Longrightarrow> law (o1\<lparr> taken := x \<rparr>) o2 o3"
  obtains i1 i2 i3 s1 froms where "sock1 st = Some i1" "sock2 st = Some i2" "sock3 st = Some i3"
    "collect add ops mc (sock1 st, received_from st) = Some (Done (s1, froms))"
    "froms = foldl add [] (map snd (arrived (obs (sock i1))))"
    "law (obs (sock i1)) (obs (sock i2)) (obs (sock i3))"
    "mset (arrived (obs (sock i1))) \<subseteq># incoming (obs (sock i1)) (obs (sock i2)) + incoming (obs (sock i1)) (obs (sock i3))"
    "home (obs (sock i1)) = server_addr"
    "test_ok obs add d server_addr law (st\<lparr> sock1 := s1, received_from := froms \<rparr>)"
proof -
  from ok obtain i1 i2 i3 where i: "sock1 st = Some i1" "sock2 st = Some i2" "sock3 st = Some i3"
    "idle_receiver obs add d (received_from st) i1" by (auto simp: test_ok_def)
  from collects [OF loopback_parts(2) [OF sys] d i(4)] obtain s' where s': "collect add ops mc (Some i1, received_from st) =
      Some (Done (Some (i1\<lparr> sock := s' \<rparr>), foldl add [] (map snd (arrived (obs (sock i1))))))"
    "obs s' = (obs (sock i1))\<lparr> taken := arrived (obs (sock i1)) \<rparr>" .
  have "idle_receiver obs add d (foldl add [] (map snd (arrived (obs (sock i1))))) (i1\<lparr> sock := s' \<rparr>)"
    using i(4) s'(2) by (simp add: idle_receiver_def)
  with s' ok i law show thesis
    by (intro that [of i1 i2 i3 "Some (i1\<lparr> sock := s' \<rparr>)"]) (auto simp: test_ok_def)
qed

lemma sends_payload:
  assumes sys: "udp_loopback ops obs" and d: "carries mc payload d" and i: "idle_sender i"
  obtains i' where "send_payload ops mc rng t t' server_addr (Some i) = Some (Done (Some i'))" "idle_sender i'"
    "obs (sock i') = (obs (sock i))\<lparr> sent := sent (obs (sock i)) @ [(d, server_addr)] \<rparr>"
  by (rule idle_write [OF sys d i, of rng t t' server_addr 1])
    (auto intro: that simp: send_payload_def UdpSock_write_to_def with_inner_loop_def)

lemma deregisters:
  assumes "udp_loopback ops obs" and "idle_sender i"
  obtains i' where "UdpSock_deregister ops poll (Some i) = (Inr (), Some i')" "idle_sender i'"
    "obs (sock i') = (obs (sock i))\<lparr> polled := False \<rparr>"
proof -
  from assms(1) obtain s' where s': "us_deregister ops (sock i) poll = (Inr (), s')"
    "obs s' = (obs (sock i))\<lparr> polled := False \<rparr>" unfolding udp_loopback_def by metis
  with assms(2) show thesis
    by (intro that [of "i\<lparr> sock := s' \<rparr>"])
      (simp_all add: UdpSock_deregister_def with_inner_io_def UdpInner_deregister_def idle_sender_def
        udp_ok_def udp_pending_to_def)
qed

lemma sends_and_leaves:
  assumes sys: "udp_loopback ops obs" and "carries mc payload d" and "idle_sender i"
  obtains j k where "send_payload ops mc rng t t' server_addr (Some i) = Some (Done (Some j))"
    "UdpSock_deregister ops poll (Some j) = (Inr (), Some k)" "idle_sender k"
    "obs (sock k) = (obs (sock i))\<lparr> sent := sent (obs (sock i)) @ [(d, server_addr)], polled := False \<rparr>"
proof -
  from sends_payload [OF assms, of rng t t' server_addr] obtain j where
    j: "send_payload ops mc rng t t' server_addr (Some i) = Some (Done (Some j))" "idle_sender j"
    "obs (sock j) = (obs (sock i))\<lparr> sent := sent (obs (sock i)) @ [(d, server_addr)] \<rparr>" .
  from deregisters [OF sys j(2), of poll] j show thesis by (metis that)
qed

lemma test_ok_sent2:
  assumes "test_ok obs add d server_addr law st" and "sock2 st = Some i" and "idle_sender i'"
    and "home (obs (sock i')) = home (obs (sock i))" and "sent (obs (sock i')) = sent (obs (sock i)) @ [(d, server_addr)]"
    and "\<And>o1 o3. law o1 (obs (sock i)) o3 \<Longrightarrow> law o1 (obs (sock i')) o3"
  shows "test_ok obs add d server_addr law (st\<lparr> sock2 := Some i' \<rparr>)"
proof -
  from assms(4,5) have "incoming o1 (obs (sock i)) \<subseteq># incoming o1 (obs (sock i'))" for o1
    by (simp add: incoming_def)
  then have "incoming o1 (obs (sock i)) + c \<subseteq># incoming o1 (obs (sock i')) + c" for o1 c by simp
  with assms show ?thesis unfolding test_ok_def by (force intro: subset_mset.order_trans)
qed

lemma test_ok_sent3:
  assumes "test_ok obs add d server_addr law st" and "sock3 st = Some i" and "idle_sender i'"
    and "home (obs (sock i')) = home (obs (sock i))" and "sent (obs (sock i')) = sent (obs (sock i)) @ [(d, server_addr)]"
    and "\<And>o1 o2. law o1 o2 (obs (sock i)) \<Longrightarrow> law o1 o2 (obs (sock i'))"
  shows "test_ok obs add d server_addr law (st\<lparr> sock3 := Some i' \<rparr>)"
proof -
  from assms(4,5) have "incoming o1 (obs (sock i)) \<subseteq># incoming o1 (obs (sock i'))" for o1
    by (simp add: incoming_def)
  then have "c + incoming o1 (obs (sock i)) \<subseteq># c + incoming o1 (obs (sock i'))" for o1 c by simp
  with assms show ?thesis unfolding test_ok_def by (force intro: subset_mset.order_trans)
qed

section \<open>Setting up\<close>

definition new_udp :: "('s \<Rightarrow> observed) \<Rightarrow> SocketAddr \<Rightarrow> SocketAddr option \<Rightarrow> bool \<Rightarrow> ('s, 'k) UdpSock \<Rightarrow> bool" where
  "new_udp obs a c p us \<longleftrightarrow>
     (\<exists>i. us = Some i \<and> idle_sender i \<and> udp_pending i = [] \<and> read_buffer i = [] \<and> read_buffer_2 i = [] \<and> dec_ctx i = DecryptContext.Null \<and>
        obs (sock i) = \<lparr> home = a, only_from = c, polled = p, sent = [], arrived = [], taken = [] \<rparr>)"

lemma idle_sender_sock [simp]: "idle_sender (i\<lparr> sock := s \<rparr>) = idle_sender i"
  by (simp add: idle_sender_def udp_ok_def udp_pending_to_def)

lemma bind_new:
  assumes "udp_setup ops obs" and "UdpSock_bind ops w a = Inr us"
  shows "\<exists>b. new_udp obs b None False us"
proof -
  from assms(2) obtain s where s: "us_bind ops w a = Inr s" "us = Some (UdpInner_new s SocketConfig_default)"
    by (auto simp: UdpSock_bind_def UdpSock_bind_with_conf_def UdpSock_wrap_with_conf_def try_op_def split: sum.splits)
  with assms(1) have "\<exists>b. obs s = \<lparr> home = b, only_from = None, polled = False, sent = [], arrived = [], taken = [] \<rparr>"
    unfolding udp_setup_def by simp
  moreover have enc: "conf_enc_ctx SocketConfig_default = EncryptContext.Null" by (simp add: config_defaults)
  moreover have "idle_sender (UdpInner_new s SocketConfig_default)"
    using enc by (simp add: idle_sender_def udp_ok_def udp_pending_to_def pending_of_def UdpInner_new_def oq_ok_new view_new)
  moreover have "udp_pending (UdpInner_new s SocketConfig_default) = []"
    by (simp add: udp_pending_def pending_of_def UdpInner_new_def view_new)
  moreover have "read_buffer (UdpInner_new s SocketConfig_default) = []" "read_buffer_2 (UdpInner_new s SocketConfig_default) = []"
    "dec_ctx (UdpInner_new s SocketConfig_default) = DecryptContext.Null" "sock (UdpInner_new s SocketConfig_default) = s"
    by (simp_all add: UdpInner_new_def config_defaults)
  ultimately show ?thesis unfolding new_udp_def s(2) option.inject by metis
qed

lemma new_udp_call:
  assumes "new_udp obs a c p us"
  obtains i where "us = Some i"
    "obs (sock i) = \<lparr> home = a, only_from = c, polled = p, sent = [], arrived = [], taken = [] \<rparr>"
    "\<And>s b c' p'. obs s = \<lparr> home = a, only_from = c', polled = p', sent = [], arrived = [], taken = [] \<rparr> \<Longrightarrow>
      new_udp obs a c' p' (Some (i\<lparr> sock := s \<rparr>)) \<and> new_udp obs a c' p' (Some (i\<lparr> sock := s, peer := b \<rparr>))"
proof -
  from assms obtain i where i: "us = Some i" "idle_sender i" "udp_pending i = []" "read_buffer i = []"
    "read_buffer_2 i = []" "dec_ctx i = DecryptContext.Null"
    "obs (sock i) = \<lparr> home = a, only_from = c, polled = p, sent = [], arrived = [], taken = [] \<rparr>"
    unfolding new_udp_def by blast
  show thesis
    by (rule that [OF i(1,7)])
      (use i(2-6) in \<open>simp add: new_udp_def idle_sender_def udp_ok_def udp_pending_to_def udp_pending_def\<close>)
qed

lemma local_addr_new:
  assumes sys: "udp_setup ops obs" and new: "new_udp obs a c p us" and call: "UdpSock_local_addr ops us = (Inr x, us')"
  shows "x = a \<and> new_udp obs a c p us'"
proof -
  from new_udp_call [OF new] obtain i where i: "us = Some i"
    "obs (sock i) = \<lparr> home = a, only_from = c, polled = p, sent = [], arrived = [], taken = [] \<rparr>"
    "\<And>s. obs s = obs (sock i) \<Longrightarrow> new_udp obs a c p (Some (i\<lparr> sock := s \<rparr>))" by metis
  from call i(1) obtain s where s: "us_local_addr ops (sock i) = (Inr x, s)" "us' = Some (i\<lparr> sock := s \<rparr>)"
    by (auto simp: UdpSock_local_addr_def on_sock_def with_inner_def io_res_def try_op_def split: prod.splits sum.splits)
  from sys s(1) have "x = home (obs (sock i)) \<and> obs s = obs (sock i)" unfolding udp_setup_def by blast
  with i(2,3) s(2) show ?thesis by simp
qed

lemma connect_new:
  assumes sys: "udp_setup ops obs" and new: "new_udp obs a c p us" and call: "UdpSock_connect ops b us = (Inr x, us')"
  shows "new_udp obs a (Some b) p us'"
proof -
  from new_udp_call [OF new] obtain i where i: "us = Some i"
    "obs (sock i) = \<lparr> home = a, only_from = c, polled = p, sent = [], arrived = [], taken = [] \<rparr>"
    "\<And>s. obs s = (obs (sock i))\<lparr> only_from := Some b \<rparr> \<Longrightarrow> new_udp obs a (Some b) p (Some (i\<lparr> sock := s, peer := Some b \<rparr>))"
    by (metis observed.update_convs(2))
  from call i(1) obtain s where s: "us_connect ops (sock i) b = (Inr (), s)" "us' = Some (i\<lparr> sock := s, peer := Some b \<rparr>)"
    by (auto simp: UdpSock_connect_def with_inner_def split: prod.splits sum.splits)
  from sys s(1) have "obs s = (obs (sock i))\<lparr> only_from := Some b \<rparr>" unfolding udp_setup_def by blast
  with i(3) s(2) show ?thesis by simp
qed

lemma register_new:
  assumes sys: "udp_setup ops obs" and new: "new_udp obs a c p us"
    and call: "UdpSock_register ops poll token interest opt us = (Inr x, us')"
  shows "new_udp obs a c True us'"
proof -
  from new_udp_call [OF new] obtain i where i: "us = Some i"
    "obs (sock i) = \<lparr> home = a, only_from = c, polled = p, sent = [], arrived = [], taken = [] \<rparr>"
    "\<And>s. obs s = (obs (sock i))\<lparr> polled := True \<rparr> \<Longrightarrow> new_udp obs a c True (Some (i\<lparr> sock := s \<rparr>))"
    by (metis observed.update_convs(3))
  from call i(1) obtain s where s: "us_register ops (sock i) poll token interest opt = (Inr (), s)"
    "us' = Some (i\<lparr> sock := s \<rparr>)"
    by (auto simp: UdpSock_register_def with_inner_io_def UdpInner_register_def split: prod.splits)
  from sys s(1) have "obs s = (obs (sock i))\<lparr> polled := True \<rparr>" unfolding udp_setup_def by blast
  with i(3) s(2) show ?thesis by simp
qed

lemma register_all_ok:
  assumes sys: "udp_setup ops obs" and "register_all ops reg s1 s2 s3 = Done st"
    and new: "new_udp obs a1 c p1 s1" "new_udp obs a2 None p2 s2" "new_udp obs a3 None p3 s3"
    and law: "law \<lparr> home = a1, only_from = c, polled = True, sent = [], arrived = [], taken = [] \<rparr>
      \<lparr> home = a2, only_from = None, polled = True, sent = [], arrived = [], taken = [] \<rparr>
      \<lparr> home = a3, only_from = None, polled = True, sent = [], arrived = [], taken = [] \<rparr>"
  shows "test_ok obs add d a1 law st"
proof -
  from assms(2) obtain r1 r2 r3 where "new_udp obs a1 c True r1" "new_udp obs a2 None True r2" "new_udp obs a3 None True r3"
    "st = \<lparr> sock1 = r1, sock2 = r2, sock3 = r3, received_from = [] \<rparr>"
    using new register_new [OF sys] by (fastforce simp: register_all_def unwrap_call_Done)
  with law show ?thesis by (auto simp: test_ok_def new_udp_def idle_receiver_def)
qed

section \<open>The first test\<close>

definition any_law :: "byte list \<Rightarrow> SocketAddr \<times> SocketAddr \<times> SocketAddr \<Rightarrow> observed \<Rightarrow> observed \<Rightarrow> observed \<Rightarrow> bool" where
  "any_law d addrs o1 o2 o3 \<longleftrightarrow>
     home o2 = fst (snd addrs) \<and> home o3 = snd (snd addrs) \<and>
     (\<forall>x\<in>{o2, o3}. sent x = (if polled x then [] else [(d, fst addrs)]))"

abbreviation any_ok ::
  "('s \<Rightarrow> observed) \<Rightarrow> byte list \<Rightarrow> SocketAddr \<times> SocketAddr \<times> SocketAddr \<Rightarrow> ('s, 'k) endpoints \<Rightarrow> bool" where
  "any_ok obs d addrs \<equiv> test_ok obs push_addr d (fst addrs) (any_law d addrs)"

lemma any_law_keeps [simp]:
  "any_law d addrs (o1\<lparr> taken := x \<rparr>) = any_law d addrs o1"
  "any_law d addrs (o1\<lparr> arrived := x \<rparr>) = any_law d addrs o1"
  by (simp_all add: any_law_def fun_eq_iff)

lemma foldl_push: "foldl push_addr v as = v @ as"
  by (induction as arbitrary: v) (simp_all add: push_addr_def)

text \<open>Two datagrams are those of the two senders.\<close>

lemma two_arrived:
  assumes "mset (arrived o1) \<subseteq># incoming o1 o2 + incoming o1 o3" and "any_law d addrs o1 o2 o3"
    and "length (arrived o1) = 2"
  shows "mset (map snd (arrived o1)) = mset [fst (snd addrs), snd (snd addrs)]"
proof -
  have "incoming o1 o2 \<subseteq># {#(d, fst (snd addrs))#}" "incoming o1 o3 \<subseteq># {#(d, snd (snd addrs))#}"
    using assms(2) by (auto simp: any_law_def incoming_def)
  from subset_mset.add_mono [OF this] assms(1)
  have "mset (arrived o1) \<subseteq># {#(d, fst (snd addrs)), (d, snd (snd addrs))#}"
    using subset_mset.order_trans by (fastforce simp: add_mset_commute)
  moreover have "size (mset (arrived o1)) = size {#(d, fst (snd addrs)), (d, snd (snd addrs))#}"
    using assms(3) by simp
  ultimately have "mset (arrived o1) = {#(d, fst (snd addrs)), (d, snd (snd addrs))#}"
    using mset_subset_size subset_mset.le_neq_trans by (metis less_irrefl)
  then have "image_mset snd (mset (arrived o1)) = {#fst (snd addrs), snd (snd addrs)#}" by simp
  then show ?thesis by simp
qed

lemma any_endpoint_receives:
  assumes sys: "udp_loopback ops obs" and d: "carries mc payload d"
    and contains: "\<And>v w. contains v w \<longleftrightarrow> mset v = mset w" and ok: "any_ok obs d addrs st"
  obtains (passed) "any_endpoint_event ops mc reg contains addrs SOCKET1_TOKEN rng t t' st = Some (Inr (Done ()))"
  | (waits) st' where "any_endpoint_event ops mc reg contains addrs SOCKET1_TOKEN rng t t' st = Some (Inl st')"
      "any_ok obs d addrs st'" "\<And>i. sock1 st = Some i \<Longrightarrow> length (arrived (obs (sock i))) \<noteq> 2"
proof -
  obtain a1 a2 a3 where addrs: "addrs = (a1, a2, a3)" by (cases addrs)
  obtain i1 i2 i3 s1 froms where c: "sock1 st = Some i1" "sock2 st = Some i2" "sock3 st = Some i3"
    "collect push_addr ops mc (sock1 st, received_from st) = Some (Done (s1, froms))"
    "froms = foldl push_addr [] (map snd (arrived (obs (sock i1))))"
    "any_law d addrs (obs (sock i1)) (obs (sock i2)) (obs (sock i3))"
    "mset (arrived (obs (sock i1))) \<subseteq># incoming (obs (sock i1)) (obs (sock i2)) + incoming (obs (sock i1)) (obs (sock i3))"
    "any_ok obs d addrs (st\<lparr> sock1 := s1, received_from := froms \<rparr>)"
    by (rule test_ok_collect [OF sys d ok]) (simp, blast)
  have ev: "any_endpoint_event ops mc reg contains addrs SOCKET1_TOKEN rng t t' st =
      Some (if length froms = 2 then Inr (if contains froms [a2, a3] then Done () else Panicked)
            else Inl (st\<lparr> sock1 := s1, received_from := froms \<rparr>))"
    using c(4) by (simp add: any_endpoint_event_def addrs endpoint_tokens)
  show thesis
  proof (cases "length froms = 2")
    case True
    then have "length (arrived (obs (sock i1))) = 2" using c(5) by (simp add: foldl_push)
    from two_arrived [OF c(7,6) this] c(5) have "contains froms [a2, a3]"
      by (simp add: contains foldl_push addrs)
    with ev True passed show thesis by simp
  next
    case False
    with ev c waits show thesis by (simp add: foldl_push)
  qed
qed

text \<open>A sender's only event.\<close>

lemma any_endpoint_sends2:
  assumes sys: "udp_loopback ops obs" and d: "carries mc payload d" and ok: "any_ok obs d addrs st"
    and i: "sock2 st = Some i" "polled (obs (sock i))"
  obtains st' where "any_endpoint_event ops mc reg contains addrs SOCKET2_TOKEN rng t t' st = Some (Inl st')"
    "any_ok obs d addrs st'"
proof -
  from ok i(1) have "idle_sender i" by (auto simp: test_ok_def)
  from sends_and_leaves [OF sys d this] obtain j k where
    j: "send_payload ops mc rng t t' (fst addrs) (Some i) = Some (Done (Some j))"
      "UdpSock_deregister ops (the_poll reg) (Some j) = (Inr (), Some k)"
    and k: "idle_sender k"
      "obs (sock k) = (obs (sock i))\<lparr> sent := sent (obs (sock i)) @ [(d, fst addrs)], polled := False \<rparr>" .
  have "any_ok obs d addrs (st\<lparr> sock2 := Some k \<rparr>)"
    by (rule test_ok_sent2 [OF ok i(1) k(1)]) (use k(2) i(2) in \<open>auto simp: any_law_def\<close>)
  with i(1) j show thesis
    by (intro that [of "st\<lparr> sock2 := Some k \<rparr>"])
      (simp_all add: any_endpoint_event_def endpoint_tokens split_beta)
qed

lemma any_endpoint_sends3:
  assumes sys: "udp_loopback ops obs" and d: "carries mc payload d" and ok: "any_ok obs d addrs st"
    and i: "sock3 st = Some i" "polled (obs (sock i))"
  obtains st' where "any_endpoint_event ops mc reg contains addrs SOCKET3_TOKEN rng t t' st = Some (Inl st')"
    "any_ok obs d addrs st'"
proof -
  from ok i(1) have "idle_sender i" by (auto simp: test_ok_def)
  from sends_and_leaves [OF sys d this] obtain j k where
    j: "send_payload ops mc rng t t' (fst addrs) (Some i) = Some (Done (Some j))"
      "UdpSock_deregister ops (the_poll reg) (Some j) = (Inr (), Some k)"
    and k: "idle_sender k"
      "obs (sock k) = (obs (sock i))\<lparr> sent := sent (obs (sock i)) @ [(d, fst addrs)], polled := False \<rparr>" .
  have "any_ok obs d addrs (st\<lparr> sock3 := Some k \<rparr>)"
    by (rule test_ok_sent3 [OF ok i(1) k(1)]) (use k(2) i(2) in \<open>auto simp: any_law_def\<close>)
  with i(1) j show thesis
    by (intro that [of "st\<lparr> sock3 := Some k \<rparr>"])
      (simp_all add: any_endpoint_event_def endpoint_tokens split_beta)
qed

lemma any_endpoint_event_ok:
  assumes sys: "udp_loopback ops obs" and d: "carries mc payload d"
    and contains: "\<And>v w. contains v w \<longleftrightarrow> mset v = mset w"
    and ok: "any_ok obs d addrs st" and poll: "may_report obs token st"
  shows "\<exists>r. any_endpoint_event ops mc reg contains addrs token rng t t' st = Some r \<and> r \<noteq> Inr Panicked \<and>
    (\<forall>st'. r = Inl st' \<longrightarrow> any_ok obs d addrs st') \<and>
    (token = SOCKET1_TOKEN \<and> (\<exists>i. sock1 st = Some i \<and> length (arrived (obs (sock i))) = 2) \<longrightarrow> r = Inr (Done ()))"
proof -
  from poll consider (first) "token = SOCKET1_TOKEN"
    | (second) i where "token = SOCKET2_TOKEN" "sock2 st = Some i" "polled (obs (sock i))"
    | (third) i where "token = SOCKET3_TOKEN" "sock3 st = Some i" "polled (obs (sock i))"
    by (auto simp: may_report_def)
  then show ?thesis
  proof cases
    case first
    from sys d contains ok show ?thesis
      by (rule any_endpoint_receives [where reg = reg and rng = rng and t = t and t' = t']) (use first in auto)
  next
    case second
    from any_endpoint_sends2 [OF sys d ok second(2,3), of reg contains rng t t'] second(1) show ?thesis
      by (auto simp: endpoint_tokens)
  next
    case third
    from any_endpoint_sends3 [OF sys d ok third(2,3), of reg contains rng t t'] third(1) show ?thesis
      by (auto simp: endpoint_tokens)
  qed
qed

lemma any_endpoint_start_ok:
  assumes sys: "udp_loopback ops obs" and "any_endpoint_start ops reg any_addr w1 w2 w3 = Done (st, addrs)"
  shows "any_ok obs d addrs st"
proof -
  from assms(2) obtain b1 b2 b3 s1 s2 s3 a1 a2 a3 where
    b: "UdpSock_bind ops w1 any_addr = Inr b1" "UdpSock_local_addr ops b1 = (Inr a1, s1)"
    "UdpSock_bind ops w2 any_addr = Inr b2" "UdpSock_local_addr ops b2 = (Inr a2, s2)"
    "UdpSock_bind ops w3 any_addr = Inr b3" "UdpSock_local_addr ops b3 = (Inr a3, s3)"
    "register_all ops reg s1 s2 s3 = Done st" "addrs = (a1, a2, a3)"
    by (auto simp: any_endpoint_start_def unwrap_Done unwrap_call_Done map_outcome_Done)
  have new: "new_udp obs a1 None False s1" "new_udp obs a2 None False s2" "new_udp obs a3 None False s3"
    using b(1-6) bind_new [OF loopback_parts(1) [OF sys]] local_addr_new [OF loopback_parts(1) [OF sys]] by metis+
  from register_all_ok [OF loopback_parts(1) [OF sys] b(7) new] show ?thesis by (simp add: b(8) any_law_def)
qed

lemma any_endpoint_run_ok:
  assumes sys: "udp_loopback ops obs" and d: "carries mc payload d"
    and contains: "\<And>v w. contains v w \<longleftrightarrow> mset v = mset w"
    and "any_endpoint_start ops reg any_addr w1 w2 w3 = Done (st0, addrs)"
    and "test_run obs (any_endpoint_event ops mc reg contains addrs) st0 st"
  shows "any_ok obs d addrs st"
  using assms(5)
proof induction
  case started
  from any_endpoint_start_ok [OF sys assms(4)] show ?case .
next
  case (moved st st')
  from moved(3,2) show ?case
    by (rule test_ok_moves) (auto simp: delivery_def)
next
  case (handled st token rng t t' st')
  from any_endpoint_event_ok [OF sys d contains handled(4,2), of reg rng t t'] handled(3)
  show ?case by auto
qed

section \<open>The second test\<close>

definition peer_law :: "SocketAddr \<times> SocketAddr \<Rightarrow> observed \<Rightarrow> observed \<Rightarrow> observed \<Rightarrow> bool" where
  "peer_law addrs o1 o2 o3 \<longleftrightarrow> only_from o1 = Some (snd addrs) \<and> (\<forall>x\<in>set (arrived o1). snd x = snd addrs)"

abbreviation peer_ok ::
  "('s \<Rightarrow> observed) \<Rightarrow> byte list \<Rightarrow> SocketAddr \<times> SocketAddr \<Rightarrow> ('s, 'k) endpoints \<Rightarrow> bool" where
  "peer_ok obs d addrs \<equiv> test_ok obs insert_addr d (fst addrs) (peer_law addrs)"

lemma peer_law_keeps [simp]:
  "peer_law addrs (o1\<lparr> taken := x \<rparr>) = peer_law addrs o1"
  "peer_law addrs o1 (o2\<lparr> sent := y \<rparr>) = peer_law addrs o1 o2"
  "peer_law addrs o1 o2 (o3\<lparr> sent := y \<rparr>) = peer_law addrs o1 o2 o3"
  by (simp_all add: peer_law_def fun_eq_iff)

lemma peer_law_delivery: "peer_law addrs o1 o2 o3 \<Longrightarrow> delivery o1 o2' o3' o1' \<Longrightarrow> peer_law addrs o1' o2 o3"
  by (fastforce simp: peer_law_def delivery_def)

lemma foldl_insert: "set as \<subseteq> {a} \<Longrightarrow> foldl insert_addr [] as = (if as = [] then [] else [a])"
  by (induction as rule: rev_induct) (auto simp: insert_addr_def)

lemma peer_received:
  assumes "peer_ok obs d addrs st"
  shows "received_from st \<in> {[], [snd addrs]}"
proof -
  from assms obtain i1 i2 i3 where i: "sock1 st = Some i1" "sock2 st = Some i2" "sock3 st = Some i3"
    "idle_receiver obs insert_addr d (received_from st) i1"
    "peer_law addrs (obs (sock i1)) (obs (sock i2)) (obs (sock i3))" by (auto simp: test_ok_def)
  then have "set (taken (obs (sock i1))) \<subseteq> set (arrived (obs (sock i1)))"
    by (auto simp: idle_receiver_def dest: set_mono_prefix)
  with i(5) have "set (map snd (taken (obs (sock i1)))) \<subseteq> {snd addrs}" by (auto simp: peer_law_def)
  from foldl_insert [OF this] i(4) show ?thesis by (simp add: idle_receiver_def split: if_splits)
qed

lemma only_connected_event_ok:
  assumes sys: "udp_loopback ops obs" and d: "carries mc payload d"
    and ok: "peer_ok obs d addrs st" and poll: "may_report obs token st"
  shows "\<exists>st'. only_connected_event ops mc addrs token rng t t' st = Some (Inl st') \<and> peer_ok obs d addrs st' \<and>
    (token = SOCKET1_TOKEN \<and> (\<exists>i. sock1 st = Some i \<and> arrived (obs (sock i)) \<noteq> []) \<longrightarrow> received_from st' = [snd addrs])"
proof -
  obtain a1 a2 where addrs: "addrs = (a1, a2)" by (cases addrs)
  from poll consider "token = SOCKET1_TOKEN"
    | (second) i where "token = SOCKET2_TOKEN" "sock2 st = Some i"
    | (third) i where "token = SOCKET3_TOKEN" "sock3 st = Some i"
    by (auto simp: may_report_def)
  then show ?thesis
  proof cases
    case 1
    obtain i1 i2 i3 s1 froms where c: "sock1 st = Some i1" "sock2 st = Some i2" "sock3 st = Some i3"
      "collect insert_addr ops mc (sock1 st, received_from st) = Some (Done (s1, froms))"
      "froms = foldl insert_addr [] (map snd (arrived (obs (sock i1))))"
      "peer_law addrs (obs (sock i1)) (obs (sock i2)) (obs (sock i3))"
      "peer_ok obs d addrs (st\<lparr> sock1 := s1, received_from := froms \<rparr>)"
      by (rule test_ok_collect [OF sys d ok]) (simp, blast)
    have "froms = [a2]" if "arrived (obs (sock i1)) \<noteq> []"
      using foldl_insert [of "map snd (arrived (obs (sock i1)))" a2] c(5,6) that by (auto simp: peer_law_def addrs)
    with 1 c show ?thesis
      by (auto simp: only_connected_event_def addrs endpoint_tokens)
  next
    case second
    from ok second(2) have i: "idle_sender i" by (auto simp: test_ok_def)
    from sends_payload [OF sys d i, of rng t t' a1] obtain j where
      j: "send_payload ops mc rng t t' a1 (Some i) = Some (Done (Some j))" "idle_sender j"
      "obs (sock j) = (obs (sock i))\<lparr> sent := sent (obs (sock i)) @ [(d, a1)] \<rparr>" .
    have "peer_ok obs d addrs (st\<lparr> sock2 := Some j \<rparr>)"
      by (rule test_ok_sent2 [OF ok second(2) j(2)]) (use j(3) in \<open>simp_all add: addrs\<close>)
    with second j(1) show ?thesis
      by (auto simp: only_connected_event_def addrs endpoint_tokens)
  next
    case third
    from ok third(2) have i: "idle_sender i" by (auto simp: test_ok_def)
    from sends_payload [OF sys d i, of rng t t' a1] obtain j where
      j: "send_payload ops mc rng t t' a1 (Some i) = Some (Done (Some j))" "idle_sender j"
      "obs (sock j) = (obs (sock i))\<lparr> sent := sent (obs (sock i)) @ [(d, a1)] \<rparr>" .
    have "peer_ok obs d addrs (st\<lparr> sock3 := Some j \<rparr>)"
      by (rule test_ok_sent3 [OF ok third(2) j(2)]) (use j(3) in \<open>simp_all add: addrs\<close>)
    with third j(1) show ?thesis
      by (auto simp: only_connected_event_def addrs endpoint_tokens)
  qed
qed

lemma only_connected_start_ok:
  assumes sys: "udp_loopback ops obs" and "only_connected_start ops reg any_addr w1 w2 w3 = Done (st, addrs)"
  shows "peer_ok obs d addrs st"
proof -
  from assms(2) obtain b1 b2 b3 s1 s2 c1 a1 a2 where
    b: "UdpSock_bind ops w2 any_addr = Inr b2" "UdpSock_local_addr ops b2 = (Inr a2, s2)"
    "UdpSock_bind ops w1 any_addr = Inr b1" "UdpSock_connect ops a2 b1 = (Inr (), c1)"
    "UdpSock_local_addr ops c1 = (Inr a1, s1)" "UdpSock_bind ops w3 any_addr = Inr b3"
    "register_all ops reg s1 s2 b3 = Done st" "addrs = (a1, a2)"
    by (auto simp: only_connected_start_def unwrap_Done unwrap_call_Done map_outcome_Done)
  have new: "new_udp obs a1 (Some a2) False s1" "new_udp obs a2 None False s2" "\<exists>a3. new_udp obs a3 None False b3"
    using b(1-6) bind_new [OF loopback_parts(1) [OF sys]] local_addr_new [OF loopback_parts(1) [OF sys]] connect_new [OF loopback_parts(1) [OF sys]] by metis+
  then obtain a3 where "new_udp obs a3 None False b3" by blast
  from register_all_ok [OF loopback_parts(1) [OF sys] b(7) new(1,2) this] show ?thesis by (simp add: b(8) peer_law_def)
qed

lemma only_connected_run_ok:
  assumes sys: "udp_loopback ops obs" and d: "carries mc payload d"
    and "only_connected_start ops reg any_addr w1 w2 w3 = Done (st0, addrs)"
    and "test_run obs (only_connected_event ops mc addrs) st0 st"
  shows "peer_ok obs d addrs st"
  using assms(4)
proof induction
  case started
  from only_connected_start_ok [OF sys assms(3)] show ?case .
next
  case (moved st st')
  from moved(3,2) show ?case
    by (rule test_ok_moves) (rule peer_law_delivery)
next
  case (handled st token rng t t' st')
  from only_connected_event_ok [OF sys d handled(4,2), of rng t t'] handled(3)
  show ?case by auto
qed

section \<open>Properties\<close>

text \<open>
  C17. The test of a socket that is not connected cannot fail: in every state it reaches on the loopback
  interface, whatever the poll reports next and however many of the datagrams have arrived, handling
  the event returns and does not panic: the senders are not refused, each sends its datagram once, and two
  addresses are never two of the same sender. Once both datagrams have arrived, the next event of the receiver
  ends the test, and it has passed.
\<close>

theorem any_endpoint_test_passes:
  assumes "udp_loopback ops obs" and "carries mc payload d"
    and "\<forall>v w. contains v w \<longleftrightarrow> mset v = mset w"
    and "any_endpoint_start ops reg any_addr w1 w2 w3 = Done (st0, addrs)"
    and "test_run obs (any_endpoint_event ops mc reg contains addrs) st0 st" and "may_report obs token st"
  shows "\<exists>r. any_endpoint_event ops mc reg contains addrs token rng t t' st = Some r \<and> r \<noteq> Inr Panicked \<and>
    (token = SOCKET1_TOKEN \<and> (\<exists>i. sock1 st = Some i \<and> length (arrived (obs (sock i))) = 2) \<longrightarrow> r = Inr (Done ()))"
proof -
  from assms(3) have contains: "\<And>v w. contains v w \<longleftrightarrow> mset v = mset w" by blast
  from any_endpoint_event_ok [OF assms(1,2) contains any_endpoint_run_ok [OF assms(1,2) contains assms(4,5)] assms(6),
      of reg rng t t'] show ?thesis by blast
qed

text \<open>
  C18. A connected socket hears only its peer: in every state the second test reaches, no event of a socket
  makes it panic, however often the two senders send; after an event of the receiver that finds a
  datagram the only address it has recorded is that of the peer; and at the timeout the test has
  passed exactly if it has recorded one.
\<close>

theorem only_connected_test_outcome:
  assumes "udp_loopback ops obs" and "carries mc payload d"
    and "only_connected_start ops reg any_addr w1 w2 w3 = Done (st0, server_addr, sock2_addr)"
    and "test_run obs (only_connected_event ops mc (server_addr, sock2_addr)) st0 st"
  shows "received_from st \<in> {[], [sock2_addr]} \<and>
    only_connected_event ops mc (server_addr, sock2_addr) TIMEOUT_TOKEN rng t t' st =
      Some (Inr (if received_from st = [] then Panicked else Done ())) \<and>
    (may_report obs token st \<longrightarrow>
       (\<exists>st'. only_connected_event ops mc (server_addr, sock2_addr) token rng t t' st = Some (Inl st') \<and>
          (token = SOCKET1_TOKEN \<and> (\<exists>i. sock1 st = Some i \<and> arrived (obs (sock i)) \<noteq> []) \<longrightarrow>
             received_from st' = [sock2_addr])))"
proof -
  note ok = only_connected_run_ok [OF assms]
  from peer_received [OF ok] have r: "received_from st \<in> {[], [sock2_addr]}" by simp
  then have "only_connected_event ops mc (server_addr, sock2_addr) TIMEOUT_TOKEN rng t t' st =
      Some (Inr (if received_from st = [] then Panicked else Done ()))"
    by (auto simp: only_connected_event_def endpoint_tokens)
  with r only_connected_event_ok [OF assms(1,2) ok, of token rng t t'] show ?thesis by auto
qed

text \<open>A system whose sockets are what can be observed of them; \<open>arrived\<close> is what is still to be taken.\<close>

definition small_ops :: "observed udp_ops" where
  "small_ops = \<lparr>
     us_bind = (\<lambda>w a. Inr \<lparr> home = home w, only_from = None, polled = False, sent = [], arrived = [], taken = [] \<rparr>),
     us_connect = (\<lambda>s a. (Inr (), s\<lparr> only_from := Some a \<rparr>)),
     us_recv = (\<lambda>s n. (Inl (IoError ErrorKind.WouldBlock []), s)),
     us_recv_from = (\<lambda>s n. case arrived s of
         [] \<Rightarrow> (Inl (IoError ErrorKind.WouldBlock []), s)
       | (d, a) # rest \<Rightarrow> (Inr (take n d, a), s\<lparr> taken := taken s @ [(d, a)], arrived := rest \<rparr>)),
     us_send = (\<lambda>s d. (Inr (length d), s)),
     us_send_to = (\<lambda>s d a. (Inr (length d), s\<lparr> sent := sent s @ [(d, a)] \<rparr>)),
     us_set_ttl = (\<lambda>s t. (Inr (), s)), us_ttl = (\<lambda>s. (Inr 64, s)),
     us_local_addr = (\<lambda>s. (Inr (home s), s)), us_take_error = (\<lambda>s. (Inr None, s)),
     us_register = (\<lambda>s p t i q. (Inr (), s\<lparr> polled := True \<rparr>)),
     us_reregister = (\<lambda>s p t i q. (Inr (), s)),
     us_deregister = (\<lambda>s p. (Inr (), s\<lparr> polled := False \<rparr>)) \<rparr>"

definition small_view :: "observed \<Rightarrow> observed" where
  "small_view s = s\<lparr> arrived := taken s @ arrived s \<rparr>"

lemma small_loopback: "udp_loopback small_ops small_view"
  by (auto simp: udp_loopback_def udp_setup_def udp_takes_def small_ops_def small_view_def is_would_block_def split: list.splits)

lemma small_carries: "carries bytes_codec payload payload"
  by (simp add: carries_def bytes_codec_def payload_def BUF_LEN_def)

definition small_sock :: "SocketAddr \<Rightarrow> SocketAddr option \<Rightarrow> addressed list \<Rightarrow> addressed list \<Rightarrow> (observed, nat) UdpInner" where
  "small_sock a c out ahead = UdpInner_new
     \<lparr> home = a, only_from = c, polled = (out = []), sent = out, arrived = ahead, taken = [] \<rparr> SocketConfig_default"

lemma small_start:
  "any_endpoint_start small_ops sample_registration1 (V4 0 0) (sock (small_sock (V4 7 1) None [] []))
     (sock (small_sock (V4 7 2) None [] [])) (sock (small_sock (V4 7 3) None [] [])) =
     Done (\<lparr> sock1 = Some (small_sock (V4 7 1) None [] []), sock2 = Some (small_sock (V4 7 2) None [] []),
       sock3 = Some (small_sock (V4 7 3) None [] []), received_from = [] \<rparr>, V4 7 1, V4 7 2, V4 7 3)"
  by (simp add: any_endpoint_start_def register_all_def unwrap_def unwrap_call_def small_ops_def small_sock_def
      UdpSock_bind_def UdpSock_bind_with_conf_def UdpSock_wrap_with_conf_def UdpSock_local_addr_def on_sock_def
      UdpSock_register_def UdpInner_register_def guard_defs try_op_def UdpInner_new_def)

lemma small_send:
  "send_payload small_ops bytes_codec 0 (\<lambda>_. 0) 0 (V4 7 1) (Some (small_sock a c [] [])) =
     Some (Done (Some ((small_sock a c [(payload, V4 7 1)] [])
       \<lparr> sock := (sock (small_sock a c [(payload, V4 7 1)] []))\<lparr> polled := True \<rparr> \<rparr>)))"
  by (simp add: send_payload_def UdpSock_write_to_def with_inner_loop_def UdpInner_write_to_def
      UdpInner_flush_write_to_def rust_loop.simps send_to_turn_def take_or_next_def handle_send_simps encrypt_def
      bytes_codec_def small_ops_def queue_simps small_sock_def UdpInner_new_def payload_def config_defaults)

text \<open>A run of the first test: both senders have sent, the datagrams arrive in the other order.\<close>

abbreviation small_any_event ::
  "Token \<Rightarrow> nat \<Rightarrow> readings \<Rightarrow> instant \<Rightarrow> (observed, nat) endpoints \<Rightarrow> ((observed, nat) endpoints + unit outcome) option" where
  "small_any_event \<equiv> any_endpoint_event small_ops bytes_codec sample_registration1 (\<lambda>v w. mset v = mset w)
     (V4 7 1, V4 7 2, V4 7 3)"

abbreviation small_endpoints ::
  "addressed list \<Rightarrow> addressed list \<Rightarrow> addressed list \<Rightarrow> (observed, nat) endpoints" where
  "small_endpoints ahead out2 out3 \<equiv> \<lparr> sock1 = Some (small_sock (V4 7 1) None [] ahead),
     sock2 = Some (small_sock (V4 7 2) None out2 []), sock3 = Some (small_sock (V4 7 3) None out3 []), received_from = [] \<rparr>"

lemma small_any_run:
  "test_run small_view small_any_event (small_endpoints [] [] [])
     (small_endpoints [(payload, V4 7 3), (payload, V4 7 2)] [(payload, V4 7 1)] [(payload, V4 7 1)])"
proof -
  let ?out = "[(payload, V4 7 1)]"
  have leave: "UdpSock_deregister small_ops 0 (Some ((small_sock a c ?out [])
      \<lparr> sock := (sock (small_sock a c ?out []))\<lparr> polled := True \<rparr> \<rparr>)) = (Inr (), Some (small_sock a c ?out []))" for a c
    by (simp add: UdpSock_deregister_def with_inner_io_def UdpInner_deregister_def small_ops_def small_sock_def UdpInner_new_def)
  have "may_report small_view SOCKET2_TOKEN (small_endpoints [] [] [])"
    "may_report small_view SOCKET3_TOKEN (small_endpoints [] ?out [])"
    by (simp_all add: may_report_def endpoint_tokens small_view_def small_sock_def UdpInner_new_def)
  moreover have "small_any_event SOCKET2_TOKEN 0 (\<lambda>_. 0) 0 (small_endpoints [] [] []) = Some (Inl (small_endpoints [] ?out []))"
    "small_any_event SOCKET3_TOKEN 0 (\<lambda>_. 0) 0 (small_endpoints [] ?out []) = Some (Inl (small_endpoints [] ?out ?out))"
    by (simp_all add: any_endpoint_event_def endpoint_tokens small_send leave sample_registration1_def)
  ultimately have run: "test_run small_view small_any_event (small_endpoints [] [] []) (small_endpoints [] ?out ?out)"
    by (intro test_run.handled [OF test_run.handled [OF test_run.started]])
  have "moves small_view (small_endpoints [] ?out ?out)
      (small_endpoints [(payload, V4 7 3), (payload, V4 7 2)] ?out ?out)"
    unfolding moves_def
    by (intro exI [of _ "sock (small_sock (V4 7 1) None [] [(payload, V4 7 3), (payload, V4 7 2)])"] exI conjI)
      (auto simp: delivery_def small_view_def small_sock_def UdpInner_new_def incoming_def)
  from test_run.moved [OF run this] show ?thesis .
qed

theorem any_endpoint_test_passes_witness:
  "\<exists>st. test_run small_view small_any_event (small_endpoints [] [] []) st \<and>
    small_any_event SOCKET1_TOKEN 0 (\<lambda>_. 0) 0 st = Some (Inr (Done ()))"
proof -
  let ?st = "small_endpoints [(payload, V4 7 3), (payload, V4 7 2)] [(payload, V4 7 1)] [(payload, V4 7 1)]"
  have "may_report small_view SOCKET1_TOKEN ?st" by (simp add: may_report_def endpoint_tokens)
  from any_endpoint_test_passes [OF small_loopback small_carries _ small_start small_any_run this, of 0 "\<lambda>_. 0" 0]
  have "small_any_event SOCKET1_TOKEN 0 (\<lambda>_. 0) 0 ?st = Some (Inr (Done ()))"
    by (auto simp: small_view_def small_sock_def UdpInner_new_def)
  with small_any_run show ?thesis by blast
qed

lemma small_connected_start:
  "only_connected_start small_ops sample_registration1 (V4 0 0) (sock (small_sock (V4 7 1) None [] []))
     (sock (small_sock (V4 7 2) None [] [])) (sock (small_sock (V4 7 3) None [] [])) =
     Done (\<lparr> sock1 = Some ((small_sock (V4 7 1) (Some (V4 7 2)) [] [])\<lparr> peer := Some (V4 7 2) \<rparr>),
       sock2 = Some (small_sock (V4 7 2) None [] []),
       sock3 = Some (small_sock (V4 7 3) None [] []), received_from = [] \<rparr>, V4 7 1, V4 7 2)"
  by (simp add: only_connected_start_def register_all_def unwrap_def unwrap_call_def small_ops_def small_sock_def
      UdpSock_bind_def UdpSock_bind_with_conf_def UdpSock_wrap_with_conf_def UdpSock_local_addr_def on_sock_def
      UdpSock_connect_def UdpSock_register_def UdpInner_register_def guard_defs try_op_def UdpInner_new_def)

theorem only_connected_test_outcome_witness:
  "\<exists>st st'. only_connected_start small_ops sample_registration1 (V4 0 0) (sock (small_sock (V4 7 1) None [] []))
      (sock (small_sock (V4 7 2) None [] [])) (sock (small_sock (V4 7 3) None [] [])) = Done (st, V4 7 1, V4 7 2) \<and>
    only_connected_event small_ops bytes_codec (V4 7 1, V4 7 2) SOCKET2_TOKEN 0 (\<lambda>_. 0) 0 st = Some (Inl st') \<and>
    only_connected_event small_ops bytes_codec (V4 7 1, V4 7 2) TIMEOUT_TOKEN 0 (\<lambda>_. 0) 0 st = Some (Inr Panicked)"
proof -
  let ?st = "\<lparr> sock1 = Some ((small_sock (V4 7 1) (Some (V4 7 2)) [] [])\<lparr> peer := Some (V4 7 2) \<rparr>),
    sock2 = Some (small_sock (V4 7 2) None [] []), sock3 = Some (small_sock (V4 7 3) None [] []), received_from = [] \<rparr>"
  have "may_report small_view SOCKET2_TOKEN ?st"
    by (simp add: may_report_def endpoint_tokens small_view_def small_sock_def UdpInner_new_def)
  with only_connected_test_outcome [OF small_loopback small_carries small_connected_start test_run.started, of 0 "\<lambda>_. 0" 0 SOCKET2_TOKEN]
    small_connected_start show ?thesis by auto
qed

end
