(* ===== verification/Udp_Exchange.thy ===== *)
theory Udp_Exchange
  imports Udp_Tests
begin

text \<open>
  The third integration test of UDP (\<open>udp_peers_huge_data_exchange_impl\<close> in \<open>tests/udp.rs\<close>, for connected
  sockets and for others): a thread sends 200 datagrams and, when the socket would block, raises a flag
  and waits for a signal on a channel; the main thread receives them and, on a writable event, signals the sender
  if the flag is up. The steps of the two threads interleave.
\<close>

section \<open>The test\<close>

definition ITERATIONS :: nat where
  "ITERATIONS = 200"

definition DATA_SIZE :: usize where
  "DATA_SIZE = 9126"

definition UDP0 :: Token where
  "UDP0 = 0"

definition UDP1 :: Token where
  "UDP1 = 1"

definition TIMEOUT :: Token where
  "TIMEOUT = 2"

lemmas exchange_tokens = UDP0_def UDP1_def TIMEOUT_def

definition exchange_data :: "byte list" where
  "exchange_data = replicate DATA_SIZE 255"

text \<open>
  Where the sender is in turn \<open>i\<close> of its loop: before the write; before the flag is raised; in
  \<open>recv_timeout\<close>; before the flag is lowered. When it has finished it has dropped its end of the channel.
\<close>

datatype sender_at = Writing nat | Refused nat | Waiting nat | Woken nat | Finished | Crashed

text \<open>The main thread: in \<open>poll\<close>; before \<open>tx.send\<close>, having found the flag up; or at the end of the test.\<close>

datatype main_at = Polling | Signalling | Ended "unit outcome"

record ('s, 'k) exchange =
  udp0 :: "('s, 'k) UdpSock"
  udp1 :: "('s, 'k) UdpSock"
  sender_thread :: sender_at
  wouldblocked :: bool
  signals :: nat
  main_thread :: main_at
  iterations :: nat

definition exchange_start ::
  "'s udp_ops \<Rightarrow> registration \<Rightarrow> bool \<Rightarrow> SocketAddr \<Rightarrow> 's \<Rightarrow> 's \<Rightarrow>
     (('s, 'k) exchange \<times> SocketAddr \<times> SocketAddr) outcome" where
  "exchange_start ops reg should_connect any_addr w0 w1 =
     unwrap (UdpSock_bind ops w0 any_addr) (\<lambda>s0.
     unwrap (UdpSock_bind ops w1 any_addr) (\<lambda>s1.
     unwrap_call (UdpSock_local_addr ops s0) (\<lambda>addr0 s0.
     unwrap_call (UdpSock_local_addr ops s1) (\<lambda>addr1 s1.
     unwrap_call (if should_connect then UdpSock_connect ops addr1 s0 else (Inr (), s0)) (\<lambda>_ s0.
     unwrap_call (if should_connect then UdpSock_connect ops addr0 s1 else (Inr (), s1)) (\<lambda>_ s1.
     unwrap_call (UdpSock_register ops (the_poll reg) UDP0 (readable reg OR writable reg) (edge reg) s0) (\<lambda>_ s0.
     unwrap_call (UdpSock_register ops (the_poll reg) UDP1 (readable reg OR writable reg) (edge reg) s1) (\<lambda>_ s1.
       Done (\<lparr> udp0 = s0, udp1 = s1, sender_thread = Writing 0, wouldblocked = False, signals = 0,
         main_thread = Polling, iterations = 0 \<rparr>, addr0, addr1)))))))))"

text \<open>
  One step of the sender; \<open>None\<close> is a write that does not return. A wait ends with a signal, if there
  is one, or by its timeout; what it answers is ignored. Sleeping is no step.
\<close>

definition exchange_write ::
  "'s udp_ops \<Rightarrow> ('k, byte list) codec \<Rightarrow> bool \<Rightarrow> SocketAddr \<Rightarrow> nat \<Rightarrow> readings \<Rightarrow> instant \<Rightarrow> ('s, 'k) UdpSock \<Rightarrow>
     (bool res \<times> ('s, 'k) UdpSock) outcome option" where
  "exchange_write ops mc should_connect addr1 rng t t' us =
     (if should_connect then UdpSock_write ops mc rng t t' (Some (exchange_data, 0)) us
      else UdpSock_write_to ops mc rng t t' (Some (exchange_data, addr1, 0)) us)"

definition next_turn :: "nat \<Rightarrow> sender_at" where
  "next_turn i = (if Suc i < ITERATIONS then Writing (Suc i) else Finished)"

definition sender_step ::
  "'s udp_ops \<Rightarrow> ('k, byte list) codec \<Rightarrow> bool \<Rightarrow> SocketAddr \<Rightarrow> nat \<Rightarrow> readings \<Rightarrow> instant \<Rightarrow>
     ('s, 'k) exchange \<Rightarrow> ('s, 'k) exchange option" where
  "sender_step ops mc should_connect addr1 rng t t' st =
     (case sender_thread st of
        Writing i \<Rightarrow>
          (case exchange_write ops mc should_connect addr1 rng t t' (udp0 st) of
             None \<Rightarrow> None
           | Some Panicked \<Rightarrow> Some (st\<lparr> sender_thread := Crashed \<rparr>)
           | Some (Done (r, us)) \<Rightarrow>
               Some (st\<lparr> udp0 := us, sender_thread :=
                 (case r of Inr True \<Rightarrow> next_turn i | Inr False \<Rightarrow> Refused i | Inl _ \<Rightarrow> Crashed) \<rparr>))
      | Refused i \<Rightarrow> Some (st\<lparr> wouldblocked := True, sender_thread := Waiting i \<rparr>)
      | Waiting i \<Rightarrow> Some (st\<lparr> signals := signals st - 1, sender_thread := Woken i \<rparr>)
      | Woken i \<Rightarrow> Some (st\<lparr> wouldblocked := False, sender_thread := next_turn i \<rparr>)
      | Finished \<Rightarrow> Some st
      | Crashed \<Rightarrow> Some st)"

text \<open>The inner loop of the main thread: it ends with \<open>break\<close>, or with the test.\<close>

definition exchange_read ::
  "'s udp_ops \<Rightarrow> ('k, byte list) codec \<Rightarrow> bool \<Rightarrow> SocketAddr \<Rightarrow> ('s, 'k) UdpSock \<Rightarrow>
     (byte list option res \<times> ('s, 'k) UdpSock) outcome option" where
  "exchange_read ops mc should_connect addr0 us =
     (if should_connect then UdpSock_read ops mc us
      else
        (case UdpSock_read_frm ops mc us of
           None \<Rightarrow> None
         | Some (Done (Inr (Some (d, peer_addr)), us)) \<Rightarrow> Some (if peer_addr = addr0 then Done (Inr (Some d), us) else Panicked)
         | Some (Done (Inr None, us)) \<Rightarrow> Some (Done (Inr None, us))
         | Some (Done (Inl e, us)) \<Rightarrow> Some (Done (Inl e, us))
         | Some Panicked \<Rightarrow> Some Panicked))"

definition exchange_turn ::
  "'s udp_ops \<Rightarrow> ('k, byte list) codec \<Rightarrow> bool \<Rightarrow> SocketAddr \<Rightarrow> ('s, 'k) UdpSock \<times> nat \<Rightarrow>
     (('s, 'k) UdpSock \<times> nat) + (('s, 'k) UdpSock \<times> nat \<times> main_at) option" where
  "exchange_turn ops mc should_connect addr0 = (\<lambda>(us, n).
     (case exchange_read ops mc should_connect addr0 us of
        None \<Rightarrow> Inr None
      | Some Panicked \<Rightarrow> Inr (Some (us, n, Ended Panicked))
      | Some (Done (Inr (Some d), us)) \<Rightarrow>
          if length d < DATA_SIZE then Inr (Some (us, n, Ended Panicked))
          else if length d > DATA_SIZE then Inr (Some (us, n, Ended Panicked))
          else if d \<noteq> exchange_data then Inr (Some (us, n, Ended Panicked))
          else if Suc n = ITERATIONS then Inr (Some (us, Suc n, Ended (Done ())))
          else Inl (us, Suc n)
      | Some (Done (Inr None, us)) \<Rightarrow> Inr (Some (us, n, Polling))
      | Some (Done (Inl e, us)) \<Rightarrow> Inr (Some (us, n, Ended Panicked))))"

definition main_event ::
  "'s udp_ops \<Rightarrow> ('k, byte list) codec \<Rightarrow> bool \<Rightarrow> SocketAddr \<Rightarrow> Token \<Rightarrow> bool \<Rightarrow> bool \<Rightarrow>
     ('s, 'k) exchange \<Rightarrow> ('s, 'k) exchange option" where
  "main_event ops mc should_connect addr0 token is_readable is_writable st =
     (if token = UDP0 then
        Some (if is_writable \<and> wouldblocked st then st\<lparr> main_thread := Signalling \<rparr> else st)
      else if token = UDP1 then
        (if \<not> is_readable then Some st
         else
           (case rust_loop (exchange_turn ops mc should_connect addr0) (udp1 st, iterations st) of
              Some (Some (us, n, at)) \<Rightarrow> Some (st\<lparr> udp1 := us, iterations := n, main_thread := at \<rparr>)
            | _ \<Rightarrow> None))
      else if token = TIMEOUT then
        Some (st\<lparr> main_thread := Ended (if iterations st > ITERATIONS div 2 then Done () else Panicked) \<rparr>)
      else Some (st\<lparr> main_thread := Ended Panicked \<rparr>))"

text \<open>\<open>unwrap!(tx.send(()))\<close>: a send fails when the receiving end of the channel is gone.\<close>

definition main_signal :: "('s, 'k) exchange \<Rightarrow> ('s, 'k) exchange" where
  "main_signal st =
     (if sender_thread st = Finished \<or> sender_thread st = Crashed then st\<lparr> main_thread := Ended Panicked \<rparr>
      else st\<lparr> signals := Suc (signals st), main_thread := Polling \<rparr>)"

section \<open>The system it runs on\<close>

text \<open>
  Datagrams are sent whole or not at all, and a send fails only for lack of room; \<open>recv\<close> is
  \<open>recv_from\<close> without the address.
\<close>

definition exchange_system :: "'s udp_ops \<Rightarrow> ('s \<Rightarrow> observed) \<Rightarrow> bool" where
  "exchange_system ops obs \<longleftrightarrow>
     udp_setup ops obs \<and> udp_takes ops obs \<and>
     (\<forall>s n. us_recv ops s n = (case us_recv_from ops s n of (r, s') \<Rightarrow> (map_sum id fst r, s'))) \<and>
     whole_sends (us_send ops) length (\<lambda>s. map fst (sent (obs s))) \<and> never_breaks (us_send ops) \<and>
     whole_sends (\<lambda>s (d, a). us_send_to ops s d a) (length \<circ> fst) (\<lambda>s. sent (obs s)) \<and>
     never_breaks (\<lambda>s (d, a). us_send_to ops s d a)"

text \<open>
  The states the test reaches. The system may make room at any time, and deliver datagrams that were sent,
  in any order, any number of times or not at all. What the first socket has sent is remembered after its thread
  has finished.
\<close>

inductive exchange_run ::
  "'s udp_ops \<Rightarrow> ('k, byte list) codec \<Rightarrow> bool \<Rightarrow> ('s \<Rightarrow> observed) \<Rightarrow> SocketAddr \<Rightarrow> SocketAddr \<Rightarrow>
     ('s, 'k) exchange \<Rightarrow> ('s, 'k) exchange \<Rightarrow> bool"
  for ops mc should_connect obs addr0 addr1 st0 where
  started: "exchange_run ops mc should_connect obs addr0 addr1 st0 st0"
| room: "exchange_run ops mc should_connect obs addr0 addr1 st0 st \<Longrightarrow> udp0 st = Some i \<Longrightarrow>
    obs s = obs (sock i) \<Longrightarrow>
    exchange_run ops mc should_connect obs addr0 addr1 st0 (st\<lparr> udp0 := Some (i\<lparr> sock := s \<rparr>) \<rparr>)"
| delivered: "exchange_run ops mc should_connect obs addr0 addr1 st0 st \<Longrightarrow> udp0 st = Some i \<Longrightarrow> udp1 st = Some j \<Longrightarrow>
    obs s = (obs (sock j))\<lparr> arrived := arrived (obs (sock j)) @ new \<rparr> \<Longrightarrow>
    set new \<subseteq> (\<lambda>d. (fst d, addr0)) ` set (sent (obs (sock i))) \<Longrightarrow>
    exchange_run ops mc should_connect obs addr0 addr1 st0 (st\<lparr> udp1 := Some (j\<lparr> sock := s \<rparr>) \<rparr>)"
| sender: "exchange_run ops mc should_connect obs addr0 addr1 st0 st \<Longrightarrow>
    sender_step ops mc should_connect addr1 rng t t' st = Some st' \<Longrightarrow>
    exchange_run ops mc should_connect obs addr0 addr1 st0 st'"
| event: "exchange_run ops mc should_connect obs addr0 addr1 st0 st \<Longrightarrow> main_thread st = Polling \<Longrightarrow>
    token \<in> {UDP0, UDP1, TIMEOUT} \<Longrightarrow>
    main_event ops mc should_connect addr0 token is_readable is_writable st = Some st' \<Longrightarrow>
    exchange_run ops mc should_connect obs addr0 addr1 st0 st'"
| signal: "exchange_run ops mc should_connect obs addr0 addr1 st0 st \<Longrightarrow> main_thread st = Signalling \<Longrightarrow>
    exchange_run ops mc should_connect obs addr0 addr1 st0 (main_signal st)"

section \<open>The sender\<close>

definition sender_clean ::
  "('s \<Rightarrow> observed) \<Rightarrow> bool \<Rightarrow> byte list \<Rightarrow> SocketAddr \<Rightarrow> ('s, 'k) UdpInner \<Rightarrow> bool" where
  "sender_clean obs should_connect d addr1 i \<longleftrightarrow>
     udp_ok i \<and> enc_ctx i = EncryptContext.Null \<and>
     (if should_connect
      then set (msgs (view (out_queue i))) \<union> set (udp_line (\<lambda>s. map fst (sent (obs s))) i) \<subseteq> {d}
      else set (msgs (view (out_queue2 i))) \<union> set (udp_line_to (\<lambda>s. sent (obs s)) i) \<subseteq> {(d, addr1)})"

lemma sender_clean_sent: "sender_clean obs c d addr1 i \<Longrightarrow> fst ` set (sent (obs (sock i))) \<subseteq> {d}"
  by (cases c) (auto simp: sender_clean_def udp_line_def udp_line_to_def)

lemma sender_clean_room: "sender_clean obs c d addr1 i \<Longrightarrow> obs s = obs (sock i) \<Longrightarrow> sender_clean obs c d addr1 (i\<lparr> sock := s \<rparr>)"
  by (cases c) (auto simp: sender_clean_def udp_ok_def udp_line_def udp_line_to_def)

text \<open>A write adds its own datagram, and nothing else can be in the queue or on the line.\<close>

lemma moved_subset:
  assumes "queued_after t t' c (Some (p, d)) q = tk @ q'" and "line' = line @ msgs tk"
    and "set (msgs q) \<union> set line \<subseteq> {d}"
  shows "set (msgs q') \<union> set line' \<subseteq> {d}"
proof -
  from assms(1) have "msgs tk @ msgs q' = msgs (queued_after t t' c (Some (p, d)) q)" by simp
  then have "set (msgs tk) \<union> set (msgs q') \<subseteq> set (msgs q) \<union> {d}"
    using queued_after_set [of t t' c "Some (p, d)" q] by (metis option.case(2) case_prod_conv set_append)
  with assms(2,3) show ?thesis unfolding assms(2) set_append by blast
qed

lemma exchange_write_ok:
  assumes sys: "exchange_system ops obs" and d: "carries mc exchange_data d" and i: "sender_clean obs should_connect d addr1 i"
  obtains b i' where "exchange_write ops mc should_connect addr1 rng t t' (Some i) = Some (Done (Inr b, Some i'))"
    "sender_clean obs should_connect d addr1 i'"
proof (cases should_connect)
  case True
  let ?log = "\<lambda>s. map fst (sent (obs s))"
  from sys i True have good: "udp_ok i \<and> whole_sends (us_send ops) length ?log" and lively: "never_breaks (us_send ops)"
    and clean: "enc_ctx i = EncryptContext.Null" "set (msgs (view (out_queue i))) \<union> set (udp_line ?log i) \<subseteq> {d}"
    by (auto simp: exchange_system_def sender_clean_def)
  have enc: "udp_encode mc (enc_ctx i) (rng, Some (exchange_data, 0)) = Inr (Some (0, exchange_data, d))"
    using clean(1) carriesD(1) [OF d] by simp
  show thesis
  proof (rule udp_drain.write_succeeds [OF lively good enc, of t t'], goal_cases)
    case (1 b i' tk)
    from 1(4) have "queued_after t t' (conf (out_queue i)) (Some (0, d)) (view (out_queue i)) = tk @ view (out_queue i')"
      by simp
    from moved_subset [OF this _ clean(2)] 1(5) have "set (msgs (view (out_queue i'))) \<union> set (udp_line ?log i') \<subseteq> {d}"
      by (simp only: concat_units)
    with 1(1-3) True clean(1) show ?case
      by (intro that [of b i']) (simp_all add: exchange_write_def UdpSock_write_def with_inner_loop_def sender_clean_def)
  qed
next
  case False
  let ?log = "\<lambda>s. sent (obs s)"
  from sys i False have good: "udp_ok i \<and> whole_sends (\<lambda>s (d, a). us_send_to ops s d a) (length \<circ> fst) ?log"
    and lively: "never_breaks (\<lambda>s (d, a). us_send_to ops s d a)"
    and clean: "enc_ctx i = EncryptContext.Null" "set (msgs (view (out_queue2 i))) \<union> set (udp_line_to ?log i) \<subseteq> {(d, addr1)}"
    by (auto simp: exchange_system_def sender_clean_def)
  have enc: "udp_encode_to mc (enc_ctx i) (rng, Some (exchange_data, addr1, 0)) = Inr (Some (0, exchange_data, d, addr1))"
    using clean(1) carriesD(1) [OF d] by simp
  show thesis
  proof (rule udp_drain_to.write_succeeds [OF lively good enc, of t t'], goal_cases)
    case (1 b i' tk)
    from 1(4) have "queued_after t t' (conf (out_queue2 i)) (Some (0, d, addr1)) (view (out_queue2 i)) = tk @ view (out_queue2 i')"
      by simp
    from moved_subset [OF this _ clean(2)] 1(5)
    have "set (msgs (view (out_queue2 i'))) \<union> set (udp_line_to ?log i') \<subseteq> {(d, addr1)}"
      by (simp only: concat_units)
    with 1(1-3) False clean(1) show ?case
      by (intro that [of b i']) (simp_all add: exchange_write_def UdpSock_write_to_def with_inner_loop_def sender_clean_def)
  qed
qed

section \<open>The receiver\<close>

definition receiver_clean ::
  "('s \<Rightarrow> observed) \<Rightarrow> bool \<Rightarrow> byte list \<Rightarrow> SocketAddr \<Rightarrow> nat \<Rightarrow> ('s, 'k) UdpInner \<Rightarrow> bool" where
  "receiver_clean obs should_connect d addr0 n j \<longleftrightarrow>
     (if should_connect then read_buffer j = [] else read_buffer_2 j = []) \<and> dec_ctx j = DecryptContext.Null \<and>
     prefix (taken (obs (sock j))) (arrived (obs (sock j))) \<and> set (arrived (obs (sock j))) \<subseteq> {(d, addr0)} \<and>
     n = length (taken (obs (sock j)))"

lemma receives_without_address:
  assumes "datagrams (\<lambda>s. us_recv_from ops s BUF_LEN) s ds e s'"
    and "\<forall>s n. us_recv ops s n = (case us_recv_from ops s n of (r, s') \<Rightarrow> (map_sum id fst r, s'))"
  shows "datagrams (\<lambda>s. us_recv ops s BUF_LEN) s (map fst ds) e s'"
  using assms(1)
  by induction (auto simp: assms(2) intro: datagrams.stop datagrams.more)

text \<open>Equal answers are counted one by one until there are enough.\<close>

lemma counting_loop:
  assumes go: "\<And>i i'. rd i = Some (Inr (Some x), i') \<Longrightarrow>
      exchange_read ops mc should_connect addr0 (Some i) = Some (Done (Inr (Some exchange_data), Some i'))"
    and stop: "\<And>i i'. rd i = Some (Inr None, i') \<Longrightarrow>
      exchange_read ops mc should_connect addr0 (Some i) = Some (Done (Inr None, Some i'))"
  shows "repeat_read rd (Suc k) j = Some (replicate k (Inr (Some x)) @ [Inr None], j') \<Longrightarrow> n < ITERATIONS \<Longrightarrow>
    \<exists>us. rust_loop (exchange_turn ops mc should_connect addr0) (Some j, n) =
      Some (Some (if n + k < ITERATIONS then (Some j', n + k, Polling) else (us, ITERATIONS, Ended (Done ()))))"
proof (induction k arbitrary: j n)
  case 0
  then have "rd j = Some (Inr None, j')" by (auto split: option.splits)
  with stop 0(2) show ?case by (simp add: rust_loop_Inr exchange_turn_def)
next
  case (Suc k)
  then obtain i where i: "rd j = Some (Inr (Some x), i)"
    "repeat_read rd (Suc k) i = Some (replicate k (Inr (Some x)) @ [Inr None], j')" by (auto split: option.splits)
  have len: "length exchange_data = DATA_SIZE" by (simp add: exchange_data_def)
  show ?case
  proof (cases "Suc n = ITERATIONS")
    case True
    with go [OF i(1)] len show ?thesis by (simp add: rust_loop_Inr exchange_turn_def)
  next
    case False
    with Suc.prems(2) have "Suc n < ITERATIONS" by simp
    from Suc.IH [OF i(2) this] have "\<exists>us. rust_loop (exchange_turn ops mc should_connect addr0) (Some i, Suc n) =
        Some (Some (if n + Suc k < ITERATIONS then (Some j', n + Suc k, Polling) else (us, ITERATIONS, Ended (Done ()))))"
      unfolding add_Suc_right add_Suc .
    moreover have "exchange_turn ops mc should_connect addr0 (Some j, n) = Inl (Some i, Suc n)"
      using go [OF i(1)] len False by (simp add: exchange_turn_def)
    ultimately show ?thesis by (simp only: rust_loop_Inl)
  qed
qed

text \<open>All that has arrived is the datagram of the test, some number of times.\<close>

lemma receiver_burst:
  assumes sys: "exchange_system ops obs" and d: "carries mc m d" and j: "receiver_clean obs should_connect d addr0 n j"
  obtains k e e' s s' where "n + k = length (arrived (obs (sock j)))"
    "datagrams (\<lambda>s. us_recv_from ops s BUF_LEN) (sock j) (replicate k (d, addr0)) e s" "is_would_block e"
    "us_recv_from ops s BUF_LEN = (Inl e', s')" "is_would_block e'"
    "\<And>x. x \<in> {s, s'} \<Longrightarrow> obs x = (obs (sock j))\<lparr> taken := arrived (obs (sock j)) \<rparr>"
proof -
  let ?o = "obs (sock j)"
  from sys have takes: "udp_takes ops obs" by (simp add: exchange_system_def)
  from j have same: "x = (d, addr0)" if "x \<in> set (arrived ?o)" for x using that by (auto simp: receiver_clean_def)
  then have "\<forall>x\<in>set (arrived ?o). take BUF_LEN (fst x) = fst x" using carriesD(4) [OF d] by fastforce
  from loopback_burst [OF takes this] obtain ds e s where ds: "datagrams (\<lambda>s. us_recv_from ops s BUF_LEN) (sock j) ds e s"
    "is_would_block e" "arrived ?o = taken ?o @ ds" "obs s = ?o\<lparr> taken := arrived ?o \<rparr>" .
  obtain r s' where r: "us_recv_from ops s BUF_LEN = (r, s')" by (cases "us_recv_from ops s BUF_LEN")
  from loopback_recv [OF takes r] ds(4) obtain e' where e': "r = Inl e'" "is_would_block e'" "obs s' = obs s"
    by (auto split: sum.splits)
  have "ds = replicate (length ds) (d, addr0)"
    using same ds(3) by (intro replicate_eqI) auto
  moreover have "n + length ds = length (arrived ?o)" using j ds(3) by (simp add: receiver_clean_def)
  ultimately show thesis
    using ds r e' by (intro that [of "length ds" e s e' s']) auto
qed

text \<open>So a burst of reads answers one message that many times, in either mode.\<close>

lemma connected_answers:
  assumes sys: "exchange_system ops obs" and d: "carries mc m d" and j: "receiver_clean obs True d addr0 n j"
  obtains k j' where "n + k = length (arrived (obs (sock j)))"
    "repeat_read (UdpInner_read ops mc) (Suc k) j = Some (replicate k (Inr (Some m)) @ [Inr None], j')"
    "receiver_clean obs True d addr0 (length (arrived (obs (sock j)))) j'"
proof -
  from receiver_burst [OF sys d j] obtain k e e' s s' where k: "n + k = length (arrived (obs (sock j)))"
    and ds: "datagrams (\<lambda>s. us_recv_from ops s BUF_LEN) (sock j) (replicate k (d, addr0)) e s" "is_would_block e"
    and r: "us_recv_from ops s BUF_LEN = (Inl e', s')" "is_would_block e'"
    and o: "\<And>x. x \<in> {s, s'} \<Longrightarrow> obs x = (obs (sock j))\<lparr> taken := arrived (obs (sock j)) \<rparr>" by metis
  from sys have recv: "\<forall>s n. us_recv ops s n = (case us_recv_from ops s n of (r, s') \<Rightarrow> (map_sum id fst r, s'))"
    by (simp add: exchange_system_def)
  define j' where "j' = j\<lparr> sock := if replicate k d = [] then s else s', read_buffer := [] \<rparr>"
  have q: "filter (\<lambda>x. \<not> is_empty_vec x) (replicate k d) = replicate k d"
    by (simp add: is_empty_vec_def carriesD(3) [OF d])
  have "repeat_read (UdpInner_read ops mc) (Suc k) j = Some (replicate k (Inr (Some m)) @ [Inr None], j')"
    using udp_recv.burst_state [OF _ receives_without_address [OF ds(1) recv, unfolded map_replicate] ds(2) _ r(2), of s' mc]
      r(1) recv j q
    by (simp add: receiver_clean_def j'_def decrypt_some_def try_op_def carriesD(2) [OF d])
  moreover have "receiver_clean obs True d addr0 (length (arrived (obs (sock j)))) j'"
    using j o by (simp add: receiver_clean_def j'_def)
  ultimately show thesis using k by (intro that)
qed

lemma unconnected_answers:
  assumes sys: "exchange_system ops obs" and d: "carries mc m d" and j: "receiver_clean obs False d addr0 n j"
  obtains k j' where "n + k = length (arrived (obs (sock j)))"
    "repeat_read (UdpInner_read_frm ops mc) (Suc k) j = Some (replicate k (Inr (Some (m, addr0))) @ [Inr None], j')"
    "receiver_clean obs False d addr0 (length (arrived (obs (sock j)))) j'"
proof -
  from receiver_burst [OF sys d j] obtain k e e' s s' where k: "n + k = length (arrived (obs (sock j)))"
    and ds: "datagrams (\<lambda>s. us_recv_from ops s BUF_LEN) (sock j) (replicate k (d, addr0)) e s" "is_would_block e"
    and r: "us_recv_from ops s BUF_LEN = (Inl e', s')" "is_would_block e'"
    and o: "\<And>x. x \<in> {s, s'} \<Longrightarrow> obs x = (obs (sock j))\<lparr> taken := arrived (obs (sock j)) \<rparr>" by metis
  define j' where "j' = j\<lparr> sock := if replicate k (d, addr0) = [] then s else s', read_buffer_2 := [] \<rparr>"
  have q: "filter (\<lambda>x. \<not> is_empty_addressed x) (replicate k (d, addr0)) = replicate k (d, addr0)"
    by (simp add: is_empty_addressed_def carriesD(3) [OF d])
  have "repeat_read (UdpInner_read_frm ops mc) (Suc k) j =
      Some (replicate k (Inr (Some (m, addr0))) @ [Inr None], j')"
    using udp_recv_from.burst_state [OF _ ds r, of mc] j q
    by (simp add: receiver_clean_def j'_def decrypt_some_from_def try_op_def carriesD(2) [OF d])
  moreover have "receiver_clean obs False d addr0 (length (arrived (obs (sock j)))) j'"
    using j o by (simp add: receiver_clean_def j'_def)
  ultimately show thesis using k by (intro that)
qed

lemma receiver_counts:
  assumes sys: "exchange_system ops obs" and d: "carries mc exchange_data d"
    and j: "receiver_clean obs should_connect d addr0 n j" and n: "n < ITERATIONS"
  defines "arr \<equiv> arrived (obs (sock j))"
  shows "\<exists>j' us. receiver_clean obs should_connect d addr0 (length arr) j' \<and>
    rust_loop (exchange_turn ops mc should_connect addr0) (Some j, n) =
      Some (Some (if length arr < ITERATIONS then (Some j', length arr, Polling) else (us, ITERATIONS, Ended (Done ()))))"
proof (cases should_connect)
  case True
  with connected_answers [OF sys d] j obtain k j' where k: "n + k = length arr"
    "repeat_read (UdpInner_read ops mc) (Suc k) j = Some (replicate k (Inr (Some exchange_data)) @ [Inr None], j')"
    "receiver_clean obs should_connect d addr0 (length arr) j'" unfolding arr_def by metis
  from counting_loop [OF _ _ k(2) n, of ops mc should_connect addr0, unfolded k(1)] True k(3) show ?thesis
    unfolding exchange_read_def UdpSock_read_def with_inner_loop_def by (intro exI [of _ j']) simp
next
  case False
  with unconnected_answers [OF sys d] j obtain k j' where k: "n + k = length arr"
    "repeat_read (UdpInner_read_frm ops mc) (Suc k) j = Some (replicate k (Inr (Some (exchange_data, addr0))) @ [Inr None], j')"
    "receiver_clean obs should_connect d addr0 (length arr) j'" unfolding arr_def by metis
  from counting_loop [OF _ _ k(2) n, of ops mc should_connect addr0, unfolded k(1)] False k(3) show ?thesis
    unfolding exchange_read_def UdpSock_read_frm_def with_inner_loop_def by (intro exI [of _ j']) simp
qed

section \<open>What holds between two steps\<close>

definition exchange_ok ::
  "('s \<Rightarrow> observed) \<Rightarrow> bool \<Rightarrow> byte list \<Rightarrow> SocketAddr \<Rightarrow> SocketAddr \<Rightarrow> ('s, 'k) exchange \<Rightarrow> bool" where
  "exchange_ok obs should_connect d addr0 addr1 st \<longleftrightarrow>
     (\<exists>i. udp0 st = Some i \<and> sender_clean obs should_connect d addr1 i) \<and> sender_thread st \<noteq> Crashed \<and>
     ((\<exists>out. main_thread st = Ended out) \<or>
      (\<exists>j. udp1 st = Some j \<and> receiver_clean obs should_connect d addr0 (iterations st) j \<and> iterations st < ITERATIONS))"

lemma exchange_start_ok:
  assumes sys: "exchange_system ops obs"
    and start: "exchange_start ops reg should_connect any_addr w0 w1 = Done (st, addr0, addr1)"
  shows "exchange_ok obs should_connect d addr0 addr1 st"
proof -
  from sys have su: "udp_setup ops obs" by (simp add: exchange_system_def)
  from start obtain b0 b1 l0 l1 c0 c1 r0 r1 x0 x1 y0 y1 where
    b: "UdpSock_bind ops w0 any_addr = Inr b0" "UdpSock_bind ops w1 any_addr = Inr b1"
    "UdpSock_local_addr ops b0 = (Inr addr0, l0)" "UdpSock_local_addr ops b1 = (Inr addr1, l1)"
    and c: "(if should_connect then UdpSock_connect ops addr1 l0 else (Inr (), l0)) = (Inr x0, c0)"
      "(if should_connect then UdpSock_connect ops addr0 l1 else (Inr (), l1)) = (Inr x1, c1)"
    and r: "UdpSock_register ops (the_poll reg) UDP0 (readable reg OR writable reg) (edge reg) c0 = (Inr y0, r0)"
      "UdpSock_register ops (the_poll reg) UDP1 (readable reg OR writable reg) (edge reg) c1 = (Inr y1, r1)"
    and st: "st = \<lparr> udp0 = r0, udp1 = r1, sender_thread = Writing 0, wouldblocked = False, signals = 0,
      main_thread = Polling, iterations = 0 \<rparr>"
    unfolding exchange_start_def unwrap_Done unwrap_call_Done by auto
  obtain a0 a1 where l: "new_udp obs a0 None False l0" "new_udp obs a1 None False l1"
    using b bind_new [OF su] local_addr_new [OF su] by metis
  have "\<exists>p. new_udp obs a0 p False c0" "\<exists>p. new_udp obs a1 p False c1"
    using l c connect_new [OF su l(1)] connect_new [OF su l(2)] by (cases should_connect; force)+
  then obtain p0 p1 where "new_udp obs a0 p0 True r0" "new_udp obs a1 p1 True r1"
    using register_new [OF su _ r(1)] register_new [OF su _ r(2)] by blast
  then obtain i j where ij: "r0 = Some i" "idle_sender i" "udp_pending i = []" "sent (obs (sock i)) = []"
    "r1 = Some j" "read_buffer j = []" "read_buffer_2 j = []" "dec_ctx j = DecryptContext.Null"
    "arrived (obs (sock j)) = []" "taken (obs (sock j)) = []"
    unfolding new_udp_def by auto
  have "sender_clean obs should_connect d addr1 i"
    using ij(2-4) udp_pending_empty [of i] udp_pending_to_empty [of i]
    by (simp add: sender_clean_def idle_sender_def)
  moreover have "receiver_clean obs should_connect d addr0 0 j"
    using ij(6-10) by (simp add: receiver_clean_def)
  ultimately show ?thesis using ij(1,5) st by (simp add: exchange_ok_def ITERATIONS_def)
qed

lemma sender_step_ok:
  assumes sys: "exchange_system ops obs" and d: "carries mc exchange_data d"
    and ok: "exchange_ok obs should_connect d addr0 addr1 st"
  obtains st' where "sender_step ops mc should_connect addr1 rng t t' st = Some st'"
    "exchange_ok obs should_connect d addr0 addr1 st'"
proof (cases "sender_thread st")
  case (Writing k)
  from ok obtain i where i: "udp0 st = Some i" "sender_clean obs should_connect d addr1 i" by (auto simp: exchange_ok_def)
  from exchange_write_ok [OF sys d i(2), of rng t t'] obtain b i' where
    w: "exchange_write ops mc should_connect addr1 rng t t' (Some i) = Some (Done (Inr b, Some i'))"
      "sender_clean obs should_connect d addr1 i'" .
  with Writing i(1) ok show thesis
    by (intro that [of "st\<lparr> udp0 := Some i', sender_thread := if b then next_turn k else Refused k \<rparr>"])
      (auto simp: sender_step_def exchange_ok_def next_turn_def)
qed (use ok in \<open>auto intro!: that simp: sender_step_def exchange_ok_def next_turn_def\<close>)

text \<open>An event of the poll, in a state in which the main thread is waiting for one.\<close>

lemma main_event_ok:
  assumes sys: "exchange_system ops obs" and d: "carries mc exchange_data d"
    and ok: "exchange_ok obs should_connect d addr0 addr1 st" and at: "main_thread st = Polling"
    and token: "token \<in> {UDP0, UDP1, TIMEOUT}"
  shows "\<exists>st'. main_event ops mc should_connect addr0 token is_readable is_writable st = Some st' \<and>
    exchange_ok obs should_connect d addr0 addr1 st' \<and>
    (main_thread st' = Ended Panicked \<longrightarrow> token = TIMEOUT \<and> iterations st \<le> ITERATIONS div 2) \<and>
    (token = UDP1 \<and> is_readable \<and> (\<exists>j. udp1 st = Some j \<and> ITERATIONS \<le> length (arrived (obs (sock j)))) \<longrightarrow>
       main_thread st' = Ended (Done ()))"
proof -
  from ok at obtain j where j: "udp1 st = Some j" "receiver_clean obs should_connect d addr0 (iterations st) j"
    "iterations st < ITERATIONS" by (auto simp: exchange_ok_def)
  from token consider "token = UDP0" | "token = UDP1" | "token = TIMEOUT" by blast
  then show ?thesis
  proof cases
    case 2
    show ?thesis
    proof (cases is_readable)
      case True
      with receiver_counts [OF sys d j(2,3)] 2 ok j(1) show ?thesis
        by (auto simp: main_event_def exchange_tokens exchange_ok_def)
    qed (use 2 ok at in \<open>auto simp: main_event_def exchange_tokens\<close>)
  qed (use ok at in \<open>auto simp: main_event_def exchange_tokens exchange_ok_def\<close>)
qed

lemma exchange_run_ok:
  assumes sys: "exchange_system ops obs" and d: "carries mc exchange_data d"
    and "exchange_start ops reg should_connect any_addr w0 w1 = Done (st0, addr0, addr1)"
    and "exchange_run ops mc should_connect obs addr0 addr1 st0 st"
  shows "exchange_ok obs should_connect d addr0 addr1 st"
  using assms(4)
proof induction
  case started
  from exchange_start_ok [OF sys assms(3)] show ?case .
next
  case (room st i s)
  then show ?case by (auto simp: exchange_ok_def intro: sender_clean_room)
next
  case (delivered st i j s new)
  then have "sender_clean obs should_connect d addr1 i" by (simp add: exchange_ok_def)
  with delivered(5) sender_clean_sent have "set new \<subseteq> {(d, addr0)}" by fastforce
  with delivered show ?case by (auto simp: exchange_ok_def receiver_clean_def)
next
  case (sender st rng t t' st')
  from sender_step_ok [OF sys d sender(3), of rng t t'] sender(2) show ?case by auto
next
  case (event st token is_readable is_writable st')
  from main_event_ok [OF sys d event(5,2,3), of is_readable is_writable] event(4) show ?case by auto
next
  case (signal st)
  then show ?case by (auto simp: exchange_ok_def main_signal_def)
qed

section \<open>Properties\<close>

text \<open>
  C16. What the exchange test can fail of: in every state it reaches, for connected sockets and for others,
  whatever the threads, the poll, the room of the socket and a network that loses, repeats and reorders
  datagrams do next, each step of the sender returns and its writes never fail; an event makes the main
  thread panic only if it is the timeout and no more than half of the datagrams have been read, so that no
  datagram is ever partial, bloated, mangled or from someone else; and signalling the sender does not panic unless
  it has finished. With enough datagrams arrived, the next readable event ends the test, and it has passed.
\<close>

theorem exchange_test_outcome:
  assumes "exchange_system ops obs" and "carries mc exchange_data d"
    and "exchange_start ops reg should_connect any_addr w0 w1 = Done (st0, addr0, addr1)"
    and "exchange_run ops mc should_connect obs addr0 addr1 st0 st"
  shows "(\<exists>st'. sender_step ops mc should_connect addr1 rng t t' st = Some st' \<and> sender_thread st' \<noteq> Crashed) \<and>
    (main_thread st = Polling \<and> token \<in> {UDP0, UDP1, TIMEOUT} \<longrightarrow>
       (\<exists>st'. main_event ops mc should_connect addr0 token is_readable is_writable st = Some st' \<and>
          (main_thread st' = Ended Panicked \<longrightarrow> token = TIMEOUT \<and> iterations st \<le> ITERATIONS div 2) \<and>
          (token = UDP1 \<and> is_readable \<and> (\<exists>j. udp1 st = Some j \<and> ITERATIONS \<le> length (arrived (obs (sock j)))) \<longrightarrow>
             main_thread st' = Ended (Done ())))) \<and>
    (main_thread st = Signalling \<and> sender_thread st \<noteq> Finished \<longrightarrow> main_thread (main_signal st) = Polling)"
proof -
  note ok = exchange_run_ok [OF assms]
  from sender_step_ok [OF assms(1,2) ok, of rng t t'] have
    "\<exists>st'. sender_step ops mc should_connect addr1 rng t t' st = Some st' \<and> sender_thread st' \<noteq> Crashed"
    by (metis exchange_ok_def)
  moreover have "main_thread st = Signalling \<and> sender_thread st \<noteq> Finished \<longrightarrow> main_thread (main_signal st) = Polling"
    using ok by (simp add: main_signal_def exchange_ok_def)
  ultimately show ?thesis
    using main_event_ok [OF assms(1,2) ok, of token is_readable is_writable] by blast
qed

text \<open>How many steps the sender has left, at most.\<close>

primrec steps_left :: "sender_at \<Rightarrow> nat" where
  "steps_left (Writing i) = 4 * (ITERATIONS - i) + 4"
| "steps_left (Refused i) = 4 * (ITERATIONS - i) + 3"
| "steps_left (Waiting i) = 4 * (ITERATIONS - i) + 2"
| "steps_left (Woken i) = 4 * (ITERATIONS - i) + 1"
| "steps_left Finished = 0"
| "steps_left Crashed = 0"

lemma sender_step_progress:
  assumes "sender_step ops mc should_connect addr1 rng t t' st = Some st'"
    and "sender_thread st \<noteq> Finished" and "sender_thread st \<noteq> Crashed"
  shows "steps_left (sender_thread st') < steps_left (sender_thread st)"
    "main_thread st' = main_thread st \<and> udp1 st' = udp1 st \<and> iterations st' = iterations st"
proof -
  have next_less: "steps_left (next_turn i) < 4 * (ITERATIONS - i) + 1" for i
    by (simp add: next_turn_def) arith
  then have later: "steps_left (next_turn i) < 4 * (ITERATIONS - i) + 4" for i
    by (rule less_le_trans) simp
  show "steps_left (sender_thread st') < steps_left (sender_thread st)"
    using assms next_less later
    by (cases "sender_thread st")
      (auto simp: sender_step_def split: option.splits outcome.splits sum.splits bool.splits)
  show "main_thread st' = main_thread st \<and> udp1 st' = udp1 st \<and> iterations st' = iterations st"
    using assms(1)
    by (auto simp: sender_step_def split: sender_at.splits option.splits outcome.splits)
qed

text \<open>
  From any state of the test the sender alone can go on to its end. Its steps touch neither the other
  socket nor the main thread.
\<close>

lemma sender_can_finish:
  assumes sys: "exchange_system ops obs" and d: "carries mc exchange_data d"
  shows "exchange_ok obs should_connect d addr0 addr1 st \<Longrightarrow>
    exchange_run ops mc should_connect obs addr0 addr1 st1 st \<Longrightarrow>
    \<exists>st'. exchange_run ops mc should_connect obs addr0 addr1 st1 st' \<and> sender_thread st' = Finished \<and>
      main_thread st' = main_thread st \<and> udp1 st' = udp1 st \<and> iterations st' = iterations st"
proof (induction "steps_left (sender_thread st)" arbitrary: st rule: less_induct)
  case less
  note ok = less.prems(1)
  show ?case
  proof (cases "sender_thread st = Finished")
    case False
    from sender_step_ok [OF sys d ok, of 0 "\<lambda>_. 0" 0] obtain st' where
      s: "sender_step ops mc should_connect addr1 0 (\<lambda>_. 0) 0 st = Some st'"
      and ok': "exchange_ok obs should_connect d addr0 addr1 st'" by blast
    from ok have "sender_thread st \<noteq> Crashed" by (simp add: exchange_ok_def)
    from sender_step_progress [OF s False this] less.hyps [OF _ ok' exchange_run.sender [OF less.prems(2) s]]
    show ?thesis by simp
  qed (use less.prems in blast)
qed

text \<open>
  C36. A race of the exchange test: from every state in which the main thread has found the flag up and is
  about to signal, the run can go on with steps of the sender alone, which times out, lowers the flag,
  writes the rest and drops its end of the channel, while the other socket and the count of datagrams
  read stay as they are. The signal then fails, and \<open>unwrap!\<close> makes the test panic.
\<close>

theorem exchange_signal_race:
  assumes "exchange_system ops obs" and "carries mc exchange_data d"
    and "exchange_start ops reg should_connect any_addr w0 w1 = Done (st0, addr0, addr1)"
    and "exchange_run ops mc should_connect obs addr0 addr1 st0 st" and "main_thread st = Signalling"
  shows "\<exists>st'. exchange_run ops mc should_connect obs addr0 addr1 st st' \<and> main_thread st' = Signalling \<and>
    sender_thread st' = Finished \<and> udp1 st' = udp1 st \<and> iterations st' = iterations st \<and>
    main_thread (main_signal st') = Ended Panicked"
proof -
  from sender_can_finish [OF assms(1,2) exchange_run_ok [OF assms(1-4)] exchange_run.started] obtain st' where
    "exchange_run ops mc should_connect obs addr0 addr1 st st'" "sender_thread st' = Finished"
    "main_thread st' = main_thread st" "udp1 st' = udp1 st" "iterations st' = iterations st" by blast
  with assms(5) show ?thesis by (intro exI [of _ st']) (simp add: main_signal_def)
qed

text \<open>A system as before, in which a send may have to wait for room.\<close>

definition tight_ops :: "(nat \<times> observed) udp_ops" where
  "tight_ops = \<lparr>
     us_bind = (\<lambda>(room, w) a. map_sum id (Pair room) (us_bind small_ops w a)),
     us_connect = (\<lambda>(room, s) a. apsnd (Pair room) (us_connect small_ops s a)),
     us_recv = (\<lambda>(room, s) n. map_prod (map_sum id fst) (Pair room) (us_recv_from small_ops s n)),
     us_recv_from = (\<lambda>(room, s) n. apsnd (Pair room) (us_recv_from small_ops s n)),
     us_send = (\<lambda>(room, s) d. case room of
         0 \<Rightarrow> (Inl (IoError ErrorKind.WouldBlock []), 0, s)
       | Suc r \<Rightarrow> (Inr (length d), r, s\<lparr> sent := sent s @ [(d, V4 0 0)] \<rparr>)),
     us_send_to = (\<lambda>(room, s) d a. case room of
         0 \<Rightarrow> (Inl (IoError ErrorKind.WouldBlock []), 0, s)
       | Suc r \<Rightarrow> (Inr (length d), r, s\<lparr> sent := sent s @ [(d, a)] \<rparr>)),
     us_set_ttl = (\<lambda>s t. (Inr (), s)), us_ttl = (\<lambda>s. (Inr 64, s)),
     us_local_addr = (\<lambda>(room, s). apsnd (Pair room) (us_local_addr small_ops s)),
     us_take_error = (\<lambda>s. (Inr None, s)),
     us_register = (\<lambda>(room, s) p t i q. apsnd (Pair room) (us_register small_ops s p t i q)),
     us_reregister = (\<lambda>s p t i q. (Inr (), s)), us_deregister = (\<lambda>s p. (Inr (), s)) \<rparr>"

lemma tight_system: "exchange_system tight_ops (\<lambda>s. small_view (snd s))"
  by (auto simp: exchange_system_def udp_setup_def udp_takes_def whole_sends_def never_breaks_def tight_ops_def
      small_ops_def small_view_def is_would_block_def split: list.splits prod.splits nat.splits)

lemma exchange_carries: "carries bytes_codec exchange_data exchange_data"
  by (simp add: carries_def bytes_codec_def exchange_data_def DATA_SIZE_def BUF_LEN_def)

definition tight_sock :: "nat \<Rightarrow> SocketAddr \<Rightarrow> addressed list \<Rightarrow> addressed list \<Rightarrow> (nat \<times> observed, nat) UdpInner" where
  "tight_sock room a out ahead = UdpInner_new
     (room, \<lparr> home = a, only_from = None, polled = True, sent = out, arrived = ahead, taken = [] \<rparr>) SocketConfig_default"

abbreviation tight_start :: "nat \<Rightarrow> (nat \<times> observed, nat) exchange" where
  "tight_start room \<equiv> \<lparr> udp0 = Some (tight_sock room (V4 7 1) [] []), udp1 = Some (tight_sock 0 (V4 7 2) [] []),
     sender_thread = Writing 0, wouldblocked = False, signals = 0, main_thread = Polling, iterations = 0 \<rparr>"

lemma tight_starts:
  "exchange_start tight_ops sample_registration1 False (V4 0 0) (sock (tight_sock room (V4 7 1) [] []))
     (sock (tight_sock 0 (V4 7 2) [] [])) = Done (tight_start room, V4 7 1, V4 7 2)"
  by (simp add: exchange_start_def unwrap_def unwrap_call_def tight_ops_def small_ops_def tight_sock_def
      UdpSock_bind_def UdpSock_bind_with_conf_def UdpSock_wrap_with_conf_def UdpSock_local_addr_def on_sock_def
      UdpSock_register_def UdpInner_register_def guard_defs try_op_def UdpInner_new_def)

lemmas tight_write_defs = exchange_write_def UdpSock_write_to_def with_inner_loop_def UdpInner_write_to_def
  UdpInner_flush_write_to_def rust_loop.simps send_to_turn_def take_or_next_def handle_send_simps encrypt_def
  bytes_codec_def tight_ops_def queue_simps tight_sock_def UdpInner_new_def config_defaults is_would_block_def

lemma tight_sends:
  "exchange_write tight_ops bytes_codec False (V4 7 2) 0 (\<lambda>_. 0) 0 (Some (tight_sock 1 (V4 7 1) [] [])) =
     Some (Done (Inr True, Some (tight_sock 0 (V4 7 1) [(exchange_data, V4 7 2)] [])))"
  by (simp add: tight_write_defs)

lemma tight_blocks:
  "exchange_write tight_ops bytes_codec False (V4 7 2) 0 (\<lambda>_. 0) 0 (Some (tight_sock 0 (V4 7 1) [] [])) =
     Some (Done (Inr False, Some ((tight_sock 0 (V4 7 1) [] [])\<lparr> current_write_2 := Some (exchange_data, V4 7 2) \<rparr>)))"
  by (simp add: tight_write_defs)

text \<open>One datagram is sent, and the network delivers it two hundred times.\<close>

abbreviation tight_run :: "(nat \<times> observed, nat) exchange \<Rightarrow> (nat \<times> observed, nat) exchange \<Rightarrow> bool" where
  "tight_run \<equiv> exchange_run tight_ops bytes_codec False (\<lambda>s. small_view (snd s)) (V4 7 1) (V4 7 2)"

theorem exchange_test_outcome_witness:
  "\<exists>st st'. tight_run (tight_start 1) st \<and>
    main_event tight_ops bytes_codec False (V4 7 1) UDP1 True False st = Some st' \<and> main_thread st' = Ended (Done ())"
proof -
  let ?d = "(exchange_data, V4 7 1)"
  let ?sent = "(tight_start 1)\<lparr> udp0 := Some (tight_sock 0 (V4 7 1) [(exchange_data, V4 7 2)] []), sender_thread := Writing 1 \<rparr>"
  let ?st = "?sent\<lparr> udp1 := Some (tight_sock 0 (V4 7 2) [] (replicate 200 ?d)) \<rparr>"
  have "sender_step tight_ops bytes_codec False (V4 7 2) 0 (\<lambda>_. 0) 0 (tight_start 1) = Some ?sent"
    by (simp add: sender_step_def tight_sends [simplified] next_turn_def ITERATIONS_def)
  from exchange_run.sender [OF exchange_run.started this] have run: "tight_run (tight_start 1) ?sent" .
  have sock: "(tight_sock 0 (V4 7 2) [] [])\<lparr> sock := sock (tight_sock 0 (V4 7 2) [] ds) \<rparr> = tight_sock 0 (V4 7 2) [] ds" for ds
    by (simp add: tight_sock_def UdpInner_new_def)
  have "tight_run (tight_start 1) ?st"
    using exchange_run.delivered [OF run, of "tight_sock 0 (V4 7 1) [(exchange_data, V4 7 2)] []" "tight_sock 0 (V4 7 2) [] []"
        "sock (tight_sock 0 (V4 7 2) [] (replicate 200 ?d))" "replicate 200 ?d"] sock
    by (simp add: small_view_def tight_sock_def UdpInner_new_def)
  moreover have "\<exists>st'. main_event tight_ops bytes_codec False (V4 7 1) UDP1 True False ?st = Some st' \<and>
      main_thread st' = Ended (Done ())"
    using exchange_test_outcome [OF tight_system exchange_carries tight_starts \<open>tight_run (tight_start 1) ?st\<close>,
        of 0 "\<lambda>_. 0" 0 UDP1 True False]
    by (auto simp: small_view_def tight_sock_def UdpInner_new_def ITERATIONS_def)
  ultimately show ?thesis by blast
qed

theorem exchange_signal_race_witness:
  "\<exists>st st'. tight_run (tight_start 0) st \<and> tight_run st st' \<and> main_thread st' = Signalling \<and>
    sender_thread st' = Finished \<and> main_thread (main_signal st') = Ended Panicked"
proof -
  let ?refused = "(tight_start 0)\<lparr> udp0 := Some ((tight_sock 0 (V4 7 1) [] [])\<lparr> current_write_2 := Some (exchange_data, V4 7 2) \<rparr>),
    sender_thread := Refused 0 \<rparr>"
  let ?waiting = "?refused\<lparr> wouldblocked := True, sender_thread := Waiting 0 \<rparr>"
  have "sender_step tight_ops bytes_codec False (V4 7 2) 0 (\<lambda>_. 0) 0 (tight_start 0) = Some ?refused"
    "sender_step tight_ops bytes_codec False (V4 7 2) 0 (\<lambda>_. 0) 0 ?refused = Some ?waiting"
    by (simp_all add: sender_step_def tight_blocks)
  then have "tight_run (tight_start 0) ?waiting"
    by (intro exchange_run.sender [OF exchange_run.sender [OF exchange_run.started]])
  then have run: "tight_run (tight_start 0) (?waiting\<lparr> main_thread := Signalling \<rparr>)"
    by (rule exchange_run.event [where token = UDP0 and is_writable = True])
      (simp_all add: main_event_def)
  obtain st where st: "st = ?waiting\<lparr> main_thread := Signalling \<rparr>" by blast
  from exchange_signal_race [OF tight_system exchange_carries tight_starts run [folded st]] run [folded st]
  show ?thesis by (simp add: st [THEN arg_cong, of main_thread]) blast
qed

end
