(* ===== verification/Tcp_Bounds.thy ===== *)
theory Tcp_Bounds
  imports Tcp_Connection
begin

text \<open>
  How much a TCP socket (\<open>src/src/tcp.rs\<close>) holds back: what \<open>LenDelimitedReader\<close> keeps between two
  events, over any sequence of calls of \<open>read\<close> and whatever the stream yields.
\<close>

section \<open>What one look leaves behind\<close>

text \<open>
  The limit on the body waited for holds, and what is buffered is the end of what was taken.
\<close>

definition within_limit :: "('s \<Rightarrow> byte list) \<Rightarrow> ('s, 'k) TcpInner \<Rightarrow> bool" where
  "within_limit taken k \<longleftrightarrow>
     read_len (msg_reader k) \<le> max_payload_size (msg_reader k) \<and>
     (\<exists>before. taken (stream k) = before @ read_buffer (msg_reader k))"

text \<open>The buffer is shorter than one frame, or begins behind the header of an empty one.\<close>

definition idle_bound :: "('k, u32) codec \<Rightarrow> ('s \<Rightarrow> byte list) \<Rightarrow> ('s, 'k) TcpInner \<Rightarrow> bool" where
  "idle_bound hc taken k \<longleftrightarrow>
     (let rd = msg_reader k in
      length (read_buffer rd) < max (dec_size_len (dec_ctx rd)) (max_payload_size rd) \<or>
      (\<exists>before hdr. taken (stream k) = before @ hdr @ read_buffer rd \<and>
         length hdr = dec_size_len (dec_ctx rd) \<and> decrypt hc (dec_ctx rd) hdr = Inr 0))"

lemma try_read_buffer:
  assumes "try_read_pure hc mc rd = (x, rd')" and "read_len rd \<le> max_payload_size rd"
  shows "dec_ctx rd' = dec_ctx rd \<and> max_payload_size rd' = max_payload_size rd \<and>
    (\<exists>n. read_buffer rd' = drop n (read_buffer rd)) \<and>
    (x \<noteq> Inl PayloadSizeProhibitive \<longrightarrow> read_len rd' \<le> max_payload_size rd) \<and>
    (x = Inr None \<longrightarrow> length (read_buffer rd') < max (dec_size_len (dec_ctx rd)) (max_payload_size rd) \<or>
      (\<exists>hdr. read_buffer rd = hdr @ read_buffer rd' \<and> length hdr = dec_size_len (dec_ctx rd) \<and>
         decrypt hc (dec_ctx rd) hdr = Inr 0))"
proof -
  let ?n = "dec_size_len (dec_ctx rd)"
  have whole: "\<exists>n. read_buffer rd = drop n (read_buffer rd)" by (rule exI [of _ 0]) simp
  have hdr: "\<exists>hdr. read_buffer rd = hdr @ drop ?n (read_buffer rd) \<and> length hdr = ?n \<and>
      decrypt hc (dec_ctx rd) hdr = Inr 0"
    if "?n \<le> length (read_buffer rd)" "decrypt hc (dec_ctx rd) (take ?n (read_buffer rd)) = Inr w" "unat w = 0" for w
    using that by (intro exI [of _ "take ?n (read_buffer rd)"]) (simp add: unat_eq_0)
  show ?thesis
    using assms whole
    by (auto simp: try_read_pure_def try_read_header_pure_def mark_read_pure_def Let_def not_less drop_drop unat_eq_0 hdr less_max_iff_disj
        split: if_splits sum.splits bool.splits)
qed

lemma inner_try_read_bound:
  assumes "inner_try_read_pure hc mc k = (x, k')" and "within_limit taken k"
  shows "stream k' = stream k \<and> (x \<noteq> Inl PayloadSizeProhibitive \<longrightarrow> within_limit taken k') \<and>
    (x = Inr None \<longrightarrow> idle_bound hc taken k')"
proof -
  obtain rd' where rd': "try_read_pure hc mc (msg_reader k) = (x, rd')" "k' = k\<lparr> msg_reader := rd' \<rparr>"
    using assms(1) by (auto simp: inner_try_read_pure_def split: prod.splits)
  from assms(2) obtain before where before: "taken (stream k) = before @ read_buffer (msg_reader k)"
    and len: "read_len (msg_reader k) \<le> max_payload_size (msg_reader k)" by (auto simp: within_limit_def)
  note b = try_read_buffer [OF rd'(1) len]
  from b obtain n where n: "read_buffer rd' = drop n (read_buffer (msg_reader k))" by blast
  have "taken (stream k) = (before @ take n (read_buffer (msg_reader k))) @ read_buffer rd'"
    using before n by simp
  then have "\<exists>before. taken (stream k') = before @ read_buffer (msg_reader k')" using rd'(2) by auto
  with b rd'(2) have "x \<noteq> Inl PayloadSizeProhibitive \<longrightarrow> within_limit taken k'"
    by (simp add: within_limit_def)
  moreover have "idle_bound hc taken k'" if "x = Inr None"
  proof -
    from b that consider "length (read_buffer rd') < max (dec_size_len (dec_ctx rd')) (max_payload_size rd')"
      | hdr where "read_buffer (msg_reader k) = hdr @ read_buffer rd'" "length hdr = dec_size_len (dec_ctx rd')"
        "decrypt hc (dec_ctx rd') hdr = Inr 0" by auto
    then show ?thesis
      using before rd'(2) by cases (auto simp: idle_bound_def Let_def)
  qed
  ultimately show ?thesis using rd'(2) by simp
qed

section \<open>A whole call\<close>

lemma TcpInner_read_bound:
  assumes contract: "tcp_read_contract ops taken" and "within_limit taken j"
    and "TcpInner_read_pure ops hc mc j = Some (r, j')"
  shows "(r \<noteq> Inl PayloadSizeProhibitive \<longrightarrow> within_limit taken j') \<and> (r = Inr None \<longrightarrow> idle_bound hc taken j')"
proof -
  define Q where "Q = (\<lambda>(r :: 'c option res, k :: ('a, 'b) TcpInner).
    (r \<noteq> Inl PayloadSizeProhibitive \<longrightarrow> within_limit taken k) \<and> (r = Inr None \<longrightarrow> idle_bound hc taken k))"
  define P where "P = (\<lambda>(b, k :: ('a, 'b) TcpInner). within_limit taken k \<and> (\<not> b \<longrightarrow> idle_bound hc taken k))"
  have on: "P s'" if "P s" "read_turn_pure ops hc mc s = Inl s'" for s s'
  proof -
    obtain b k where s: "s = (b, k)" by (cases s)
    obtain res t where rd: "ts_read ops (stream k) BUF_LEN = (res, t)" by (cases "ts_read ops (stream k) BUF_LEN")
    with that(2) s obtain buf where "res = Inr buf" "s' = (True, k\<lparr> stream := t, msg_reader := put_buf buf (msg_reader k) \<rparr>)"
      by (auto simp: read_turn_pure_def Let_def split: sum.splits if_splits option.splits prod.splits)
    with tcp_read_contractD [OF contract rd] that(1) s show ?thesis
      by (auto simp: P_def within_limit_def put_buf_def)
  qed
  have out: "Q out" if "P s" "read_turn_pure ops hc mc s = Inr out" for s out
  proof -
    obtain b k where s: "s = (b, k)" by (cases s)
    obtain res t where rd: "ts_read ops (stream k) BUF_LEN = (res, t)" by (cases "ts_read ops (stream k) BUF_LEN")
    let ?k = "k\<lparr> stream := t \<rparr>"
    obtain x k2 where look: "inner_try_read_pure hc mc ?k = (x, k2)" by (cases "inner_try_read_pure hc mc ?k")
    have "taken t = taken (stream k)"
      using tcp_read_contractD [OF contract rd] that(2) rd s
      by (auto simp: read_turn_pure_def Let_def split: sum.splits if_splits)
    with that(1) s have k: "within_limit taken ?k" "\<not> b \<longrightarrow> idle_bound hc taken ?k"
      by (auto simp: P_def within_limit_def idle_bound_def)
    from that(2) rd look s k inner_try_read_bound [OF look k(1)] show ?thesis
      by (auto simp: Q_def read_turn_pure_def Let_def split: sum.splits if_splits option.splits)
  qed
  obtain x k where look: "inner_try_read_pure hc mc j = (x, k)" by (cases "inner_try_read_pure hc mc j")
  have "Q (r, j')"
  proof (cases "x = Inr None")
    case True
    with look assms(3) have loop: "rust_loop (read_turn_pure ops hc mc) (False, k) = Some (r, j')"
      by (simp add: TcpInner_read_pure_def)
    have "P (False, k)" using inner_try_read_bound [OF look assms(2)] True by (simp add: P_def)
    from rust_loop_rule [OF loop, where P = P and Q = Q, OF this on out] show ?thesis .
  next
    case False
    with look assms(3) have "r = x" "j' = k" by (auto simp: TcpInner_read_pure_def split: sum.splits option.splits)
    with inner_try_read_bound [OF look assms(2)] show ?thesis by (simp add: Q_def)
  qed
  then show ?thesis by (simp add: Q_def)
qed

section \<open>Properties\<close>

text \<open>
  C24. A socket that waits holds back less than one frame: after any calls of \<open>read\<close> at any times,
  as long as none has answered \<open>PayloadSizeProhibitive\<close>, when the last one has answered \<open>None\<close> the
  buffer is shorter than a header or the largest body allowed, whatever the stream has yielded,
  well formed or not. The exception is a stream in which a frame of length zero has just been
  swallowed: everything behind its header is then still in the buffer, and there is no bound on that.
\<close>

theorem tcp_idle_buffer_bounded:
  assumes "tcp_reading ops hc mc taken j0 rs j" and "tcp_read_contract ops taken"
    and "read_len (msg_reader j0) = 0" and "read_buffer (msg_reader j0) = []"
    and "Inl PayloadSizeProhibitive \<notin> set rs" and "rs \<noteq> []" and "last rs = Inr None"
  shows "length (read_buffer (msg_reader j)) <
      max (dec_size_len (dec_ctx (msg_reader j))) (max_payload_size (msg_reader j)) \<or>
    (\<exists>before hdr. taken (stream j) = before @ hdr @ read_buffer (msg_reader j) \<and>
       length hdr = dec_size_len (dec_ctx (msg_reader j)) \<and> decrypt hc (dec_ctx (msg_reader j)) hdr = Inr 0)"
proof -
  have "within_limit taken j \<and> (rs \<noteq> [] \<and> last rs = Inr None \<longrightarrow> idle_bound hc taken j)"
    using assms(1,5)
  proof induction
    case opened
    with assms(3,4) show ?case by (simp add: within_limit_def)
  next
    case (called rs j r j')
    from called(2) have "TcpInner_read_pure ops hc mc j = Some (r, j')" by (simp add: TcpInner_read_Some)
    from called TcpInner_read_bound [OF assms(2) _ this] show ?case by auto
  next
    case (elsewhere rs j j')
    then show ?case by (simp add: same_receiving_def within_limit_def idle_bound_def Let_def)
  qed
  with assms(6,7) show ?thesis by (simp add: idle_bound_def Let_def)
qed

theorem tcp_idle_buffer_bounded_witness:
  "\<exists>j. TcpInner_read recording_ops le32_codec bytes_codec (TcpInner_new ([[5, 0, 0], [0, 7, 1]], [], 0)) =
      Some (Done (Inr None, j)) \<and> length (read_buffer (msg_reader (j :: (pipe, nat) TcpInner))) < 2 * 1024 * 1024"
proof -
  let ?j = "TcpInner_new ([[5, 0, 0], [0, 7, 1]], [], 0) :: (pipe, nat) TcpInner"
  let ?k = "?j\<lparr> stream := ([], [5, 0, 0, 0, 7, 1], 0),
    msg_reader := (LenDelimitedReader_new (2 * 1024 * 1024))\<lparr> read_buffer := [7, 1], read_len := 5 \<rparr> \<rparr>"
  have read: "TcpInner_read recording_ops le32_codec bytes_codec ?j =
      Some (Done (Inr None :: byte list option res, ?k))"
    by (simp add: TcpInner_read_in_range TcpInner_read_pure_def inner_try_read_pure_def rust_loop.simps read_turn_pure_def recording_ops_def pipe_ops_def
        tcp_new_defs config_defaults LenDelimitedReader_new_def try_read_pure_def try_read_header_pure_def put_buf_def
        mark_read_pure_def codec_simps is_would_block_def Let_def)
  have "tcp_reading recording_ops le32_codec bytes_codec pipe_sent ?j ([] @ [Inr None :: byte list option res]) ?k"
    by (rule reading.called [OF reading.opened]) (rule read)
  from tcp_idle_buffer_bounded [OF this recording_contract] read show ?thesis
    by (simp add: tcp_new_defs LenDelimitedReader_new_def Let_def)
qed

end
