(* ===== verification/Tcp_Faults.thy ===== *)
theory Tcp_Faults
  imports Tcp_Session
begin

text \<open>
  What an error of the stream does to a TCP connection (\<open>src/src/tcp.rs\<close>) whose program goes on
  using it. \<open>flush_write_until_would_block\<close> has taken the message out of \<open>current_write\<close> and does
  not put it back, so the rest of a frame that was sent in part is lost, and the next frame follows
  in its middle.
\<close>

section \<open>The sender\<close>

text \<open>The call that meets the error loses the message being written, and no other.\<close>

lemma write_none_fails:
  assumes "current_write i = Some d" and "ts_write ops (stream i) d = (Inl e, s)" and "\<not> is_would_block e"
  shows "TcpInner_write ops hc mc rng t t' None i = Some (Done (Inl (Io e),
    i\<lparr> stream := s, current_write := None, out_queue := snd (drop_expired t (out_queue i)) \<rparr>))"
  using assms
  by (simp add: TcpInner_write_def flush_write_until_would_block_def rust_loop_Inr flush_turn_eq
      take_or_next_def)

text \<open>A call on an idle socket that answers \<open>Ok(true)\<close> has sent its frame, and nothing else.\<close>

lemma write_to_idle:
  assumes w: "TcpInner_write ops hc mc rng t t' (Some (m, p)) i = Some (Done (Inr True, i'))"
    and contract: "tcp_write_contract ops sent" and ok: "tcp_ok i"
    and idle: "tcp_pending i = []" and f: "serialize_with_len hc mc rng m (enc_ctx i) = Inr f"
  shows "sent (stream i') = sent (stream i) @ f"
proof -
  let ?new = "Some (p, m, f)"
  have empty: "view (out_queue i) = []" "current_write i = None"
    using idle by (auto simp: tcp_pending_def pending_of_def split: option.splits)
  from tcp_mail.write_flushes [where i = i and sent = sent and hc = hc and mc = mc and w = "(rng, Some (m, p))" and new = ?new and ops = ops and t = t and t' = t'] ok contract f obtain j where
    j: "rust_loop (flush_turn ops) j = Some (Done (Inr True, i'))" "tcp_ok j" "tcp_line sent j = tcp_line sent i"
      "view (out_queue j) = queued_after t t' (conf (out_queue i)) (Some (p, f)) (view (out_queue i))"
    using w by auto
  have queue: "view (out_queue j) = [(p, t', f)]"
    using j(4) empty(1) by (simp add: queued_after_def spec_push_def spec_drop_def)
  from TcpInner_write_outcome [OF w ok] have sent_all: "view (out_queue i') = []" "current_write i' = None"
    by (auto simp: tcp_pending_def pending_of_def split: option.splits)
  from tcp_order.loop_reaches [OF j(1), of sent, unfolded tcp_order.reaches_def] j(2) contract obtain taken where
    "view (out_queue j) = taken @ view (out_queue i')" "tcp_line sent i' = tcp_line sent j @ concat (msgs taken)"
    by auto
  with queue sent_all j(3) empty(2) show ?thesis by (simp add: tcp_line_def)
qed

section \<open>The receiver\<close>

text \<open>
  A reader that has the start \<open>a\<close> of the frame \<open>a @ d\<close>, and then other bytes instead of \<open>d\<close>: it
  takes as many of them as are missing.
\<close>

lemma misframed_read:
  assumes "linked keypair hc mc e (dec_ctx rd)" and "serialize_with_len hc mc rng m e = Inr (a @ d)"
    and "body_fits (max_payload_size rd) e (a @ d)" and "dec_size_len (dec_ctx rd) \<le> length a"
    and "read_len rd = 0" and "read_buffer rd = a @ other" and "length d \<le> length other"
  defines "body \<equiv> drop (dec_size_len (dec_ctx rd)) a @ take (length d) other"
  defines "rest \<equiv> drop (length d) other"
  shows "try_read_pure hc mc rd =
    (case decrypt mc (dec_ctx rd) body of
       Inl err \<Rightarrow> (Inl err, rd\<lparr> read_len := length body, read_buffer := body @ rest \<rparr>)
     | Inr m' \<Rightarrow> (Inr (Some m'), rd\<lparr> read_buffer := rest \<rparr>))"
proof -
  let ?n = "dec_size_len (dec_ctx rd)"
  from assms(1,2) obtain hdr b where f: "a @ d = hdr @ b" "length hdr = ?n"
    "decrypt hc (dec_ctx rd) hdr = Inr (of_nat (length b))" "enc_size_len e = ?n"
    by (rule serialize_with_len_parts)
  from f(1,2) assms(4) have hdr: "hdr = take ?n a"
    by (metis append_eq_append_conv_if length_take min.absorb2 append_eq_conv_conj take_append
        diff_is_0_eq' take0 append_Nil2)
  have len: "length b = length body" "0 < length b" "length b \<le> max_payload_size rd" "length b < 2 ^ 32"
    using f(2,4) assms(3,4,7) arg_cong [OF f(1), of length] by (simp_all add: body_fits_def body_def)
  have "unat (of_nat (length b) :: u32) = length b"
    using len(4) by (simp add: unat_of_nat take_bit_nat_eq_self)
  moreover have "drop ?n (a @ other) = body @ rest"
    using assms(4) by (simp add: body_def rest_def)
  moreover have "take ?n (a @ other) = hdr" using assms(4) by (simp add: hdr)
  ultimately have "try_read_header_pure hc rd = (Inr True, rd\<lparr> read_len := length body, read_buffer := body @ rest \<rparr>)"
    using f(3) len assms(4,6) by (simp add: try_read_header_pure_def Let_def)
  with assms(5) show ?thesis
    by (cases rd) (simp add: try_read_pure_def mark_read_pure_def split: sum.split)
qed

section \<open>Interrupted calls\<close>

text \<open>A read that finds one whole frame answers its message.\<close>

lemma read_frame:
  assumes "linked keypair hc mc e (dec_ctx (msg_reader i))"
    and "frames_of hc mc e (max_payload_size (msg_reader i)) [m] [f]"
    and "read_len (msg_reader i) = 0" and "read_buffer (msg_reader i) = []"
    and "tcp_yields ops (stream i) pieces (Inl err) s" and "is_would_block err" and "concat pieces = f"
  shows "\<exists>j. TcpInner_read_pure ops hc mc i = Some (Inr (Some m), j)"
proof -
  let ?i = "buffered pieces s i"
  have "f \<noteq> []" using assms(2) by (auto simp: body_fits_def)
  with assms(7) have "pieces \<noteq> []" by auto
  with read_idle [OF assms(3,4), of hc mc] read_loop_yields [OF assms(5), of hc mc False] assms(6)
  have loop: "TcpInner_read_pure ops hc mc i = Some (inner_try_read_pure hc mc ?i)"
    by (simp add: TcpInner_read_pure_def finish_read_def)
  have rd: "msg_reader ?i = put_buf f (msg_reader i)"
    using assms(7) by (simp add: buffered_def)
  have "linked keypair hc mc e (dec_ctx (msg_reader ?i))"
    "frames_of hc mc e (max_payload_size (msg_reader ?i)) [m] [f]"
    using assms(1,2) by (simp_all add: rd put_buf_def)
  moreover have "unread (dec_size_len (dec_ctx (msg_reader ?i))) (msg_reader ?i) [f] []"
    using assms(3,4) by (intro unread_between) (simp_all add: rd put_buf_def)
  ultimately obtain rd' where "try_read_pure hc mc (msg_reader ?i) = (Inr (Some m), rd')"
    by (cases rule: try_read_progress) auto
  with loop show ?thesis by (simp add: inner_try_read_pure_def)
qed

section \<open>Properties\<close>

text \<open>
  C29. An error of the stream breaks the framing for good: if it strikes in the middle of a frame and
  the program writes on, the next frame follows what was sent of the broken one. The receiver takes
  the missing bytes from it, decrypts the mixture of the two as a message, and goes on in the
  middle of the second frame.
\<close>

theorem tcp_error_misframes:
  assumes "tcp_write_contract ops sent" and "tcp_ok i"
    and "current_write i = Some d" and "view (out_queue i) = []" and "sent (stream i) = before @ a"
    and "serialize_with_len hc mc rng1 m1 (enc_ctx i) = Inr (a @ d)"
    and "ts_write ops (stream i) d = (Inl e, s)" and "\<not> is_would_block e"
    and "TcpInner_write ops hc mc rng t1 t1' None i = Some (Done (res, i'))"
    and "same_sending sent i' j"
    and "TcpInner_write ops hc mc rng2 t2 t2' (Some (m2, p)) j = Some (Done (Inr True, k))"
    and "serialize_with_len hc mc rng2 m2 (enc_ctx i) = Inr f2"
    and "linked keypair hc mc (enc_ctx i) (dec_ctx rd)" and "body_fits (max_payload_size rd) (enc_ctx i) (a @ d)"
    and "dec_size_len (dec_ctx rd) \<le> length a" and "length d \<le> length f2"
    and "read_len rd = 0" and "before @ read_buffer rd = sent (stream k)"
  defines "body \<equiv> drop (dec_size_len (dec_ctx rd)) a @ take (length d) f2"
  defines "rest \<equiv> drop (length d) f2"
  shows "res = Inl (Io e) \<and> sent (stream k) = before @ a @ f2 \<and>
    try_read hc mc rd =
      Done (case decrypt mc (dec_ctx rd) body of
         Inl err \<Rightarrow> (Inl err, rd\<lparr> read_len := length body, read_buffer := body @ rest \<rparr>)
       | Inr m' \<Rightarrow> (Inr (Some m'), rd\<lparr> read_buffer := rest \<rparr>))"
proof -
  have i': "res = Inl (Io e)"
    "i' = i\<lparr> stream := s, current_write := None, out_queue := snd (drop_expired t1 (out_queue i)) \<rparr>"
    using assms(9) by (simp_all add: write_none_fails [OF assms(3,7,8)])
  have s: "sent s = sent (stream i)" using assms(1,7) by (auto simp: tcp_write_contract_def)
  have q: "oq_ok (out_queue i)" using assms(2) by (simp add: tcp_ok_def)
  have j: "tcp_ok j" "tcp_pending j = []" "enc_ctx j = enc_ctx i" "sent (stream j) = before @ a"
    using assms(4,5,10) s drop_expired_steps [OF q, of t1] i'(2)
    by (auto simp: same_sending_def tcp_ok_def tcp_pending_def pending_of_def spec_drop_def)
  have wire: "sent (stream k) = before @ a @ f2"
    using write_to_idle [OF assms(11,1) j(1,2)] assms(12) j(3,4) by simp
  with assms(18) have "read_buffer rd = a @ f2" by simp
  from misframed_read [OF assms(13,6,14,15,17) this assms(16), folded body_def rest_def] i'(1) wire
  show ?thesis by (simp only: try_read_in_range simp_thms)
qed

text \<open>A stream that times out when it has no room, and one whose reads may be interrupted.\<close>

definition timing_out_ops :: "pipe tcp_ops" where
  "timing_out_ops = pipe_ops\<lparr> ts_write := (\<lambda>s d.
     case s of (cs, out, room) \<Rightarrow> if room = 0 then (Inl (IoError TimedOut []), s) else pipe_write s d) \<rparr>"

definition interrupting_ops :: "pipe tcp_ops" where
  "interrupting_ops = pipe_ops\<lparr> ts_read := (\<lambda>s n.
     case s of ([] # cs, w) \<Rightarrow> (Inl (IoError Interrupted []), cs, w) | _ \<Rightarrow> pipe_read s n) \<rparr>"

lemmas faulty_evals = flush_evals timing_out_ops_def interrupting_ops_def pipe_read_def

definition broken_sender :: "pipe \<Rightarrow> byte list option \<Rightarrow> (pipe, nat) TcpInner" where
  "broken_sender s rest = (TcpInner_new s)\<lparr> current_write := rest \<rparr>"

theorem tcp_error_misframes_witness:
  "try_read le32_codec bytes_codec (put_buf [2, 0, 0, 0, 7, 1, 0, 0, 0, 9] (LenDelimitedReader_new 10)) =
     Done (Inr (Some [7, 1]), put_buf [0, 0, 0, 9] (LenDelimitedReader_new 10))"
proof -
  let ?i = "broken_sender ([], [2, 0, 0, 0, 7], 0) (Some [8])"
  let ?j = "broken_sender ([], [2, 0, 0, 0, 7], 5) None"
  let ?k = "broken_sender ([], [2, 0, 0, 0, 7, 1, 0, 0, 0, 9], 0) None"
  let ?rd = "put_buf [2, 0, 0, 0, 7, 1, 0, 0, 0, 9] (LenDelimitedReader_new 10) :: nat LenDelimitedReader"
  have contract: "tcp_write_contract timing_out_ops pipe_sent"
    using pipe_write_contract
    by (auto simp: tcp_write_contract_def timing_out_ops_def pipe_ops_def split: prod.splits if_splits)
  have ok: "tcp_ok ?i" by (simp add: broken_sender_def tcp_ok_def TcpInner_new_def TcpInner_new_with_conf_def oq_ok_new Let_def)
  have fails: "TcpInner_write timing_out_ops le32_codec bytes_codec 0 (\<lambda>_. 0) 0 None ?i =
      Some (Done (Inl (Io (IoError TimedOut [])), broken_sender ([], [2, 0, 0, 0, 7], 0) None))"
    by (simp add: faulty_evals broken_sender_def queue_simps)
  have goes_on: "TcpInner_write timing_out_ops le32_codec bytes_codec 0 (\<lambda>_. 0) 0 (Some ([9], 0)) ?j = Some (Done (Inr True, ?k))"
    by (simp add: faulty_evals broken_sender_def queue_simps enqueue_data_def sample_serialize sample_frame_def
        le32_encode_def)
  have simps: "current_write ?i = Some [8]" "view (out_queue ?i) = []" "enc_ctx ?i = EncryptContext.Null"
    "stream ?i = ([], [2, 0, 0, 0, 7], 0)" "pipe_sent ([], out, n) = out" "dec_ctx ?rd = DecryptContext.Null"
    "max_payload_size ?rd = 10" "stream ?k = ([], [2, 0, 0, 0, 7, 1, 0, 0, 0, 9], 0)" for out n
    by (simp_all add: broken_sender_def tcp_new_defs view_new config_defaults pipe_sent_def put_buf_def
        LenDelimitedReader_new_def Let_def)
  have same: "same_sending pipe_sent (broken_sender ([], [2, 0, 0, 0, 7], 0) None) ?j"
    by (simp add: same_sending_def broken_sender_def pipe_sent_def tcp_new_defs Let_def)
  have ser: "serialize_with_len le32_codec bytes_codec 0 [7, 8] (enc_ctx ?i) = Inr ([2, 0, 0, 0, 7] @ [8])"
    "serialize_with_len le32_codec bytes_codec 0 [9] (enc_ctx ?i) = Inr [1, 0, 0, 0, 9]"
    by (simp_all add: simps sample_serialize sample_frame_def le32_encode_def)
  have dead: "ts_write timing_out_ops (stream ?i) [8] = (Inl (IoError TimedOut []), stream ?i)"
    by (simp add: simps timing_out_ops_def)
  have fits: "body_fits (max_payload_size ?rd) (enc_ctx ?i) ([2, 0, 0, 0, 7] @ [8])"
    by (simp add: simps body_fits_def size_len_defs)
  have link: "linked (=) le32_codec bytes_codec (enc_ctx ?i) (dec_ctx ?rd)"
    by (simp add: simps sample_linked)
  have dec: "decrypt bytes_codec DecryptContext.Null bs = Inr bs" for bs
    by (simp add: decrypt_def bytes_codec_def)
  from tcp_error_misframes [OF contract ok simps(1,2) _ ser(1) dead _ fails same goes_on ser(2) link fits, of "[]"]
  show ?thesis
    by (simp add: simps dec size_len_defs is_would_block_def put_buf_def LenDelimitedReader_new_def config_defaults)
qed

text \<open>
  C22. An interrupted call is taken for one that would block: \<open>read\<close> answers \<open>None\<close>, which it
  documents as not enough data, although a whole message is waiting; the very next call would
  return it. A program that waits for the next event of an edge-triggered registration, as \<open>read\<close>
  tells it to, waits until the peer sends something else.
\<close>

theorem interrupted_read_stalls:
  assumes "linked keypair hc mc e (dec_ctx (msg_reader i))"
    and "frames_of hc mc e (max_payload_size (msg_reader i)) [m] [f]"
    and "read_len (msg_reader i) = 0" and "read_buffer (msg_reader i) = []"
    and "ts_read ops (stream i) BUF_LEN = (Inl err, s)" and "kind err = Interrupted"
    and "tcp_yields ops s pieces (Inl err') s'" and "is_would_block err'" and "concat pieces = f"
  shows "\<exists>i' j. TcpInner_read ops hc mc i = Some (Done (Inr None, i')) \<and>
    TcpInner_read ops hc mc i' = Some (Done (Inr (Some m), j))"
proof -
  have "TcpInner_read_pure ops hc mc i = Some (Inr None, i\<lparr> stream := s \<rparr>)"
    using read_idle [OF assms(3,4), of hc mc] assms(5,6)
    by (simp add: TcpInner_read_pure_def rust_loop_Inr read_turn_pure_def is_would_block_def)
  moreover have "\<exists>j. TcpInner_read_pure ops hc mc (i\<lparr> stream := s \<rparr>) = Some (Inr (Some m), j)"
    using assms by (intro read_frame) simp_all
  ultimately show ?thesis unfolding TcpInner_read_Some by blast
qed

theorem interrupted_read_stalls_witness:
  "\<exists>i' j. TcpInner_read interrupting_ops le32_codec bytes_codec (TcpInner_new ([[], [1, 0, 0, 0, 7]], [], 0)) =
      Some (Done (Inr None, i')) \<and>
    TcpInner_read interrupting_ops le32_codec bytes_codec i' = Some (Done (Inr (Some [7]), j))"
proof -
  let ?i = "TcpInner_new ([[], [1, 0, 0, 0, 7]], [], 0) :: (pipe, nat) TcpInner"
  have "linked (=) le32_codec bytes_codec EncryptContext.Null (dec_ctx (msg_reader ?i))"
    "frames_of le32_codec bytes_codec EncryptContext.Null (max_payload_size (msg_reader ?i)) [[7]] [sample_frame [7]]"
    "read_len (msg_reader ?i) = 0" "read_buffer (msg_reader ?i) = []"
    by (simp_all add: tcp_new_defs config_defaults sample_linked sample_serialize sample_body_fits
        LenDelimitedReader_new_def Let_def)
  note frame = this
  have "ts_read interrupting_ops (stream ?i) BUF_LEN =
      (Inl (IoError Interrupted []), ([[1, 0, 0, 0, 7]], [], 0))"
    by (simp add: faulty_evals Let_def)
  note frame = frame this
  have "tcp_yields interrupting_ops ([[1, 0, 0, 0, 7]], [], 0) [[1, 0, 0, 0, 7]]
      (Inl (IoError WouldBlock [])) ([], [], 0)"
    by (rule tcp_yields.piece [where ?s1.0 = "([], [], 0)"] tcp_yields.err | simp add: faulty_evals)+
  from interrupted_read_stalls [OF frame _ this] show ?thesis
    by (simp add: is_would_block_def sample_frame_def le32_encode_def)
qed

end
