(* ===== verification/Udt_Loop.thy ===== *)
theory Udt_Loop
  imports Mio
begin

text \<open>
  \<open>src/src/udt/udt_event_loop.rs\<close>: the event loop of the UDT sockets, which the crate no longer
  compiles but still carries. Handles queue registrations in a set shared with the loop's thread;
  the loop waits on the epoll, notifies, and then applies what was queued. The \<open>udt\<close> crate is a
  parameter: sockets are values of the type \<open>'u\<close>, the epoll is a state with a record of calls.
\<close>

section \<open>The \<open>udt\<close> crate\<close>

text \<open>An error of the UDT library: its code and what \<open>From\<close> turns it into.\<close>

record udt_failure =
  err_code :: int
  failure :: UdtError

datatype epoll_flag = UDT_EPOLL_IN | UDT_EPOLL_OUT | UDT_EPOLL_ERR

type_synonym EpollEvents = "epoll_flag set"

text \<open>\<open>ep_create\<close> makes an epoll in the state \<open>'w\<close> of the library.\<close>

record ('w, 'e, 'u) epoll_ops =
  ep_create :: "'w \<Rightarrow> udt_failure + 'e"
  ep_wait :: "'e \<Rightarrow> (udt_failure + ('u list \<times> 'u list)) \<times> 'e"
  ep_add :: "'e \<Rightarrow> 'u \<Rightarrow> EpollEvents option \<Rightarrow> (udt_failure + unit) \<times> 'e"
  ep_remove :: "'e \<Rightarrow> 'u \<Rightarrow> (udt_failure + unit) \<times> 'e"

section \<open>Handles\<close>

datatype 'u QueuedAction =
    Register (reg_sock: 'u) (reg_token: Token) (reg_events: EpollEvents)
  | Deregister (dereg_sock: 'u)
  | ShutdownEventLoop

text \<open>
  The \<open>Weak<Mutex<HashSet<QueuedAction>>>\<close> of \<open>EpollLoop\<close> and \<open>Handle\<close>: it upgrades as long as the
  thread of the loop, which owns the set, has not returned. A lock is held for one insertion.
\<close>

type_synonym 'u shared = "'u QueuedAction set option"

text \<open>The readiness a caller is interested in, as \<open>mio\<close> tells: \<open>is_readable\<close>, \<open>is_writable\<close>.\<close>

definition event_set_of :: "bool \<Rightarrow> bool \<Rightarrow> EpollEvents" where
  "event_set_of readable writable =
     (let event_set = {};
          event_set = (if readable then insert UDT_EPOLL_IN event_set else event_set);
          event_set = (if writable then insert UDT_EPOLL_OUT event_set else event_set)
      in insert UDT_EPOLL_ERR event_set)"

definition Handle_register ::
  "(Ready \<Rightarrow> bool) \<Rightarrow> (Ready \<Rightarrow> bool) \<Rightarrow> 'u \<Rightarrow> Token \<Rightarrow> Ready \<Rightarrow> 'u shared \<Rightarrow> unit res \<times> 'u shared" where
  "Handle_register is_readable is_writable s token interest sh =
     (case sh of
        Some queued_actions \<Rightarrow>
          (Inr (), Some (insert
             (Register s token (event_set_of (is_readable interest) (is_writable interest))) queued_actions))
      | None \<Rightarrow> (Inl NoUdtEpoll, None))"

definition Handle_deregister :: "'u \<Rightarrow> 'u shared \<Rightarrow> unit res \<times> 'u shared" where
  "Handle_deregister s sh =
     (case sh of
        Some queued_actions \<Rightarrow> (Inr (), Some (insert (Deregister s) queued_actions))
      | None \<Rightarrow> (Inl NoUdtEpoll, None))"

definition EpollLoop_drop :: "'u shared \<Rightarrow> 'u shared" where
  "EpollLoop_drop sh = map_option (insert ShutdownEventLoop) sh"

section \<open>The loop\<close>

datatype readiness = Readable | Writable

text \<open>\<open>notified\<close> lists the events handed to the \<open>Notifier\<close> so far.\<close>

record ('e, 'u) event_loop =
  epoll :: 'e
  token_map :: "'u \<Rightarrow> Token option"
  notified :: "(readiness \<times> Token) list"

definition start_event_loop ::
  "('w, 'e, 'u) epoll_ops \<Rightarrow> 'w \<Rightarrow> (('e, 'u) event_loop \<times> 'u shared) res" where
  "start_event_loop ops w =
     try_op (Udt \<circ> failure) (ep_create ops w)
       (\<lambda>e. Inr (\<lparr> epoll = e, token_map = (\<lambda>_. None), notified = [] \<rparr>, Some {}))"

text \<open>The sockets that are ready, those without a token being skipped.\<close>

definition events_for :: "readiness \<Rightarrow> ('u \<Rightarrow> Token option) \<Rightarrow> 'u list \<Rightarrow> (readiness \<times> Token) list" where
  "events_for r tm socks = List.map_filter (\<lambda>s. map_option (Pair r) (tm s)) socks"

definition wait_and_notify :: "('w, 'e, 'u) epoll_ops \<Rightarrow> ('e, 'u) event_loop \<Rightarrow> ('e, 'u) event_loop" where
  "wait_and_notify ops l =
     (case ep_wait ops (epoll l) of
        (Inr (read_ready, write_ready), e) \<Rightarrow>
          l\<lparr> epoll := e, notified := notified l @ events_for Readable (token_map l) read_ready
              @ events_for Writable (token_map l) write_ready \<rparr>
      | (Inl _, e) \<Rightarrow> l\<lparr> epoll := e \<rparr>)"

text \<open>One action; \<open>None\<close> is the \<open>return\<close> of the loop. Errors of the epoll are only logged.\<close>

definition apply_action ::
  "('w, 'e, 'u) epoll_ops \<Rightarrow> 'u QueuedAction \<Rightarrow> ('e, 'u) event_loop \<Rightarrow> ('e, 'u) event_loop option" where
  "apply_action ops action l =
     (case action of
        Register s token event_set \<Rightarrow>
          (let e = snd (ep_remove ops (epoll l) s);
               e = snd (ep_add ops e s (Some event_set))
           in Some (l\<lparr> epoll := e, token_map := (token_map l)(s := Some token) \<rparr>))
      | Deregister s \<Rightarrow>
          Some (l\<lparr> epoll := snd (ep_remove ops (epoll l) s), token_map := (token_map l)(s := None) \<rparr>)
      | ShutdownEventLoop \<Rightarrow> None)"

text \<open>The flag says whether the loop goes on.\<close>

fun apply_actions ::
  "('w, 'e, 'u) epoll_ops \<Rightarrow> 'u QueuedAction list \<Rightarrow> ('e, 'u) event_loop \<Rightarrow> ('e, 'u) event_loop \<times> bool" where
  "apply_actions ops [] l = (l, True)"
| "apply_actions ops (action # actions) l =
     (case apply_action ops action l of
        None \<Rightarrow> (l, False)
      | Some l' \<Rightarrow> apply_actions ops actions l')"

text \<open>
  One turn of the loop, \<open>actions\<close> being the drained set in the order in which the \<open>HashSet\<close>
  iterates, which its hasher chooses at random.
\<close>

definition event_loop_turn ::
  "('w, 'e, 'u) epoll_ops \<Rightarrow> 'u QueuedAction list \<Rightarrow> ('e, 'u) event_loop \<Rightarrow> ('e, 'u) event_loop \<times> bool" where
  "event_loop_turn ops actions l = apply_actions ops actions (wait_and_notify ops l)"

text \<open>
  The loop and its handles: handles may queue actions at any time, a turn drains the set in any
  order. A state also carries every action that was ever queued.
\<close>

inductive udt_reachable ::
  "('w, 'e, 'u) epoll_ops \<Rightarrow> 'w \<Rightarrow> 'u QueuedAction set \<Rightarrow> ('e, 'u) event_loop \<Rightarrow> 'u shared \<Rightarrow> bool"
  for ops w where
  started: "start_event_loop ops w = Inr (l, sh) \<Longrightarrow> udt_reachable ops w {} l sh"
| registered: "udt_reachable ops w past l sh \<Longrightarrow>
    Handle_register is_readable is_writable s token interest sh = (Inr (), sh') \<Longrightarrow>
    udt_reachable ops w
      (insert (Register s token (event_set_of (is_readable interest) (is_writable interest))) past) l sh'"
| deregistered: "udt_reachable ops w past l sh \<Longrightarrow> Handle_deregister s sh = (Inr (), sh') \<Longrightarrow>
    udt_reachable ops w (insert (Deregister s) past) l sh'"
| dropped: "udt_reachable ops w past l sh \<Longrightarrow>
    udt_reachable ops w (insert ShutdownEventLoop past) l (EpollLoop_drop sh)"
| turned: "udt_reachable ops w past l (Some q) \<Longrightarrow> distinct actions \<Longrightarrow> set actions = q \<Longrightarrow>
    event_loop_turn ops actions l = (l', go_on) \<Longrightarrow>
    udt_reachable ops w past l' (if go_on then Some {} else None)"

section \<open>What a turn does to the registrations\<close>

fun concerns :: "'u \<Rightarrow> 'u QueuedAction \<Rightarrow> bool" where
  "concerns s (Register s' _ _) \<longleftrightarrow> s' = s"
| "concerns s (Deregister s') \<longleftrightarrow> s' = s"
| "concerns s ShutdownEventLoop \<longleftrightarrow> False"

fun token_after :: "'u QueuedAction \<Rightarrow> Token option" where
  "token_after (Register _ token _) = Some token"
| "token_after _ = None"

lemma wait_and_notify_token_map [simp]: "token_map (wait_and_notify ops l) = token_map l"
  by (simp add: wait_and_notify_def split: prod.split sum.split)

lemma apply_action_token_map:
  "apply_action ops a l = Some l' \<Longrightarrow>
     token_map l' s = (if concerns s a then token_after a else token_map l s)"
  by (cases a) (auto simp: apply_action_def Let_def)

lemma apply_action_None: "apply_action ops a l = None \<longleftrightarrow> a = ShutdownEventLoop"
  by (cases a) (simp_all add: apply_action_def)

lemma apply_action_notified: "apply_action ops a l = Some l' \<Longrightarrow> notified l' = notified l"
  by (cases a) (auto simp: apply_action_def Let_def)

text \<open>The last action on a socket decides.\<close>

lemma apply_actions_token_map:
  assumes "ShutdownEventLoop \<notin> set actions"
  shows "token_map (fst (apply_actions ops actions l)) s =
    (if filter (concerns s) actions = [] then token_map l s
     else token_after (last (filter (concerns s) actions)))"
  using assms
proof (induction actions arbitrary: l)
  case (Cons a actions)
  then obtain l' where l': "apply_action ops a l = Some l'"
    using apply_action_None [of ops a l] by fastforce
  with Cons.IH [of l'] Cons.prems apply_action_token_map [OF l', of s] show ?case by simp
qed simp

text \<open>Any token in use was registered.\<close>

lemma apply_actions_registered:
  assumes "apply_actions ops actions l = (l', go_on)"
    and "\<forall>s t. token_map l s = Some t \<longrightarrow> (\<exists>e. Register s t e \<in> past)" and "set actions \<subseteq> past"
  shows "notified l' = notified l \<and> (\<forall>s t. token_map l' s = Some t \<longrightarrow> (\<exists>e. Register s t e \<in> past))"
  using assms
proof (induction actions arbitrary: l)
  case (Cons a actions)
  show ?case
  proof (cases "apply_action ops a l")
    case None
    with Cons.prems show ?thesis by simp
  next
    case (Some l1)
    have "\<exists>e. Register s t e \<in> past" if "token_map l1 s = Some t" for s t
      using that Cons.prems(2,3) apply_action_token_map [OF Some, of s]
      by (cases a) (auto split: if_splits)
    with Cons.IH [of l1] Cons.prems Some apply_action_notified [OF Some] show ?thesis by simp
  qed
qed simp

lemma wait_and_notify_tokens:
  assumes "(r, t) \<in> set (notified (wait_and_notify ops l))"
  shows "(r, t) \<in> set (notified l) \<or> (\<exists>s. token_map l s = Some t)"
  using assms
  by (auto simp: wait_and_notify_def events_for_def map_filter_def split: prod.splits sum.splits)

lemma udt_reachable_tokens:
  assumes "udt_reachable ops w past l sh"
  shows "(\<forall>r t. (r, t) \<in> set (notified l) \<longrightarrow> (\<exists>s e. Register s t e \<in> past)) \<and>
    (\<forall>s t. token_map l s = Some t \<longrightarrow> (\<exists>e. Register s t e \<in> past)) \<and>
    (case sh of None \<Rightarrow> True | Some q \<Rightarrow> q \<subseteq> past)"
  using assms
proof induction
  case (started l sh)
  then show ?case
    by (auto simp: start_event_loop_def try_op_def split: sum.splits)
next
  case (turned past l q actions l' go_on)
  have "notified l' = notified (wait_and_notify ops l) \<and>
      (\<forall>s t. token_map l' s = Some t \<longrightarrow> (\<exists>e. Register s t e \<in> past))"
    using turned by (intro apply_actions_registered [OF turned(4) [unfolded event_loop_turn_def]]) auto
  moreover have "\<exists>s e. Register s t e \<in> past" if "(r, t) \<in> set (notified (wait_and_notify ops l))" for r t
    using wait_and_notify_tokens [OF that] turned.IH by blast
  ultimately show ?case by auto
qed (fastforce simp: Handle_register_def Handle_deregister_def EpollLoop_drop_def split: option.splits)+

section \<open>The order of the actions\<close>

text \<open>What is drained behind a shutdown is never applied.\<close>

lemma apply_actions_until:
  "fst (apply_actions ops actions l) = fst (apply_actions ops (takeWhile (\<lambda>a. a \<noteq> ShutdownEventLoop) actions) l)"
proof (induction actions arbitrary: l)
  case (Cons a actions)
  then show ?case
    using apply_action_None [of ops a l] by (cases "apply_action ops a l") auto
qed simp

definition applied_to :: "'u \<Rightarrow> 'u QueuedAction list \<Rightarrow> 'u QueuedAction list" where
  "applied_to s actions = filter (concerns s) (takeWhile (\<lambda>a. a \<noteq> ShutdownEventLoop) actions)"

lemma turn_token:
  "token_map (fst (event_loop_turn ops as l)) s =
    (if applied_to s as = [] then token_map l s else token_after (last (applied_to s as)))"
proof -
  have "ShutdownEventLoop \<notin> set (takeWhile (\<lambda>a. a \<noteq> ShutdownEventLoop) as)"
    by (auto dest: set_takeWhileD)
  from apply_actions_token_map [OF this, of ops "wait_and_notify ops l" s] show ?thesis
    by (simp add: applied_to_def event_loop_turn_def apply_actions_until [of ops as])
qed

lemma applied_to_all: "ShutdownEventLoop \<notin> set as \<Longrightarrow> applied_to s as = filter (concerns s) as"
  by (subst applied_to_def, subst takeWhile_eq_all_conv [THEN iffD2]) auto

lemma applied_to_subset: "a \<in> set (applied_to s as) \<Longrightarrow> a \<in> set as \<and> concerns s a"
  by (auto simp: applied_to_def dest: set_takeWhileD)

text \<open>Every action on a socket may be the one that decides, or none if the loop is shut down.\<close>

lemma some_order: "finite q \<Longrightarrow> \<exists>as. distinct as \<and> set as = q - S"
  using finite_distinct_list [of "q - S"] by auto

lemma turn_token_of_any:
  assumes "finite q" and x: "x \<in> q" "concerns s x"
  shows "\<exists>as. distinct as \<and> set as = q \<and> token_map (fst (event_loop_turn ops as l)) s = token_after x"
proof (cases "ShutdownEventLoop \<in> q")
  case True
  from some_order [OF assms(1)] obtain as where "distinct as" "set as = q - {x, ShutdownEventLoop}" by blast
  moreover from x(2) have "x \<noteq> ShutdownEventLoop" by auto
  ultimately have "distinct (x # ShutdownEventLoop # as) \<and> set (x # ShutdownEventLoop # as) = q \<and>
      token_map (fst (event_loop_turn ops (x # ShutdownEventLoop # as) l)) s = token_after x"
    using x True by (auto simp: turn_token applied_to_def)
  then show ?thesis by blast
next
  case False
  from some_order [OF assms(1)] obtain as where as: "distinct as" "set as = q - {x}" by blast
  with x False have "applied_to s (as @ [x]) = filter (concerns s) as @ [x]"
    by (subst applied_to_all) auto
  with as x have "distinct (as @ [x]) \<and> set (as @ [x]) = q \<and>
      token_map (fst (event_loop_turn ops (as @ [x]) l)) s = token_after x"
    by (auto simp: turn_token)
  then show ?thesis by blast
qed

lemma turn_token_of_shutdown:
  assumes "finite q" and "ShutdownEventLoop \<in> q"
  shows "\<exists>as. distinct as \<and> set as = q \<and> token_map (fst (event_loop_turn ops as l)) s = token_map l s"
proof -
  from some_order [OF assms(1)] obtain as where "distinct as" "set as = q - {ShutdownEventLoop}" by blast
  with assms(2) have "distinct (ShutdownEventLoop # as) \<and> set (ShutdownEventLoop # as) = q \<and>
      token_map (fst (event_loop_turn ops (ShutdownEventLoop # as) l)) s = token_map l s"
    by (auto simp: turn_token applied_to_def)
  then show ?thesis by blast
qed

lemma turn_token_value:
  assumes "set as = q"
  shows "(\<exists>a\<in>q. concerns s a \<and> token_map (fst (event_loop_turn ops as l)) s = token_after a) \<or>
    token_map (fst (event_loop_turn ops as l)) s = token_map l s \<and>
      (ShutdownEventLoop \<in> q \<or> (\<forall>a\<in>q. \<not> concerns s a))"
proof (cases "applied_to s as = []")
  case True
  with assms show ?thesis
    by (cases "ShutdownEventLoop \<in> q") (auto simp: turn_token applied_to_all filter_empty_conv)
next
  case False
  with applied_to_subset [OF last_in_set [OF False]] assms show ?thesis by (auto simp: turn_token)
qed

section \<open>Properties\<close>

text \<open>
  C35. Only registered tokens are notified: in every reachable state of the event loop and its
  handles, whatever the epoll reports and in whatever order queued actions are applied, each event
  given to the notifier carries a token that some handle registered.
\<close>

theorem udt_notifies_registered_only:
  assumes "udt_reachable ops w past l sh" and "(r, t) \<in> set (notified l)"
  shows "\<exists>s e. Register s t e \<in> past"
  using udt_reachable_tokens [OF assms(1)] assms(2) by blast

text \<open>An epoll that reports socket 1 as readable every time, for evaluations.\<close>

definition sample_epoll :: "(unit, unit, nat) epoll_ops" where
  "sample_epoll = \<lparr> ep_create = (\<lambda>_. Inr ()), ep_wait = (\<lambda>_. (Inr ([1], []), ())),
     ep_add = (\<lambda>_ _ _. (Inr (), ())), ep_remove = (\<lambda>_ _. (Inr (), ())) \<rparr>"

definition sample_loop :: "(unit, nat) event_loop" where
  "sample_loop = \<lparr> epoll = (), token_map = (\<lambda>_. None), notified = [] \<rparr>"

definition sample_registration :: "nat QueuedAction" where
  "sample_registration = Register 1 7 {UDT_EPOLL_IN, UDT_EPOLL_ERR}"

lemma sample_reachable:
  "udt_reachable sample_epoll () {sample_registration}
     (sample_loop\<lparr> token_map := (\<lambda>_. None)(1 := Some 7), notified := [(Readable, 7)] \<rparr>) (Some {})"
proof -
  have "udt_reachable sample_epoll () {} sample_loop (Some {})"
    by (rule udt_reachable.started)
      (simp add: start_event_loop_def sample_epoll_def sample_loop_def)
  from udt_reachable.registered [OF this, where is_readable = "\<lambda>_. True" and is_writable = "\<lambda>_. False"
      and s = 1 and token = 7 and interest = 0 and sh' = "Some {sample_registration}"]
  have "udt_reachable sample_epoll () {sample_registration} sample_loop (Some {sample_registration})"
    by (simp add: Handle_register_def event_set_of_def sample_registration_def insert_commute)
  from udt_reachable.turned [OF this, where actions = "[sample_registration]"
      and l' = "sample_loop\<lparr> token_map := (\<lambda>_. None)(1 := Some 7) \<rparr>" and go_on = True]
  have "udt_reachable sample_epoll () {sample_registration}
      (sample_loop\<lparr> token_map := (\<lambda>_. None)(1 := Some 7) \<rparr>) (Some {})"
    by (simp add: event_loop_turn_def wait_and_notify_def events_for_def map_filter_def
        apply_action_def sample_epoll_def sample_loop_def sample_registration_def)
  from udt_reachable.turned [OF this, where actions = "[]" and go_on = True
      and l' = "sample_loop\<lparr> token_map := (\<lambda>_. None)(1 := Some 7), notified := [(Readable, 7)] \<rparr>"]
  show ?thesis
    by (simp add: event_loop_turn_def wait_and_notify_def events_for_def map_filter_def
        sample_epoll_def sample_loop_def)
qed

theorem udt_notifies_registered_only_witness:
  "\<exists>s e. Register s 7 e \<in> {sample_registration}"
  by (rule udt_notifies_registered_only [OF sample_reachable, of Readable]) simp

text \<open>
  C38. Whether a socket is registered after a turn, and with which token, may depend on the iteration
  order of the \<open>HashSet\<close>. The order is irrelevant exactly when all actions queued for the socket leave
  the same token and, in case the set also holds \<open>ShutdownEventLoop\<close>, which may be drained before them
  and end the loop, that token is the one the socket had. Registering and deregistering a socket
  within one turn, in either order of calls, has no determined effect.
\<close>

theorem udt_turn_order_matters:
  assumes "finite q"
  shows "(\<forall>as bs. distinct as \<and> set as = q \<and> distinct bs \<and> set bs = q \<longrightarrow>
      token_map (fst (event_loop_turn ops as l)) s = token_map (fst (event_loop_turn ops bs l)) s) \<longleftrightarrow>
    (\<forall>a\<in>q. \<forall>b\<in>q. concerns s a \<and> concerns s b \<longrightarrow> token_after a = token_after b) \<and>
    (ShutdownEventLoop \<in> q \<longrightarrow> (\<forall>a\<in>q. concerns s a \<longrightarrow> token_after a = token_map l s))"
    (is "?same \<longleftrightarrow> ?agree")
proof
  assume same: ?same
  then show ?agree using turn_token_of_any [OF assms] turn_token_of_shutdown [OF assms] by metis
next
  assume ?agree
  then show ?same using turn_token_value by metis
qed

theorem udt_turn_order_matters_witness:
  "\<exists>as bs. distinct as \<and> set as = {sample_registration, Deregister 1} \<and>
     distinct bs \<and> set bs = {sample_registration, Deregister 1} \<and>
     token_map (fst (event_loop_turn sample_epoll as sample_loop)) 1 \<noteq>
       token_map (fst (event_loop_turn sample_epoll bs sample_loop)) 1"
  using udt_turn_order_matters [of "{sample_registration, Deregister 1}" sample_epoll sample_loop 1]
  by (auto simp: sample_registration_def)

end
