(* ===== verification/Udt_Sock.thy ===== *)
theory Udt_Sock
  imports Udt_Loop Udp_Sock
begin

text \<open>
  \<open>src/src/udt/udt_sock.rs\<close>: the UDT socket, which the crate no longer compiles but still carries.
  It predates \<open>OutQueue\<close> and \<open>LenDelimitedReader\<close> and has both inlined. The UDT library is a
  parameter: a socket is an identifier of the type \<open>'u\<close>, \<open>udt_lib\<close> is the state of the library as
  the socket sees it. The crate constants the file names (\<open>MAX_PAYLOAD_SIZE\<close> and so on) no longer
  exist: they are the record \<open>udt_limits\<close>. The \<open>Handle\<close> a socket keeps is a reference to the set it
  shares with the event loop, so the calls that use it take that set and return it.
\<close>

section \<open>The library and the limits\<close>

datatype udt_opt =
    UDP_SNDBUF i32 | UDP_RCVBUF i32 | UDT_RCVSYN bool | UDT_SNDSYN bool | UDT_RENDEZVOUS bool

text \<open>
  \<open>ut_recv\<close> answers the count and the contents of the buffer it was given.
\<close>

record ('s, 'u, 'f) udt_ops =
  ut_new :: "'s \<Rightarrow> (udt_failure + 'u) \<times> 's"
  ut_setsockopt :: "'s \<Rightarrow> 'u \<Rightarrow> udt_opt \<Rightarrow> (udt_failure + unit) \<times> 's"
  ut_bind_from :: "'s \<Rightarrow> 'u \<Rightarrow> 'f \<Rightarrow> (udt_failure + unit) \<times> 's"
  ut_connect :: "'s \<Rightarrow> 'u \<Rightarrow> SocketAddr \<Rightarrow> (udt_failure + unit) \<times> 's"
  ut_getpeername :: "'s \<Rightarrow> 'u \<Rightarrow> (udt_failure + SocketAddr) \<times> 's"
  ut_recv :: "'s \<Rightarrow> 'u \<Rightarrow> usize \<Rightarrow> (udt_failure + (i32 \<times> byte list)) \<times> 's"
  ut_send :: "'s \<Rightarrow> 'u \<Rightarrow> byte list \<Rightarrow> (udt_failure + i32) \<times> 's"
  ut_close :: "'s \<Rightarrow> 'u \<Rightarrow> (udt_failure + unit) \<times> 's"
  EASYNCRCV :: int
  EASYNCSND :: int

record udt_limits =
  MAX_MSG_AGE_SECS :: u64
  MAX_PAYLOAD_SIZE :: usize
  MSG_DROP_PRIORITY :: u8

definition UDP_SNDBUF_SIZE :: i32 where
  "UDP_SNDBUF_SIZE = 512 * 1024"

definition UDP_RCVBUF_SIZE :: i32 where
  "UDP_RCVBUF_SIZE = 512 * 1024"

section \<open>\<open>Inner\<close>\<close>

type_synonym write_queue = "(Priority, (instant \<times> byte list) list) btree"

record ('s, 'u) UdtInner =
  udt_lib :: 's
  udt_stream :: 'u
  udt_read_buffer :: "byte list"
  udt_read_len :: usize
  udt_write_queue :: write_queue
  udt_current_write :: "byte list option"

type_synonym ('s, 'u) UdtSock = "('s, 'u) UdtInner option"

subsection \<open>Reading\<close>

text \<open>The header part of \<open>read_from_buffer\<close>; \<open>Ok(false)\<close> is its \<open>return Ok(None)\<close>.\<close>

definition udt_read_header :: "udt_limits \<Rightarrow> ('s, 'u) UdtInner \<Rightarrow> (bool res \<times> ('s, 'u) UdtInner) outcome" where
  "udt_read_header lim i =
     (let u32_size = 4 in
      if udt_read_len i = 0 then
        (if length (udt_read_buffer i) < u32_size then Done (Inr False, i)
         else
           (case le32_decode (udt_read_buffer i) of
              None \<Rightarrow> Done (Inl (Io (IoError UnexpectedEof [])), i)
            | Some w \<Rightarrow>
                let i = i\<lparr> udt_read_len := unat w \<rparr> in
                if MAX_PAYLOAD_SIZE lim < udt_read_len i then Done (Inl PayloadSizeProhibitive, i)
                else
                  and_then (slice_from u32_size (udt_read_buffer i)) (\<lambda>left.
                    Done (Inr True, i\<lparr> udt_read_buffer := left \<rparr>))))
      else Done (Inr True, i))"

text \<open>
  \<open>deserialise_from\<close> reads a value from the front of what is buffered, not of the message alone.
\<close>

definition udt_read_from_buffer ::
  "udt_limits \<Rightarrow> (byte list \<Rightarrow> SerialisationError + 'm) \<Rightarrow> ('s, 'u) UdtInner \<Rightarrow>
     ('m option res \<times> ('s, 'u) UdtInner) outcome" where
  "udt_read_from_buffer lim deserialise_from i =
     and_then (udt_read_header lim i) (\<lambda>(header, i).
       (case header of
          Inl e \<Rightarrow> Done (Inl e, i)
        | Inr False \<Rightarrow> Done (Inr None, i)
        | Inr True \<Rightarrow>
            if length (udt_read_buffer i) < udt_read_len i then Done (Inr None, i)
            else
              (case deserialise_from (udt_read_buffer i) of
                 Inl e \<Rightarrow> Done (Inl (Serialisation e), i)
               | Inr result \<Rightarrow>
                   and_then (slice_from (udt_read_len i) (udt_read_buffer i)) (\<lambda>left.
                     Done (Inr (Some result), i\<lparr> udt_read_buffer := left, udt_read_len := 0 \<rparr>)))))"

text \<open>
  One turn of the \<open>loop\<close> in \<open>read\<close>; the flag is \<open>is_something_read\<close>. The slice of the buffer panics
  if the library answers a count that is larger than the buffer.
\<close>

definition udt_read_turn ::
  "('s, 'u, 'f) udt_ops \<Rightarrow> udt_limits \<Rightarrow> (byte list \<Rightarrow> SerialisationError + 'm) \<Rightarrow>
     bool \<times> ('s, 'u) UdtInner \<Rightarrow>
     (bool \<times> ('s, 'u) UdtInner) + ('m option res \<times> ('s, 'u) UdtInner) outcome" where
  "udt_read_turn ops lim de = (\<lambda>(is_something_read, i).
     (case ut_recv ops (udt_lib i) (udt_stream i) BUF_LEN of
        (Inr (bytes_rxd, buffer), s) \<Rightarrow>
          (let i = i\<lparr> udt_lib := s \<rparr> in
           if sint bytes_rxd < 0 then Inr (Done (Inl (UdtNegativeBytesRead bytes_rxd), i))
           else if bytes_rxd = 0 then
             (if is_something_read then
                Inr (case udt_read_from_buffer lim de i of
                   Done (Inr None, i) \<Rightarrow> Done (Inl ZeroByteRead, i)
                 | r \<Rightarrow> r)
              else Inr (Done (Inl ZeroByteRead, i)))
           else
             (case slice_to (unat bytes_rxd) buffer of
                Panicked \<Rightarrow> Inr Panicked
              | Done bytes \<Rightarrow> Inl (True, i\<lparr> udt_read_buffer := udt_read_buffer i @ bytes \<rparr>)))
      | (Inl error, s) \<Rightarrow>
          (let i = i\<lparr> udt_lib := s \<rparr> in
           if err_code error = EASYNCRCV ops then
             (if is_something_read then Inr (udt_read_from_buffer lim de i) else Inr (Done (Inr None, i)))
           else Inr (Done (Inl (Udt (failure error)), i)))))"

definition UdtInner_read ::
  "('s, 'u, 'f) udt_ops \<Rightarrow> udt_limits \<Rightarrow> (byte list \<Rightarrow> SerialisationError + 'm) \<Rightarrow> ('s, 'u) UdtInner \<Rightarrow>
     ('m option res \<times> ('s, 'u) UdtInner) outcome option" where
  "UdtInner_read ops lim de i =
     (case udt_read_from_buffer lim de i of
        Panicked \<Rightarrow> Some Panicked
      | Done (Inl e, i) \<Rightarrow> Some (Done (Inl e, i))
      | Done (Inr (Some message), i) \<Rightarrow> Some (Done (Inr (Some message), i))
      | Done (Inr None, i) \<Rightarrow> rust_loop (udt_read_turn ops lim de) (False, i))"

text \<open>
  The same without the slices' ranges: what reading does, as long as the counts of the library are
  within the buffer.
\<close>

definition udt_read_header_pure :: "udt_limits \<Rightarrow> ('s, 'u) UdtInner \<Rightarrow> bool res \<times> ('s, 'u) UdtInner" where
  "udt_read_header_pure lim i =
     (let u32_size = 4 in
      if udt_read_len i = 0 then
        (if length (udt_read_buffer i) < u32_size then (Inr False, i)
         else
           (case le32_decode (udt_read_buffer i) of
              None \<Rightarrow> (Inl (Io (IoError UnexpectedEof [])), i)
            | Some w \<Rightarrow>
                let i = i\<lparr> udt_read_len := unat w \<rparr> in
                if MAX_PAYLOAD_SIZE lim < udt_read_len i then (Inl PayloadSizeProhibitive, i)
                else (Inr True, i\<lparr> udt_read_buffer := drop u32_size (udt_read_buffer i) \<rparr>)))
      else (Inr True, i))"

definition udt_read_from_buffer_pure ::
  "udt_limits \<Rightarrow> (byte list \<Rightarrow> SerialisationError + 'm) \<Rightarrow> ('s, 'u) UdtInner \<Rightarrow>
     'm option res \<times> ('s, 'u) UdtInner" where
  "udt_read_from_buffer_pure lim deserialise_from i =
     (case udt_read_header_pure lim i of
        (Inl e, i) \<Rightarrow> (Inl e, i)
      | (Inr False, i) \<Rightarrow> (Inr None, i)
      | (Inr True, i) \<Rightarrow>
          if length (udt_read_buffer i) < udt_read_len i then (Inr None, i)
          else
            (case deserialise_from (udt_read_buffer i) of
               Inl e \<Rightarrow> (Inl (Serialisation e), i)
             | Inr result \<Rightarrow>
                 (Inr (Some result),
                  i\<lparr> udt_read_buffer := drop (udt_read_len i) (udt_read_buffer i), udt_read_len := 0 \<rparr>)))"

definition udt_read_turn_pure ::
  "('s, 'u, 'f) udt_ops \<Rightarrow> udt_limits \<Rightarrow> (byte list \<Rightarrow> SerialisationError + 'm) \<Rightarrow>
     bool \<times> ('s, 'u) UdtInner \<Rightarrow> (bool \<times> ('s, 'u) UdtInner) + ('m option res \<times> ('s, 'u) UdtInner)" where
  "udt_read_turn_pure ops lim de = (\<lambda>(is_something_read, i).
     (case ut_recv ops (udt_lib i) (udt_stream i) BUF_LEN of
        (Inr (bytes_rxd, buffer), s) \<Rightarrow>
          (let i = i\<lparr> udt_lib := s \<rparr> in
           if sint bytes_rxd < 0 then Inr (Inl (UdtNegativeBytesRead bytes_rxd), i)
           else if bytes_rxd = 0 then
             (if is_something_read then
                (case udt_read_from_buffer_pure lim de i of
                   (Inr None, i) \<Rightarrow> Inr (Inl ZeroByteRead, i)
                 | (r, i) \<Rightarrow> Inr (r, i))
              else Inr (Inl ZeroByteRead, i))
           else Inl (True, i\<lparr> udt_read_buffer := udt_read_buffer i @ take (unat bytes_rxd) buffer \<rparr>))
      | (Inl error, s) \<Rightarrow>
          (let i = i\<lparr> udt_lib := s \<rparr> in
           if err_code error = EASYNCRCV ops then
             (if is_something_read then Inr (udt_read_from_buffer_pure lim de i) else Inr (Inr None, i))
           else Inr (Inl (Udt (failure error)), i))))"

definition UdtInner_read_pure ::
  "('s, 'u, 'f) udt_ops \<Rightarrow> udt_limits \<Rightarrow> (byte list \<Rightarrow> SerialisationError + 'm) \<Rightarrow> ('s, 'u) UdtInner \<Rightarrow>
     ('m option res \<times> ('s, 'u) UdtInner) option" where
  "UdtInner_read_pure ops lim de i =
     (case udt_read_from_buffer_pure lim de i of
        (Inl e, i) \<Rightarrow> Some (Inl e, i)
      | (Inr (Some message), i) \<Rightarrow> Some (Inr (Some message), i)
      | (Inr None, i) \<Rightarrow> rust_loop (udt_read_turn_pure ops lim de) (False, i))"

lemma udt_read_header_in_range: "udt_read_header lim i = Done (udt_read_header_pure lim i)"
  by (auto simp: udt_read_header_def udt_read_header_pure_def Let_def split: option.split)

lemma udt_read_from_buffer_in_range [simp]:
  "udt_read_from_buffer lim de i = Done (udt_read_from_buffer_pure lim de i)"
  by (auto simp: udt_read_from_buffer_def udt_read_from_buffer_pure_def udt_read_header_in_range
      split: prod.split sum.split bool.split)

text \<open>What the library promises: the count it answers is of bytes it has put in the buffer.\<close>

definition udt_counts :: "('s, 'u, 'f) udt_ops \<Rightarrow> 'u \<Rightarrow> bool" where
  "udt_counts ops u \<longleftrightarrow>
     (\<forall>s n k buf s'. ut_recv ops s u n = (Inr (k, buf), s') \<longrightarrow> 0 < sint k \<longrightarrow> unat k \<le> length buf)"

lemma sint_pos: "\<not> sint n < 0 \<Longrightarrow> n \<noteq> 0 \<Longrightarrow> 0 < sint n" for n :: i32
proof -
  assume n: "\<not> sint n < 0" "n \<noteq> 0"
  have "sint n = 0 \<longleftrightarrow> n = 0" by (rule signed_eq_0_iff)
  with n show "0 < sint n" by simp
qed

lemma udt_read_turn_in_range:
  assumes "udt_counts ops (udt_stream i)"
  shows "udt_read_turn ops lim de (b, i) = map_sum id Done (udt_read_turn_pure ops lim de (b, i))"
proof -
  have "slice_to (unat k) buf = Done (take (unat k) buf)"
    if "ut_recv ops (udt_lib i) (udt_stream i) BUF_LEN = (Inr (k, buf), s)" "\<not> sint k < 0" "k \<noteq> 0" for k buf s
  proof (rule slice_in_range(1))
    show "unat k \<le> length buf"
      using assms that(1) sint_pos [OF that(2,3)] unfolding udt_counts_def by blast
  qed
  then show ?thesis
    by (auto simp: udt_read_turn_def udt_read_turn_pure_def Let_def split: prod.split sum.split option.split)
qed

lemma udt_read_stream:
  "udt_read_from_buffer_pure lim de i = (r, i') \<Longrightarrow> udt_stream i' = udt_stream i"
  "udt_read_turn_pure ops lim de (b, i) = Inl (b', i') \<Longrightarrow> udt_stream i' = udt_stream i"
  by (auto simp: udt_read_from_buffer_pure_def udt_read_header_pure_def udt_read_turn_pure_def Let_def
      split: prod.splits sum.splits option.splits bool.splits if_splits)

lemma UdtInner_read_in_range:
  assumes "udt_counts ops (udt_stream i)"
  shows "UdtInner_read ops lim de i = map_option Done (UdtInner_read_pure ops lim de i)"
proof -
  obtain r k where look: "udt_read_from_buffer_pure lim de i = (r, k)"
    by (cases "udt_read_from_buffer_pure lim de i")
  have "rust_loop (udt_read_turn ops lim de) (False, k) = map_option Done (rust_loop (udt_read_turn_pure ops lim de) (False, k))"
  proof (rule rust_loop_lift [where P = "\<lambda>s. udt_counts ops (udt_stream (snd s))"])
    show "udt_counts ops (udt_stream (snd (False, k)))"
      using assms udt_read_stream(1) [OF look] by simp
    show "udt_counts ops (udt_stream (snd s'))"
      if "udt_counts ops (udt_stream (snd s))" "udt_read_turn_pure ops lim de s = Inl s'" for s s'
      using that udt_read_stream(2) [of ops lim de "fst s" "snd s" "fst s'" "snd s'"] by simp
    show "udt_read_turn ops lim de s = map_sum id Done (udt_read_turn_pure ops lim de s)"
      if "udt_counts ops (udt_stream (snd s))" for s
      using udt_read_turn_in_range [OF that, of lim de "fst s"] by simp
  qed
  with look show ?thesis
    by (simp add: UdtInner_read_def UdtInner_read_pure_def split: sum.split option.split)
qed

subsection \<open>Writing\<close>

definition udt_expired_keys :: "udt_limits \<Rightarrow> readings \<Rightarrow> write_queue \<Rightarrow> u8 list" where
  "udt_expired_keys lim now q =
     map fst (dropWhile (\<lambda>(priority, queue).
         priority < MSG_DROP_PRIORITY lim \<or>
         (case queue of
            [] \<Rightarrow> True
          | (timestamp, _) # _ \<Rightarrow> elapsed_secs (now priority) timestamp \<le> unat (MAX_MSG_AGE_SECS lim))) q)"

definition udt_drop_expired :: "udt_limits \<Rightarrow> readings \<Rightarrow> write_queue \<Rightarrow> nat \<times> write_queue" where
  "udt_drop_expired lim now q =
     (case remove_each (udt_expired_keys lim now q) q of
        (removed, q') \<Rightarrow> (sum_list (map length removed), q'))"

text \<open>A placeholder length is written first and overwritten once the message is behind it.\<close>

definition udt_frame :: "('m \<Rightarrow> SerialisationError + byte list) \<Rightarrow> 'm \<Rightarrow> byte list res" where
  "udt_frame serialise_into msg =
     try_op Serialisation (serialise_into msg) (\<lambda>body.
       let data = le32_encode 0 @ body;
           len = length data - 4
       in Inr (le32_encode (of_nat len) @ drop 4 data))"

definition udt_push :: "instant \<Rightarrow> byte list \<Rightarrow> Priority \<Rightarrow> write_queue \<Rightarrow> write_queue" where
  "udt_push now data priority q =
     (let entry = (case btree_get q priority of None \<Rightarrow> [] | Some queue \<Rightarrow> queue)
      in btree_insert priority (entry @ [(now, data)]) q)"

definition udt_next :: "write_queue \<Rightarrow> (byte list option \<times> write_queue) outcome" where
  "udt_next q =
     (case q of
        [] \<Rightarrow> Done (None, q)
      | (key, []) # _ \<Rightarrow> Panicked
      | (key, (_, data) # queue) # _ \<Rightarrow>
          (let q' = btree_insert key queue q
           in Done (Some data, if queue = [] then btree_remove key q' else q')))"

text \<open>One turn of the \<open>loop\<close> in \<open>write\<close>.\<close>

definition udt_send_turn ::
  "('s, 'u, 'f) udt_ops \<Rightarrow> ('s, 'u) UdtInner \<Rightarrow> ('s, 'u) UdtInner + (bool res \<times> ('s, 'u) UdtInner) outcome" where
  "udt_send_turn ops i =
     (case take_or_next udt_next (udt_current_write i) (udt_write_queue i) of
        Panicked \<Rightarrow> Inr Panicked
      | Done (None, q) \<Rightarrow> Inr (Done (Inr True, i\<lparr> udt_current_write := None, udt_write_queue := q \<rparr>))
      | Done (Some data, q) \<Rightarrow>
          (case ut_send ops (udt_lib i) (udt_stream i) data of
             (Inr bytes_txd, s) \<Rightarrow>
               (let i = i\<lparr> udt_lib := s, udt_current_write := None, udt_write_queue := q \<rparr> in
                if sint bytes_txd < 0 then Inr (Done (Inl (UdtNegativeBytesWrite bytes_txd), i))
                else if unat bytes_txd < length data then
                  (case slice_from (unat bytes_txd) data of
                     Panicked \<Rightarrow> Inr Panicked
                   | Done left \<Rightarrow> Inl (i\<lparr> udt_current_write := Some left \<rparr>))
                else Inl i)
           | (Inl error, s) \<Rightarrow>
               (let i = i\<lparr> udt_lib := s, udt_current_write := None, udt_write_queue := q \<rparr> in
                if err_code error = EASYNCSND ops
                then Inr (Done (Inr False, i\<lparr> udt_current_write := Some data \<rparr>))
                else Inr (Done (Inl (Udt (failure error)), i)))))"

text \<open>The guard keeps the slice in range.\<close>

lemma udt_send_turn_eq:
  "udt_send_turn ops i =
     (case take_or_next udt_next (udt_current_write i) (udt_write_queue i) of
        Panicked \<Rightarrow> Inr Panicked
      | Done (None, q) \<Rightarrow> Inr (Done (Inr True, i\<lparr> udt_current_write := None, udt_write_queue := q \<rparr>))
      | Done (Some data, q) \<Rightarrow>
          (case ut_send ops (udt_lib i) (udt_stream i) data of
             (Inr bytes_txd, s) \<Rightarrow>
               (let i = i\<lparr> udt_lib := s, udt_current_write := None, udt_write_queue := q \<rparr> in
                if sint bytes_txd < 0 then Inr (Done (Inl (UdtNegativeBytesWrite bytes_txd), i))
                else Inl (if unat bytes_txd < length data
                          then i\<lparr> udt_current_write := Some (drop (unat bytes_txd) data) \<rparr> else i))
           | (Inl error, s) \<Rightarrow>
               (let i = i\<lparr> udt_lib := s, udt_current_write := None, udt_write_queue := q \<rparr> in
                if err_code error = EASYNCSND ops
                then Inr (Done (Inr False, i\<lparr> udt_current_write := Some data \<rparr>))
                else Inr (Done (Inl (Udt (failure error)), i)))))"
  by (simp add: udt_send_turn_def Let_def split: outcome.split prod.split option.split sum.split)

definition UdtInner_write ::
  "('s, 'u, 'f) udt_ops \<Rightarrow> udt_limits \<Rightarrow> ('m \<Rightarrow> SerialisationError + byte list) \<Rightarrow> readings \<Rightarrow> instant \<Rightarrow>
     ('m \<times> Priority) option \<Rightarrow> ('s, 'u) UdtInner \<Rightarrow> (bool res \<times> ('s, 'u) UdtInner) outcome option" where
  "UdtInner_write ops lim se t_drop t_push msg i =
     (let i = i\<lparr> udt_write_queue := snd (udt_drop_expired lim t_drop (udt_write_queue i)) \<rparr> in
      case msg of
        None \<Rightarrow> rust_loop (udt_send_turn ops) i
      | Some (msg, priority) \<Rightarrow>
          (case udt_frame se msg of
             Inl e \<Rightarrow> Some (Done (Inl e, i))
           | Inr data \<Rightarrow>
               rust_loop (udt_send_turn ops)
                 (i\<lparr> udt_write_queue := udt_push t_push data priority (udt_write_queue i) \<rparr>)))"

subsection \<open>\<open>Evented\<close> and \<open>Drop\<close>\<close>

text \<open>\<open>e\<close> is the \<open>Debug\<close> text of the error, if there is one.\<close>

definition into_io_error :: "string option \<Rightarrow> string \<Rightarrow> io_error" where
  "into_io_error e m =
     (let err_msg = (case e of Some t \<Rightarrow> ''Error: '' @ t | None \<Rightarrow> []);
          opt_details = '';; [Optional details: '' @ m @ '']''
      in IoError OtherKind (err_msg @ (if m = [] then [] else opt_details)))"

definition UdtInner_register ::
  "(SocketError \<Rightarrow> string) \<Rightarrow> (Ready \<Rightarrow> bool) \<Rightarrow> (Ready \<Rightarrow> bool) \<Rightarrow> Poll \<Rightarrow> Token \<Rightarrow> Ready \<Rightarrow> PollOpt \<Rightarrow>
     ('s, 'u) UdtInner \<Rightarrow> 'u shared \<Rightarrow> (io_error + unit) \<times> 'u shared" where
  "UdtInner_register debug is_readable is_writable poll token interest opts i sh =
     (case Handle_register is_readable is_writable (udt_stream i) token interest sh of
        (Inl e, sh) \<Rightarrow> (Inl (into_io_error (Some (debug e)) []), sh)
      | (Inr _, sh) \<Rightarrow> (Inr (), sh))"

definition UdtInner_reregister ::
  "(SocketError \<Rightarrow> string) \<Rightarrow> (Ready \<Rightarrow> bool) \<Rightarrow> (Ready \<Rightarrow> bool) \<Rightarrow> Poll \<Rightarrow> Token \<Rightarrow> Ready \<Rightarrow> PollOpt \<Rightarrow>
     ('s, 'u) UdtInner \<Rightarrow> 'u shared \<Rightarrow> (io_error + unit) \<times> 'u shared" where
  "UdtInner_reregister debug is_readable is_writable poll token interest opts i sh =
     UdtInner_register debug is_readable is_writable poll token interest opts i sh"

definition UdtInner_deregister ::
  "(SocketError \<Rightarrow> string) \<Rightarrow> Poll \<Rightarrow> ('s, 'u) UdtInner \<Rightarrow> 'u shared \<Rightarrow> (io_error + unit) \<times> 'u shared" where
  "UdtInner_deregister debug poll i sh =
     (case Handle_deregister (udt_stream i) sh of
        (Inl e, sh) \<Rightarrow> (Inl (into_io_error (Some (debug e)) []), sh)
      | (Inr _, sh) \<Rightarrow> (Inr (), sh))"

definition UdtInner_drop :: "('s, 'u, 'f) udt_ops \<Rightarrow> ('s, 'u) UdtInner \<Rightarrow> 's" where
  "UdtInner_drop ops i = snd (ut_close ops (udt_lib i) (udt_stream i))"

section \<open>\<open>UdtSock\<close>\<close>

text \<open>\<open>e?\<close> on a call of the library, the state being threaded.\<close>

definition udt_try ::
  "(udt_failure + 'a) \<times> 's \<Rightarrow> ('a \<Rightarrow> 's \<Rightarrow> 'b res \<times> 's) \<Rightarrow> 'b res \<times> 's" where
  "udt_try r k = (case r of (Inl e, s) \<Rightarrow> (Inl (Udt (failure e)), s) | (Inr x, s) \<Rightarrow> k x s)"

definition UdtSock_wrap_std_sock ::
  "('s, 'u, 'f) udt_ops \<Rightarrow> 'f \<Rightarrow> 's \<Rightarrow> ('s, 'u) UdtSock res \<times> 's" where
  "UdtSock_wrap_std_sock ops udp_sock s =
     udt_try (ut_new ops s) (\<lambda>stream s.
     udt_try (ut_setsockopt ops s stream (UDP_SNDBUF UDP_SNDBUF_SIZE)) (\<lambda>_ s.
     udt_try (ut_setsockopt ops s stream (UDP_RCVBUF UDP_RCVBUF_SIZE)) (\<lambda>_ s.
     udt_try (ut_setsockopt ops s stream (UDT_RCVSYN False)) (\<lambda>_ s.
     udt_try (ut_setsockopt ops s stream (UDT_SNDSYN False)) (\<lambda>_ s.
     udt_try (ut_setsockopt ops s stream (UDT_RENDEZVOUS True)) (\<lambda>_ s.
     udt_try (ut_bind_from ops s stream udp_sock) (\<lambda>_ s.
       (Inr (Some \<lparr> udt_lib = s, udt_stream = stream, udt_read_buffer = [], udt_read_len = 0,
                    udt_write_queue = [], udt_current_write = None \<rparr>), s))))))))"

text \<open>
  The conversion is compiled by target: on Unix the file descriptor is passed on (\<open>to_std\<close>), on
  Windows the body is \<open>unimplemented!\<close>.
\<close>

datatype target_family = Unix | Windows

definition mio_to_std_udp_sock :: "target_family \<Rightarrow> ('n \<Rightarrow> 'f) \<Rightarrow> 'n \<Rightarrow> 'f outcome" where
  "mio_to_std_udp_sock family to_std socket =
     (case family of Unix \<Rightarrow> Done (to_std socket) | Windows \<Rightarrow> Panicked)"

definition UdtSock_wrap_mio_sock ::
  "target_family \<Rightarrow> ('s, 'u, 'f) udt_ops \<Rightarrow> ('n \<Rightarrow> 'f) \<Rightarrow> 'n \<Rightarrow> 's \<Rightarrow> (('s, 'u) UdtSock res \<times> 's) outcome" where
  "UdtSock_wrap_mio_sock family ops to_std udp_sock s =
     (case mio_to_std_udp_sock family to_std udp_sock of
        Panicked \<Rightarrow> Panicked
      | Done std_sock \<Rightarrow> Done (UdtSock_wrap_std_sock ops std_sock s))"

definition UdtSock_wrap_udp_sock ::
  "target_family \<Rightarrow> ('s, 'u, 'f) udt_ops \<Rightarrow> ('n \<Rightarrow> 'f) \<Rightarrow> ('n, 'k) UdpSock \<Rightarrow> 's \<Rightarrow>
     (('s, 'u) UdtSock res \<times> 's) outcome" where
  "UdtSock_wrap_udp_sock family ops to_std us s =
     (case UdpSock_into_underlying_sock us of
        Inl e \<Rightarrow> Done (Inl e, s)
      | Inr udp_sock \<Rightarrow> UdtSock_wrap_mio_sock family ops to_std udp_sock s)"

definition UdtSock_default :: "('s, 'u) UdtSock" where
  "UdtSock_default = None"

definition on_udt ::
  "('s \<Rightarrow> 'u \<Rightarrow> (udt_failure + 'a) \<times> 's) \<Rightarrow> ('s, 'u) UdtInner \<Rightarrow> 'a res \<times> ('s, 'u) UdtInner" where
  "on_udt f i =
     (case udt_try (f (udt_lib i) (udt_stream i)) (\<lambda>x s. (Inr x, s)) of
        (r, s) \<Rightarrow> (r, i\<lparr> udt_lib := s \<rparr>))"

definition UdtSock_connect ::
  "('s, 'u, 'f) udt_ops \<Rightarrow> SocketAddr \<Rightarrow> ('s, 'u) UdtSock \<Rightarrow> unit res \<times> ('s, 'u) UdtSock" where
  "UdtSock_connect ops addr ut = with_inner ut (on_udt (\<lambda>s u. ut_connect ops s u addr))"

definition UdtSock_peer_addr ::
  "('s, 'u, 'f) udt_ops \<Rightarrow> ('s, 'u) UdtSock \<Rightarrow> SocketAddr res \<times> ('s, 'u) UdtSock" where
  "UdtSock_peer_addr ops ut = with_inner ut (on_udt (ut_getpeername ops))"

text \<open>\<open>unimplemented!()\<close> on an initialised socket.\<close>

definition UdtSock_take_error :: "('s, 'u) UdtSock \<Rightarrow> io_error option res outcome" where
  "UdtSock_take_error ut = (case ut of None \<Rightarrow> Done (Inl UninitialisedSocket) | Some _ \<Rightarrow> Panicked)"

definition UdtSock_read ::
  "('s, 'u, 'f) udt_ops \<Rightarrow> udt_limits \<Rightarrow> (byte list \<Rightarrow> SerialisationError + 'm) \<Rightarrow> ('s, 'u) UdtSock \<Rightarrow>
     ('m option res \<times> ('s, 'u) UdtSock) outcome option" where
  "UdtSock_read ops lim de ut = with_inner_loop ut (UdtInner_read ops lim de)"

definition UdtSock_write ::
  "('s, 'u, 'f) udt_ops \<Rightarrow> udt_limits \<Rightarrow> ('m \<Rightarrow> SerialisationError + byte list) \<Rightarrow> readings \<Rightarrow> instant \<Rightarrow>
     ('m \<times> Priority) option \<Rightarrow> ('s, 'u) UdtSock \<Rightarrow> (bool res \<times> ('s, 'u) UdtSock) outcome option" where
  "UdtSock_write ops lim se t_drop t_push msg ut =
     with_inner_loop ut (UdtInner_write ops lim se t_drop t_push msg)"

text \<open>\<open>Evented\<close>: the socket itself is not changed, the shared set is.\<close>

definition with_udt_handle ::
  "('s, 'u) UdtSock \<Rightarrow> (('s, 'u) UdtInner \<Rightarrow> 'u shared \<Rightarrow> (io_error + unit) \<times> 'u shared) \<Rightarrow> 'u shared \<Rightarrow>
     (io_error + unit) \<times> 'u shared" where
  "with_udt_handle ut f sh =
     (case ut of None \<Rightarrow> (Inl uninitialised_io_error, sh) | Some i \<Rightarrow> f i sh)"

definition UdtSock_register ::
  "(SocketError \<Rightarrow> string) \<Rightarrow> (Ready \<Rightarrow> bool) \<Rightarrow> (Ready \<Rightarrow> bool) \<Rightarrow> Poll \<Rightarrow> Token \<Rightarrow> Ready \<Rightarrow> PollOpt \<Rightarrow>
     ('s, 'u) UdtSock \<Rightarrow> 'u shared \<Rightarrow> (io_error + unit) \<times> 'u shared" where
  "UdtSock_register debug is_readable is_writable poll token interest opts ut =
     with_udt_handle ut (UdtInner_register debug is_readable is_writable poll token interest opts)"

definition UdtSock_reregister ::
  "(SocketError \<Rightarrow> string) \<Rightarrow> (Ready \<Rightarrow> bool) \<Rightarrow> (Ready \<Rightarrow> bool) \<Rightarrow> Poll \<Rightarrow> Token \<Rightarrow> Ready \<Rightarrow> PollOpt \<Rightarrow>
     ('s, 'u) UdtSock \<Rightarrow> 'u shared \<Rightarrow> (io_error + unit) \<times> 'u shared" where
  "UdtSock_reregister debug is_readable is_writable poll token interest opts ut =
     with_udt_handle ut (UdtInner_reregister debug is_readable is_writable poll token interest opts)"

definition UdtSock_deregister ::
  "(SocketError \<Rightarrow> string) \<Rightarrow> Poll \<Rightarrow> ('s, 'u) UdtSock \<Rightarrow> 'u shared \<Rightarrow> (io_error + unit) \<times> 'u shared" where
  "UdtSock_deregister debug poll ut = with_udt_handle ut (UdtInner_deregister debug poll)"

section \<open>A new socket\<close>

text \<open>
  A socket that is wrapped is idle, whatever the library answers to the options; wrapping panics on
  Windows unless the UDP socket is uninitialised.
\<close>

lemma udt_try_Inr: "fst (udt_try r k) = Inr x \<longleftrightarrow> (\<exists>y s. r = (Inr y, s) \<and> fst (k y s) = Inr x)"
  by (auto simp: udt_try_def split: prod.splits sum.splits)

lemma UdtSock_wrap_std_sock_idle:
  assumes "fst (UdtSock_wrap_std_sock ops f s) = Inr ut"
  obtains i where "ut = Some i" "udt_read_buffer i = []" "udt_read_len i = 0" "udt_write_queue i = []"
    "udt_current_write i = None"
  using assms by (auto simp: UdtSock_wrap_std_sock_def udt_try_Inr)

lemma UdtSock_wrap_udp_sock_panics:
  "UdtSock_wrap_udp_sock family ops to_std us s = Panicked \<longleftrightarrow> family = Windows \<and> us \<noteq> None"
  by (auto simp: UdtSock_wrap_udp_sock_def UdtSock_wrap_mio_sock_def mio_to_std_udp_sock_def
      UdpSock_into_underlying_sock_def split: target_family.splits sum.splits option.splits)

section \<open>The inlined queue is the outgoing queue\<close>

definition limits_conf :: "udt_limits \<Rightarrow> unit SocketConfig" where
  "limits_conf lim = SocketConfig_default\<lparr>
     conf_max_payload_size := MAX_PAYLOAD_SIZE lim, conf_msg_drop_priority := MSG_DROP_PRIORITY lim,
     conf_max_msg_age_secs := MAX_MSG_AGE_SECS lim \<rparr>"

lemma limits_conf_simps [simp]:
  "conf_msg_drop_priority (limits_conf lim) = MSG_DROP_PRIORITY lim"
  "conf_max_msg_age_secs (limits_conf lim) = MAX_MSG_AGE_SECS lim"
  by (simp_all add: limits_conf_def)

definition as_queue :: "udt_limits \<Rightarrow> write_queue \<Rightarrow> (unit, byte list) OutQueue" where
  "as_queue lim q = \<lparr> inner = q, conf = limits_conf lim \<rparr>"

lemma as_queue_drop: "drop_expired now (as_queue lim q) = apsnd (as_queue lim) (udt_drop_expired lim now q)"
  by (simp add: drop_expired_def udt_drop_expired_def expired_queues_def udt_expired_keys_def
      is_queue_valid_def as_queue_def split: prod.split cong: list.case_cong)

lemma as_queue_push: "push now data p (as_queue lim q) = as_queue lim (udt_push now data p q)"
  by (simp add: push_def push_at_def udt_push_def as_queue_def Let_def)

lemma as_queue_next: "next_msg (as_queue lim q) = map_outcome (apsnd (as_queue lim)) (udt_next q)"
  by (auto simp: next_msg_def udt_next_def as_queue_def Let_def split: list.splits)

definition udt_queue_ok :: "write_queue \<Rightarrow> bool" where
  "udt_queue_ok q \<longleftrightarrow> oq_ok (as_queue undefined q)"

lemma udt_queue_ok: "udt_queue_ok q \<longleftrightarrow> oq_ok (as_queue lim q)"
  by (simp add: udt_queue_ok_def oq_ok_def as_queue_def)

lemma view_as_queue: "view (as_queue lim q) = flatten q"
  by (simp add: view_def as_queue_def)

text \<open>So it is a queue in the sense of \<open>send_queue\<close>, for any limits.\<close>

interpretation udtq: send_queue udt_push udt_next "udt_drop_expired lim" flatten udt_queue_ok
  for lim
proof
  fix q :: write_queue and now n q'
  assume ok: "udt_queue_ok q" and d: "udt_drop_expired lim now q = (n, q')"
  have "drop_expired now (as_queue lim q) = (n, as_queue lim q')"
    by (simp add: as_queue_drop d)
  from oq.expire_prefix [OF _ this] ok
  show "udt_queue_ok q' \<and> (\<exists>dropped. flatten q = flatten q' @ dropped \<and> n = length dropped)"
    by (simp add: udt_queue_ok [of _ lim] view_as_queue)
next
  fix q :: write_queue assume ok: "udt_queue_ok q" and e: "flatten q = []"
  from oq.nxt_empty [of "as_queue lim q"] ok e have "next_msg (as_queue lim q) = Done (None, as_queue lim q)"
    by (simp add: udt_queue_ok [of _ lim] view_as_queue)
  then show "udt_next q = Done (None, q)"
    by (cases "udt_next q") (auto simp: as_queue_next, auto simp: as_queue_def)
next
  fix q :: write_queue and p t d v assume ok: "udt_queue_ok q" and e: "flatten q = (p, t, d) # v"
  from oq.nxt_first [of "as_queue lim q"] ok e obtain r where
    "next_msg (as_queue lim q) = Done (Some d, r)" "oq_ok r" "view r = v"
    by (auto simp: udt_queue_ok [of _ lim] view_as_queue)
  then show "\<exists>q'. udt_next q = Done (Some d, q') \<and> udt_queue_ok q' \<and> flatten q' = v"
    by (cases "udt_next q") (auto simp: as_queue_next udt_queue_ok [of _ lim] view_as_queue)
qed (auto simp: udt_queue_ok [of _ lim] oq.enqueue_ok oq.enqueue_contents view_sorted
    view_as_queue [of lim, symmetric] push_def simp flip: as_queue_push)

section \<open>The flush loop\<close>

definition udt_pending :: "('s, 'u) UdtInner \<Rightarrow> byte list list" where
  "udt_pending i = pending_of (udt_current_write i) (flatten (udt_write_queue i))"

definition udt_ok :: "('s, 'u) UdtInner \<Rightarrow> bool" where
  "udt_ok i \<longleftrightarrow> udt_queue_ok (udt_write_queue i)"

text \<open>The errors with which the loop gives up.\<close>

definition udt_gave_up :: "SocketError \<Rightarrow> bool" where
  "udt_gave_up e \<longleftrightarrow> (\<exists>x. e = Udt x) \<or> (\<exists>n. e = UdtNegativeBytesWrite n \<and> sint n < 0)"

lemmas udt_send_defs = udt_send_turn_eq udt_ok_def udt_pending_def udt_gave_up_def pending_of_def Let_def

interpretation udt_flush: flush_loop "udt_send_turn ops" udt_pending udt_ok udt_gave_up
  for ops :: "('s, 'u, 'f) udt_ops"
proof
  fix i :: "('s, 'u) UdtInner"
  assume ok: "udt_ok i"
  then have q: "udt_queue_ok (udt_write_queue i)" by (simp add: udt_ok_def)
  show "\<exists>i'. udt_send_turn ops i = Inr (Done (Inr True, i')) \<and> udt_ok i' \<and> udt_pending i' = []"
    if "udt_pending i = []"
    using q that
    by (cases rule: udtq.take_or_next_cases [where current = "udt_current_write i"])
      (use q in \<open>simp_all add: udt_send_defs split: option.splits\<close>)
  show "(\<exists>i'. udt_send_turn ops i = Inl i' \<and> udt_ok i' \<and>
        (udt_pending i' = ds \<or> (\<exists>d'. udt_pending i' = d' # ds))) \<or>
      (\<exists>i'. udt_send_turn ops i = Inr (Done (Inr False, i')) \<and> udt_ok i' \<and> udt_pending i' = d # ds) \<or>
      (\<exists>i' e. udt_send_turn ops i = Inr (Done (Inl e, i')) \<and> udt_ok i' \<and> udt_pending i' = ds \<and>
        udt_gave_up e)"
    if "udt_pending i = d # ds" for d ds
    using q
  proof (cases rule: udtq.take_or_next_cases [where current = "udt_current_write i"])
    case none
    with that show ?thesis by (simp add: udt_pending_def pending_of_def)
  next
    case (some d' q')
    moreover obtain r s where "ut_send ops (udt_lib i) (udt_stream i) d' = (r, s)"
      by (cases "ut_send ops (udt_lib i) (udt_stream i) d'")
    ultimately show ?thesis
      using that by (cases r) (auto simp: udt_send_defs)
  qed
qed

lemma udt_drop_expired_ok: "udt_queue_ok q \<Longrightarrow> udt_queue_ok (snd (udt_drop_expired lim t q))"
  using udtq.expire_prefix [of q lim t "fst (udt_drop_expired lim t q)" "snd (udt_drop_expired lim t q)"]
  by simp

text \<open>An idle connection whose sends are accepted in full, for evaluations.\<close>

definition sample_udt_ops :: "(byte list, nat, unit) udt_ops" where
  "sample_udt_ops = \<lparr> ut_new = (\<lambda>s. (Inr 1, s)), ut_setsockopt = (\<lambda>s u opt. (Inr (), s)),
     ut_bind_from = (\<lambda>s u f. (Inr (), s)), ut_connect = (\<lambda>s u a. (Inr (), s)),
     ut_getpeername = (\<lambda>s u. (Inr (V4 0 1), s)),
     ut_recv = (\<lambda>s u n. (Inl \<lparr> err_code = 6002, failure = \<lparr> err_msg = [] \<rparr> \<rparr>, s)),
     ut_send = (\<lambda>s u d. (Inr (of_nat (length d)), s @ d)), ut_close = (\<lambda>s u. (Inr (), s)),
     EASYNCRCV = 6002, EASYNCSND = 6001 \<rparr>"

definition sample_limits :: udt_limits where
  "sample_limits = \<lparr> MAX_MSG_AGE_SECS = 60, MAX_PAYLOAD_SIZE = 100, MSG_DROP_PRIORITY = 2 \<rparr>"

definition sample_udt :: "byte list \<Rightarrow> byte list \<Rightarrow> (byte list, nat) UdtInner" where
  "sample_udt sent received =
     \<lparr> udt_lib = sent, udt_stream = 1, udt_read_buffer = received, udt_read_len = 0,
       udt_write_queue = [], udt_current_write = None \<rparr>"

section \<open>Properties\<close>

text \<open>
  C33. The queue inlined in the UDT socket is the queue of \<open>out_queue.rs\<close>, which replaced it:
  expiring, pushing and taking the next message do the same to the same map under the same limits,
  panics included.
\<close>

theorem udt_queue_is_out_queue:
  "drop_expired now (as_queue lim q) = apsnd (as_queue lim) (udt_drop_expired lim now q) \<and>
   push t data p (as_queue lim q) = as_queue lim (udt_push t data p q) \<and>
   next_msg (as_queue lim q) = map_outcome (apsnd (as_queue lim)) (udt_next q)"
  by (simp add: as_queue_drop as_queue_push as_queue_next)

text \<open>
  A call of \<open>write\<close> on a UDT socket that returns never panics and keeps the queue's invariant.
  It answers \<open>Ok(true)\<close> exactly when nothing is left to send, \<open>Ok(false)\<close> when something is, and
  otherwise an error of the library, a negative count, or the error of serialising the message.
\<close>

theorem udt_write_answers:
  assumes "UdtInner_write ops lim se t t' msg i = Some out" and "udt_ok i"
  shows "\<exists>r i'. out = Done (r, i') \<and> udt_ok i' \<and>
    (r = Inr True \<and> udt_pending i' = [] \<or> r = Inr False \<and> udt_pending i' \<noteq> [] \<or>
     (\<exists>e. r = Inl (Udt e)) \<or> (\<exists>n. r = Inl (UdtNegativeBytesWrite n) \<and> sint n < 0) \<or>
     (\<exists>m p e. msg = Some (m, p) \<and> se m = Inl e \<and> r = Inl (Serialisation e)))"
proof -
  define j where "j = i\<lparr> udt_write_queue := snd (udt_drop_expired lim t (udt_write_queue i)) \<rparr>"
  have j: "udt_ok j" using assms(2) by (simp add: j_def udt_ok_def udt_drop_expired_ok)
  have flushed: ?thesis if "rust_loop (udt_send_turn ops) k = Some out" "udt_ok k" for k
    using udt_flush.flush_result [OF that] by (auto simp: udt_gave_up_def)
  show ?thesis
  proof (cases msg)
    case None
    with assms(1) flushed [of j] j show ?thesis by (simp add: UdtInner_write_def j_def Let_def)
  next
    case (Some mp)
    obtain m p where mp: "mp = (m, p)" by (cases mp)
    show ?thesis
    proof (cases "se m")
      case (Inl e)
      with assms(1) Some mp have "out = Done (Inl (Serialisation e), j)"
        by (simp add: UdtInner_write_def udt_frame_def j_def Let_def)
      with j Some mp Inl show ?thesis by simp
    next
      case (Inr body)
      with assms(1) Some mp flushed j udtq.enqueue_ok show ?thesis
        by (simp add: UdtInner_write_def udt_frame_def udt_ok_def j_def Let_def)
    qed
  qed
qed

theorem udt_write_answers_witness:
  "UdtInner_write sample_udt_ops sample_limits Inr (\<lambda>_. 0) 0 (Some ([9], 1)) (sample_udt [] []) =
     Some (Done (Inr True, sample_udt [1, 0, 0, 0, 9] [])) \<and>
   udt_pending (sample_udt [1, 0, 0, 0, 9] []) = []"
proof -
  have w: "UdtInner_write sample_udt_ops sample_limits Inr (\<lambda>_. 0) 0 (Some ([9], 1)) (sample_udt [] []) =
     Some (Done (Inr True, sample_udt [1, 0, 0, 0, 9] []))"
    by (simp add: UdtInner_write_def udt_drop_expired_def udt_expired_keys_def udt_frame_def udt_push_def
        udt_next_def rust_loop.simps udt_send_turn_eq take_or_next_def sample_udt_def sample_udt_ops_def
        le32_encode_def)
  have "udt_ok (sample_udt [] [])"
    by (simp add: udt_ok_def udt_queue_ok_def as_queue_def oq_ok_def btree_ok_def sample_udt_def)
  from udt_write_answers [OF w this] w show ?thesis by auto
qed

text \<open>
  UDT frame round trip: a frame written by one socket is taken off the front of the other's
  buffer as the same message, the bytes behind it untouched, for every body within the limit. In
  contrast to \<open>tcp.rs\<close> this includes messages with an empty body. It needs a \<open>deserialise_from\<close>
  that stops where the message ends, because it is handed everything that is buffered.
\<close>

theorem udt_frame_roundtrip:
  assumes "udt_frame se m = Inr frame"
    and "\<forall>m body rest. se m = Inr body \<longrightarrow> de (body @ rest) = Inr m"
    and "length frame - 4 \<le> MAX_PAYLOAD_SIZE lim" and "length frame - 4 < 2 ^ 32"
    and "udt_read_len i = 0" and "udt_read_buffer i = frame @ rest"
  shows "udt_read_from_buffer lim de i = Done (Inr (Some m), i\<lparr> udt_read_buffer := rest \<rparr>)"
proof -
  from assms(1) obtain body where body: "se m = Inr body" "frame = le32_encode (of_nat (length body)) @ body"
    by (auto simp: udt_frame_def try_op_eq_Inr Let_def)
  with assms(4) have "unat (of_nat (length body) :: u32) = length body"
    by (simp add: unat_of_nat take_bit_nat_eq_self)
  with body assms(2,3,5,6) show ?thesis
    by (cases i) (simp add: udt_read_from_buffer_pure_def udt_read_header_pure_def Let_def)
qed

theorem udt_frame_roundtrip_witness:
  "udt_read_from_buffer sample_limits (\<lambda>bs. Inr (take 2 bs)) (sample_udt [] ([2, 0, 0, 0, 7, 8] @ [1])) =
     Done (Inr (Some [7, 8]), (sample_udt [] ([2, 0, 0, 0, 7, 8] @ [1]))\<lparr> udt_read_buffer := [1] \<rparr>)"
  by (rule udt_frame_roundtrip [where se = "\<lambda>m. if length m = 2 then Inr m else Inl (SerialisationError [])"
        and frame = "[2, 0, 0, 0, 7, 8]"])
    (simp_all add: udt_frame_def le32_encode_def sample_limits_def sample_udt_def)

end
