(* ===== verification/Udt_Session.thy ===== *)
theory Udt_Session
  imports Udt_Sock Drain
begin

text \<open>
  The sending side of the UDT socket (\<open>src/src/udt/udt_sock.rs\<close>) as a sender: it implements the
  mailbox under the limits of the crate, and it drains.
\<close>

section \<open>What the library promises\<close>

text \<open>
  A send on the socket \<open>u\<close> takes a prefix of the data, a failed one or one with a negative count nothing.
\<close>

definition udt_write_contract :: "('s, 'u, 'f) udt_ops \<Rightarrow> 'u \<Rightarrow> ('s \<Rightarrow> byte list) \<Rightarrow> bool" where
  "udt_write_contract ops u sent \<longleftrightarrow>
     (\<forall>s d n s'. ut_send ops s u d = (Inr n, s') \<longrightarrow>
        (if sint n < 0 then sent s' = sent s
         else unat n \<le> length d \<and> sent s' = sent s @ take (unat n) d)) \<and>
     (\<forall>s d e s'. ut_send ops s u d = (Inl e, s') \<longrightarrow> sent s' = sent s)"

lemma udt_write_contractD:
  "udt_write_contract ops u sent \<Longrightarrow> ut_send ops s u d = (r, s') \<Longrightarrow>
     case r of
       Inl e \<Rightarrow> sent s' = sent s
     | Inr n \<Rightarrow> if sint n < 0 then sent s' = sent s
               else unat n \<le> length d \<and> sent s' = sent s @ take (unat n) d"
  by (fastforce simp: udt_write_contract_def split: sum.split)

text \<open>It fails only for lack of room, and otherwise takes at least one byte of what is not empty.\<close>

definition udt_lively :: "('s, 'u, 'f) udt_ops \<Rightarrow> bool" where
  "udt_lively ops \<longleftrightarrow>
     (\<forall>s u d e s'. ut_send ops s u d = (Inl e, s') \<longrightarrow> err_code e = EASYNCSND ops) \<and>
     (\<forall>s u d n s'. ut_send ops s u d = (Inr n, s') \<longrightarrow> 0 \<le> sint n \<and> (d \<noteq> [] \<longrightarrow> 0 < unat n))"

definition udt_accepts :: "('s, 'u, 'f) udt_ops \<Rightarrow> ('s, 'u) UdtInner \<Rightarrow> bool" where
  "udt_accepts ops i \<longleftrightarrow>
     (\<forall>d. \<exists>n s. ut_send ops (udt_lib i) (udt_stream i) d = (Inr n, s) \<and> 0 \<le> sint n)"

section \<open>UDT as a sender\<close>

definition udt_line :: "('s \<Rightarrow> byte list) \<Rightarrow> ('s, 'u) UdtInner \<Rightarrow> byte list" where
  "udt_line sent i = sent (udt_lib i) @ (case udt_current_write i of None \<Rightarrow> [] | Some d \<Rightarrow> d)"

definition udt_sends :: "('s, 'u, 'f) udt_ops \<Rightarrow> ('s \<Rightarrow> byte list) \<Rightarrow> ('s, 'u) UdtInner \<Rightarrow> bool" where
  "udt_sends ops sent i \<longleftrightarrow> udt_ok i \<and> udt_write_contract ops (udt_stream i) sent"

lemma udt_send_turn_effect:
  assumes good: "udt_sends ops sent i"
    and turn: "udt_send_turn ops i = Inl i' \<and> ans = Inr b \<or> udt_send_turn ops i = Inr (Done (ans, i'))"
  shows "udt_sends ops sent i' \<and> udt_stream i' = udt_stream i \<and>
    (\<exists>taken. flatten (udt_write_queue i) = taken @ flatten (udt_write_queue i') \<and>
      (case ans of
         Inr _ \<Rightarrow> udt_line sent i' = udt_line sent i @ concat (msgs taken)
       | Inl _ \<Rightarrow> \<exists>lost. udt_line sent i' @ lost = udt_line sent i @ concat (msgs taken)))"
proof -
  from good have q: "udt_queue_ok (udt_write_queue i)" and contract: "udt_write_contract ops (udt_stream i) sent"
    by (simp_all add: udt_sends_def udt_ok_def)
  from q show ?thesis
  proof (cases rule: udtq.take_or_next_tagged [where current = "udt_current_write i"])
    case none
    with turn good show ?thesis
      by (auto simp: udt_send_turn_eq udt_line_def udt_sends_def udt_ok_def split: sum.split)
  next
    case (current d)
    obtain r s where wr: "ut_send ops (udt_lib i) (udt_stream i) d = (r, s)"
      by (cases "ut_send ops (udt_lib i) (udt_stream i) d")
    with current udt_write_contractD [OF contract wr] turn good show ?thesis
      by (cases r) (auto simp: udt_send_turn_eq udt_line_def udt_sends_def udt_ok_def Let_def split: if_splits sum.split)
  next
    case (queued p t d q')
    obtain r s where wr: "ut_send ops (udt_lib i) (udt_stream i) d = (r, s)"
      by (cases "ut_send ops (udt_lib i) (udt_stream i) d")
    with queued udt_write_contractD [OF contract wr] turn good show ?thesis
      by (cases r) (auto simp: udt_send_turn_eq udt_line_def udt_sends_def udt_ok_def Let_def
          intro!: exI [of _ "[(p, t, d)]"] split: if_splits sum.split)
  qed
qed

text \<open>The argument of a write is the message, if any.\<close>

definition udt_encode ::
  "('m \<Rightarrow> SerialisationError + byte list) \<Rightarrow> ('m \<times> Priority) option \<Rightarrow> (Priority \<times> 'm \<times> byte list) option res" where
  "udt_encode se msg =
     (case msg of
        None \<Rightarrow> Inr None
      | Some (m, p) \<Rightarrow> try_op id (udt_frame se m) (\<lambda>f. Inr (Some (p, m, f))))"

text \<open>Between two writes anything may happen that leaves the sending half alone.\<close>

definition same_sending_udt :: "('s \<Rightarrow> byte list) \<Rightarrow> ('s, 'u) UdtInner \<Rightarrow> ('s, 'u) UdtInner \<Rightarrow> bool" where
  "same_sending_udt sent i i' \<longleftrightarrow>
     udt_stream i' = udt_stream i \<and> udt_write_queue i' = udt_write_queue i \<and>
     udt_current_write i' = udt_current_write i \<and> sent (udt_lib i') = sent (udt_lib i)"

abbreviation udt_session ::
  "('s, 'u, 'f) udt_ops \<Rightarrow> udt_limits \<Rightarrow> ('m \<Rightarrow> SerialisationError + byte list) \<Rightarrow> ('s \<Rightarrow> byte list) \<Rightarrow>
     ('s, 'u) UdtInner \<Rightarrow> ('m \<times> byte list) queued list \<Rightarrow> ('s, 'u) UdtInner \<Rightarrow> bool" where
  "udt_session ops lim se sent \<equiv>
     session (\<lambda>i. udt_encode se) (\<lambda>t t' msg. UdtInner_write ops lim se t t' msg) (same_sending_udt sent)"

lemma udt_queue_steps:
  assumes "udt_queue_ok q"
  shows "udt_queue_ok (snd (udt_drop_expired lim t q))"
    "flatten (snd (udt_drop_expired lim t q)) = spec_drop t (limits_conf lim) (flatten q)"
    "udt_queue_ok (udt_push t' d p q)" "flatten (udt_push t' d p q) = spec_push (p, t', d) (flatten q)"
proof -
  have "oq_ok (as_queue lim q)" using assms by (simp add: udt_queue_ok [of _ lim])
  from drop_expired_steps [OF this, of t] show "flatten (snd (udt_drop_expired lim t q)) = spec_drop t (limits_conf lim) (flatten q)"
    by (simp add: as_queue_drop) (simp add: view_def as_queue_def)
qed (use assms in \<open>simp_all add: udt_drop_expired_ok udtq.enqueue_ok udtq.enqueue_contents\<close>)

interpretation udt_mail: mail_sender "udt_send_turn ops" "\<lambda>i. flatten (udt_write_queue i)" "udt_line sent" "\<lambda>d. d" "\<lambda>_. True"
  "udt_sends ops sent" udt_stream "snd :: 'm \<times> byte list \<Rightarrow> byte list" "\<lambda>i. limits_conf lim" "\<lambda>i. udt_encode se"
  "UdtInner_write ops lim se" "same_sending_udt sent"
  for ops :: "('s, 'u, 'f) udt_ops" and sent and lim and se :: "'m \<Rightarrow> SerialisationError + byte list"
proof (unfold_locales, goal_cases)
  case (1 i i' r b)
  with udt_send_turn_effect [of ops sent i i' r b] show ?case by (simp cong: sum.case_cong)
next
  case (3 i msg e t t')
  then have q: "udt_queue_ok (udt_write_queue i)" by (simp add: udt_sends_def udt_ok_def)
  with 3 show ?case
    by (intro exI [of _ "i\<lparr> udt_write_queue := snd (udt_drop_expired lim t (udt_write_queue i)) \<rparr>"])
      (auto simp: UdtInner_write_def udt_encode_def try_op_def udt_line_def udt_sends_def udt_ok_def
        udt_queue_steps [OF q] split: option.splits sum.splits)
next
  case (4 i msg new t t')
  then have q: "udt_queue_ok (udt_write_queue i)" by (simp add: udt_sends_def udt_ok_def)
  let ?q = "snd (udt_drop_expired lim t (udt_write_queue i))"
  show ?case
  proof (cases new)
    case None
    with 4 show ?thesis
      by (intro exI [of _ "i\<lparr> udt_write_queue := ?q \<rparr>"])
        (auto simp: UdtInner_write_def udt_encode_def try_op_def udt_line_def udt_sends_def udt_ok_def queued_after_def
          udt_queue_steps [OF q] split: option.splits sum.splits)
  next
    case (Some x)
    obtain p m f where "x = (p, m, f)" by (cases x)
    with Some 4 show ?thesis
      by (intro exI [of _ "i\<lparr> udt_write_queue := udt_push t' f p ?q \<rparr>"])
        (auto simp: UdtInner_write_def udt_encode_def try_op_def udt_line_def udt_sends_def udt_ok_def queued_after_def
          udt_queue_steps [OF udt_queue_steps(1) [OF q]] udt_queue_steps [OF q] split: option.splits sum.splits)
  qed
qed (auto simp: same_sending_udt_def udt_line_def udt_sends_def udt_ok_def)

section \<open>UDT as a transport that drains\<close>

lemma udt_pending_empty:
  "udt_pending i = [] \<Longrightarrow> flatten (udt_write_queue i) = []"
  "udt_pending i = [] \<Longrightarrow> udt_line sent i = sent (udt_lib i)"
  by (auto simp: udt_pending_def pending_of_def udt_line_def split: option.splits)

lemma same_udt_pending: "same_sending_udt sent i i' \<Longrightarrow> udt_pending i' = udt_pending i"
  by (simp add: same_sending_udt_def udt_pending_def)

lemma udt_send_turn_lighter:
  assumes "udt_lively ops" and ok: "udt_ok i" and t: "udt_send_turn ops i = Inl i'"
  shows "(\<Sum>d\<leftarrow>udt_pending i'. Suc (length d)) < (\<Sum>d\<leftarrow>udt_pending i. Suc (length d))"
proof -
  from ok have "udt_queue_ok (udt_write_queue i)" by (simp add: udt_ok_def)
  then show ?thesis
  proof (cases rule: udtq.take_or_next_cases [where current = "udt_current_write i"])
    case none
    with t show ?thesis by (simp add: udt_send_turn_eq)
  next
    case (some d q')
    obtain r s where w: "ut_send ops (udt_lib i) (udt_stream i) d = (r, s)"
      by (cases "ut_send ops (udt_lib i) (udt_stream i) d")
    have "0 < unat n" if "r = Inr n" "d \<noteq> []" for n
      using assms(1) w that unfolding udt_lively_def by blast
    with some w t show ?thesis
      by (cases r; cases "d = []")
        (auto simp: udt_send_turn_eq udt_pending_def pending_of_def Let_def split: if_splits)
  qed
qed

lemma udt_send_turn_succeeds:
  assumes "udt_lively ops"
  shows "udt_send_turn ops i \<noteq> Inr (Done (Inl e, i'))"
proof
  have never: "ut_send ops s u d = (Inl e, s') \<Longrightarrow> err_code e = EASYNCSND ops"
    "ut_send ops s u d = (Inr n, s') \<Longrightarrow> \<not> sint n < 0" for s u d e n s'
    using assms unfolding udt_lively_def by (blast, fastforce)
  assume "udt_send_turn ops i = Inr (Done (Inl e, i'))"
  with never show False
    by (auto simp: udt_send_turn_eq Let_def split: outcome.splits option.splits prod.splits sum.splits if_splits)
qed

lemma udt_send_turn_ready:
  assumes "udt_accepts ops i" and "udt_ok i" and "udt_pending i \<noteq> []"
  shows "\<exists>j. udt_send_turn ops i = Inl j"
proof -
  from assms(2) have "udt_queue_ok (udt_write_queue i)" by (simp add: udt_ok_def)
  then show ?thesis
  proof (cases rule: udtq.take_or_next_cases [where current = "udt_current_write i"])
    case none
    with assms(3) show ?thesis by (simp add: udt_pending_def pending_of_def)
  next
    case (some d q')
    moreover obtain n s where "ut_send ops (udt_lib i) (udt_stream i) d = (Inr n, s)" "0 \<le> sint n"
      using assms(1) unfolding udt_accepts_def by blast
    ultimately show ?thesis by (simp add: udt_send_turn_eq Let_def)
  qed
qed

interpretation udt_drain: draining_sender "udt_send_turn ops" "\<lambda>i. flatten (udt_write_queue i)" "udt_line sent"
  "\<lambda>d. d" "\<lambda>_. True" "udt_sends ops sent" udt_stream "snd :: 'm \<times> byte list \<Rightarrow> byte list" "\<lambda>i. limits_conf lim"
  "\<lambda>i. udt_encode se" "UdtInner_write ops lim se" "same_sending_udt sent" udt_pending udt_ok udt_gave_up
  "\<lambda>d. Suc (length d)" None "udt_lively ops" "udt_accepts ops"
  for ops :: "('s, 'u, 'f) udt_ops" and sent and lim and se :: "'m \<Rightarrow> SerialisationError + byte list"
proof (unfold_locales, goal_cases)
  case (7 i t t')
  then have q: "udt_queue_ok (udt_write_queue i)" by (simp add: udt_sends_def udt_ok_def)
  let ?j = "i\<lparr> udt_write_queue := snd (udt_drop_expired lim t (udt_write_queue i)) \<rparr>"
  have "\<exists>dropped. udt_pending i = udt_pending ?j @ dropped"
    unfolding udt_pending_def using udt_queue_steps(2) [OF q, of lim t] pending_of_drop by simp
  with 7 show ?case
    using udt_queue_steps(1) [OF q, of lim t]
    by (intro exI [of _ ?j]) (auto simp: UdtInner_write_def udt_sends_def udt_ok_def udt_accepts_def)
qed (auto simp: udt_sends_def udt_send_turn_lighter udt_send_turn_succeeds udt_send_turn_ready udt_encode_def
    same_udt_pending udt_pending_empty(1))

abbreviation udt_rounds ::
  "('s, 'u, 'f) udt_ops \<Rightarrow> udt_limits \<Rightarrow> ('m \<Rightarrow> SerialisationError + byte list) \<Rightarrow> (nat \<Rightarrow> 's \<Rightarrow> 's) \<Rightarrow>
     (nat \<Rightarrow> readings) \<Rightarrow> ('s, 'u) UdtInner \<Rightarrow> nat \<Rightarrow> ('s, 'u) UdtInner option" where
  "udt_rounds ops lim se env clock \<equiv>
     rounds (\<lambda>n. UdtInner_write ops lim se (clock n) 0 None) (\<lambda>n i. i\<lparr> udt_lib := env n (udt_lib i) \<rparr>)"

section \<open>Properties\<close>

text \<open>
  C14. Everything gets out over UDT as well: if, after any session, the program goes on calling
  \<open>write(None)\<close>, and the library accepts data again and again and never fails, then from some point on
  nothing is left to send. The bytes sent are whole frames of accepted messages, in order within each
  priority, and none of a priority below \<open>MSG_DROP_PRIORITY\<close> is missing.
\<close>

theorem udt_everything_gets_out:
  assumes "udt_session ops lim se sent i0 es i" and "udt_sends ops sent i0" and "udt_pending i0 = []"
    and "sent (udt_lib i0) = []" and "udt_lively ops" and "\<forall>n s. sent (env n s) = sent s"
    and "\<forall>m. \<exists>n\<ge>m. \<forall>j. udt_rounds ops lim se env clock i n = Some j \<longrightarrow>
      udt_accepts ops (j\<lparr> udt_lib := env n (udt_lib j) \<rparr>)"
  shows "\<exists>N. \<forall>n\<ge>N. \<exists>j out. udt_rounds ops lim se env clock i n = Some j \<and> udt_pending j = [] \<and>
    sent (udt_lib j) = concat (msgs (retag snd out)) \<and>
    (\<forall>k. subseq (of_class k out) (of_class k es)) \<and>
    (\<forall>k < MSG_DROP_PRIORITY lim. of_class k out = of_class k es)"
proof -
  have empty: "flatten (udt_write_queue i0) = []" "udt_line sent i0 = []"
    using assms(3,4) by (simp_all add: udt_pending_empty)
  have steps: "\<forall>n j. same_sending_udt sent j (j\<lparr> udt_lib := env n (udt_lib j) \<rparr>)"
    using assms(6) by (simp add: same_sending_udt_def)
  have line: "udt_pending j = [] \<and> udt_line sent j = x \<and> P \<longleftrightarrow> udt_pending j = [] \<and> sent (udt_lib j) = x \<and> P"
    for j :: "('a, 'b) UdtInner" and x P
    using udt_pending_empty(2) [of j sent] by auto
  from udt_drain.everything_gets_out [OF assms(5,1,2) empty steps assms(7)] show ?thesis
    by (simp only: line list.map_ident limits_conf_simps)
qed

text \<open>One byte of a frame is sent in each call.\<close>

definition slow_udt_ops :: "(byte list \<times> nat, nat, unit) udt_ops" where
  "slow_udt_ops = \<lparr> ut_new = (\<lambda>s. (Inr 1, s)), ut_setsockopt = (\<lambda>s u opt. (Inr (), s)),
     ut_bind_from = (\<lambda>s u f. (Inr (), s)), ut_connect = (\<lambda>s u a. (Inr (), s)),
     ut_getpeername = (\<lambda>s u. (Inr (V4 0 1), s)),
     ut_recv = (\<lambda>s u n. (Inl \<lparr> err_code = 6002, failure = \<lparr> err_msg = [] \<rparr> \<rparr>, s)),
     ut_send = (\<lambda>s u d. case s of (out, room) \<Rightarrow>
       if room = 0 then (Inl \<lparr> err_code = 6001, failure = \<lparr> err_msg = [] \<rparr> \<rparr>, s)
       else (Inr (if d = [] then 0 else 1), out @ take 1 d, room - 1)),
     ut_close = (\<lambda>s u. (Inr (), s)), EASYNCRCV = 6002, EASYNCSND = 6001 \<rparr>"

definition slow_udt :: "byte list option \<Rightarrow> (byte list \<times> nat, nat) UdtInner" where
  "slow_udt current = \<lparr> udt_lib = ([], 0), udt_stream = 1, udt_read_buffer = [], udt_read_len = 0,
     udt_write_queue = [], udt_current_write = current \<rparr>"

theorem udt_everything_gets_out_witness:
  "\<exists>N. \<forall>n\<ge>N. \<exists>j out. udt_rounds slow_udt_ops sample_limits Inr (\<lambda>_. apsnd Suc) (\<lambda>n p. n)
      (slow_udt (Some [1, 0, 0, 0, 9])) n = Some j \<and> udt_pending j = [] \<and>
    fst (udt_lib j) = concat (msgs (retag snd out)) \<and>
    (\<forall>k. subseq (of_class k out) (of_class k [(1, 0, [9 :: byte], [1, 0, 0, 0, 9 :: byte])])) \<and>
    (\<forall>k < 2. of_class k out = of_class k [(1, 0, [9 :: byte], [1, 0, 0, 0, 9 :: byte])])"
proof -
  have w: "UdtInner_write slow_udt_ops sample_limits Inr (\<lambda>_. 0) 0 (Some ([9], 1)) (slow_udt None) =
      Some (Done (Inr False, slow_udt (Some [1, 0, 0, 0, 9])))"
    by (simp add: UdtInner_write_def udt_drop_expired_def udt_expired_keys_def udt_frame_def udt_push_def
        udt_next_def rust_loop.simps udt_send_turn_eq take_or_next_def slow_udt_def slow_udt_ops_def le32_encode_def)
  have "udt_session slow_udt_ops sample_limits Inr fst (slow_udt None)
      ([] @ arrival 0 (Some (1, [9], [1, 0, 0, 0, 9]))) (slow_udt (Some [1, 0, 0, 0, 9]))"
    by (rule session.wrote [OF session.opened, where w = "Some ([9], 1)" and t = "\<lambda>_. 0" and b = False])
      (use w in \<open>simp_all add: udt_encode_def udt_frame_def le32_encode_def\<close>)
  then have s: "udt_session slow_udt_ops sample_limits Inr fst (slow_udt None)
      [(1, 0, [9], [1, 0, 0, 0, 9])] (slow_udt (Some [1, 0, 0, 0, 9]))"
    by (simp add: arrival_def)
  have good: "udt_sends slow_udt_ops fst (slow_udt None)"
    by (auto simp: udt_sends_def udt_ok_def udt_queue_ok_def as_queue_def oq_ok_def btree_ok_def slow_udt_def
        udt_write_contract_def slow_udt_ops_def Suc_le_eq split: if_splits)
  have start: "udt_pending (slow_udt None) = []" "fst (udt_lib (slow_udt None)) = []"
    by (simp_all add: udt_pending_def pending_of_def slow_udt_def)
  have lively: "udt_lively slow_udt_ops"
    by (auto simp: udt_lively_def slow_udt_ops_def split: if_splits)
  have accepts: "udt_accepts slow_udt_ops (j\<lparr> udt_lib := apsnd Suc (udt_lib j) \<rparr>)" for j
    by (cases "udt_lib j") (auto simp: udt_accepts_def slow_udt_ops_def)
  have log: "\<forall>n s. fst (apsnd Suc s) = fst s" by simp
  have limit: "MSG_DROP_PRIORITY sample_limits = 2" by (simp add: sample_limits_def)
  from udt_everything_gets_out [OF s good start lively log, where clock = "\<lambda>n p. n"] accepts
  show ?thesis unfolding limit by fast
qed

end
