(* ===== verification/Udt_Connection.thy ===== *)
theory Udt_Connection
  imports Udt_Session Read_Order
begin

text \<open>
  Two UDT sockets (\<open>src/src/udt/udt_sock.rs\<close>) and the connection between them, as for TCP: the
  sender goes through any session, the receiver calls \<open>read\<close> at any times.
\<close>

section \<open>UDT as a reader\<close>

text \<open>\<open>taken\<close> are the bytes the library has handed out on the socket \<open>u\<close> so far.\<close>

definition udt_read_contract :: "('s, 'u, 'f) udt_ops \<Rightarrow> 'u \<Rightarrow> ('s \<Rightarrow> byte list) \<Rightarrow> bool" where
  "udt_read_contract ops u taken \<longleftrightarrow> udt_counts ops u \<and>
     (\<forall>s n k buf s'. ut_recv ops s u n = (Inr (k, buf), s') \<longrightarrow>
        taken s' = taken s @ (if sint k \<le> 0 then [] else take (unat k) buf)) \<and>
     (\<forall>s n e s'. ut_recv ops s u n = (Inl e, s') \<longrightarrow> taken s' = taken s)"

lemma udt_read_contractD:
  "udt_read_contract ops u taken \<Longrightarrow> ut_recv ops s u n = (r, s') \<Longrightarrow>
     taken s' = taken s @ (case r of Inl e \<Rightarrow> [] | Inr (k, buf) \<Rightarrow> if sint k \<le> 0 then [] else take (unat k) buf)"
  by (fastforce simp: udt_read_contract_def split: sum.split)

definition udt_error :: "SocketError \<Rightarrow> bool" where
  "udt_error e \<longleftrightarrow> e = ZeroByteRead \<or> (\<exists>x. e = Udt x) \<or> (\<exists>n. e = UdtNegativeBytesRead n \<and> sint n < 0)"

definition same_receiving_udt :: "('s \<Rightarrow> byte list) \<Rightarrow> ('s, 'u) UdtInner \<Rightarrow> ('s, 'u) UdtInner \<Rightarrow> bool" where
  "same_receiving_udt taken j j' \<longleftrightarrow>
     udt_stream j' = udt_stream j \<and> udt_read_buffer j' = udt_read_buffer j \<and>
     udt_read_len j' = udt_read_len j \<and> taken (udt_lib j') = taken (udt_lib j)"

text \<open>What \<open>deserialise_from\<close> must do, being given more than the message: stop where it ends.\<close>

definition reads_back ::
  "('m \<Rightarrow> SerialisationError + byte list) \<Rightarrow> (byte list \<Rightarrow> SerialisationError + 'm) \<Rightarrow> bool" where
  "reads_back se de \<longleftrightarrow> (\<forall>m body rest. se m = Inr body \<longrightarrow> de (body @ rest) = Inr m)"

definition udt_fits :: "udt_limits \<Rightarrow> byte list \<Rightarrow> bool" where
  "udt_fits lim f \<longleftrightarrow> length f - 4 \<le> MAX_PAYLOAD_SIZE lim \<and> length f - 4 < 2 ^ 32"

definition udt_frames_of ::
  "('m \<Rightarrow> SerialisationError + byte list) \<Rightarrow> udt_limits \<Rightarrow> 'm list \<Rightarrow> byte list list \<Rightarrow> bool" where
  "udt_frames_of se lim = list_all2 (\<lambda>m f. udt_frame se m = Inr f \<and> udt_fits lim f)"

text \<open>
  The socket is between frames, or has taken the header of the first one off the buffer and waits
  for a body that is not empty.
\<close>

fun udt_unread :: "('s, 'u) UdtInner \<Rightarrow> byte list list \<Rightarrow> byte list \<Rightarrow> bool" where
  "udt_unread i [] fut \<longleftrightarrow> udt_read_len i = 0 \<and> udt_read_buffer i @ fut = []"
| "udt_unread i (f # fs) fut \<longleftrightarrow>
     udt_read_len i = 0 \<and> udt_read_buffer i @ fut = f @ concat fs \<or>
     4 < length f \<and> udt_read_len i = length f - 4 \<and> udt_read_buffer i @ fut = drop 4 f @ concat fs"

lemma udt_unread_between:
  "udt_read_len i = 0 \<Longrightarrow> udt_read_buffer i @ fut = concat fs \<Longrightarrow> udt_unread i fs fut"
  by (cases fs) auto

lemma udt_unread_more:
  "udt_unread i fs (c @ fut) \<Longrightarrow> udt_read_len i' = udt_read_len i \<Longrightarrow> udt_read_buffer i' = udt_read_buffer i @ c \<Longrightarrow>
     udt_unread i' fs fut"
  by (cases fs) auto

definition udt_awaits ::
  "('m \<Rightarrow> SerialisationError + byte list) \<Rightarrow> (byte list \<Rightarrow> SerialisationError + 'm) \<Rightarrow> udt_limits \<Rightarrow>
     ('s, 'u) UdtInner \<Rightarrow> 'm list \<Rightarrow> byte list \<Rightarrow> bool" where
  "udt_awaits se de lim i ms fut \<longleftrightarrow>
     reads_back se de \<and> (\<exists>fs. udt_frames_of se lim ms fs \<and> udt_unread i fs fut)"

lemma udt_awaits_more:
  "udt_awaits se de lim i ms (c @ fut) \<Longrightarrow> udt_read_len i' = udt_read_len i \<Longrightarrow>
     udt_read_buffer i' = udt_read_buffer i @ c \<Longrightarrow> udt_awaits se de lim i' ms fut"
  unfolding udt_awaits_def using udt_unread_more by blast

text \<open>Behind a header the body is waited for or delivered.\<close>

lemma udt_body_taken:
  assumes "udt_read_header_pure lim i = (Inr True, k)" and "reads_back se de" and "se m = Inr body"
    and "udt_read_len k = length body" and "udt_read_buffer k @ fut = body @ rest"
  obtains (waits) "udt_read_from_buffer_pure lim de i = (Inr None, k)" "body \<noteq> []" "fut \<noteq> []"
  | (delivers) rest' where "udt_read_from_buffer_pure lim de i =
        (Inr (Some m), k\<lparr> udt_read_buffer := rest', udt_read_len := 0 \<rparr>)" "rest' @ fut = rest"
proof (cases "length (udt_read_buffer k) < udt_read_len k")
  case True
  then have "fut \<noteq> []" using assms(4,5) by (metis append.right_neutral length_append not_add_less1)
  with True assms(1,4) show thesis by (intro waits) (auto simp: udt_read_from_buffer_pure_def)
next
  case False
  then obtain rest' where "udt_read_buffer k = body @ rest'" "rest' @ fut = rest"
    using assms(4,5) by (auto simp: append_eq_append_conv2)
  with False assms show thesis
    by (intro delivers [of rest']) (simp_all add: udt_read_from_buffer_pure_def reads_back_def)
qed

lemma udt_frame_parts:
  assumes "udt_frame se m = Inr f" and "udt_fits lim f"
  obtains body where "se m = Inr body" "f = le32_encode (of_nat (length body)) @ body"
    "unat (of_nat (length body) :: u32) = length body" "length body \<le> MAX_PAYLOAD_SIZE lim"
  using assms by (auto simp: udt_frame_def udt_fits_def try_op_eq_Inr Let_def unat_of_nat take_bit_nat_eq_self)

text \<open>The header of the next frame is not there yet, or it is taken from the buffer.\<close>

lemma udt_header_taken:
  fixes i :: "('s, 'u) UdtInner"
  assumes "udt_read_len i = 0" and buf: "udt_read_buffer i @ fut = le32_encode (of_nat n) @ rest"
    and "unat (of_nat n :: u32) = n" and "n \<le> MAX_PAYLOAD_SIZE lim"
  obtains (waits) "udt_read_header_pure lim i = (Inr False, i)" "fut \<noteq> []"
  | (found) k where "udt_read_header_pure lim i = (Inr True, k)" "udt_read_len k = n" "udt_read_buffer k @ fut = rest"
proof (cases "length (udt_read_buffer i) < 4")
  case True
  with arg_cong [OF buf, of length] have "fut \<noteq> []" by auto
  with True assms(1) waits show thesis by (simp add: udt_read_header_pure_def)
next
  case False
  define left where "left = drop 4 (udt_read_buffer i)"
  have "take 4 (udt_read_buffer i @ fut) = le32_encode (of_nat n)" "drop 4 (udt_read_buffer i @ fut) = rest"
    unfolding buf by simp_all
  with False have "udt_read_buffer i = le32_encode (of_nat n) @ left" "left @ fut = rest"
    using append_take_drop_id [of 4 "udt_read_buffer i"] by (auto simp: left_def)
  then show thesis
    using assms(1,3,4) by (intro found [of "i\<lparr> udt_read_len := n, udt_read_buffer := left \<rparr>"])
      (simp_all add: udt_read_header_pure_def Let_def)
qed

lemma udt_read_finds:
  assumes "udt_awaits se de lim i ms fut" and "udt_read_from_buffer_pure lim de i = (x, i')"
  shows "case x of
      Inl _ \<Rightarrow> False
    | Inr None \<Rightarrow> udt_awaits se de lim i' ms fut \<and> (fut = [] \<longrightarrow> ms = [])
    | Inr (Some m) \<Rightarrow> \<exists>left. ms = m # left \<and> udt_awaits se de lim i' left fut"
proof -
  from assms(1) obtain fs where rb: "reads_back se de" and frames: "udt_frames_of se lim ms fs"
    and unread: "udt_unread i fs fut" by (auto simp: udt_awaits_def)
  show ?thesis
  proof (cases fs)
    case Nil
    with unread assms(2) have "x = Inr None" "i' = i"
      by (auto simp: udt_read_from_buffer_pure_def udt_read_header_pure_def)
    with Nil assms(1) frames show ?thesis by (auto simp: udt_frames_of_def)
  next
    case (Cons f fs')
    with frames obtain m ms' where ms: "ms = m # ms'" and frame: "udt_frame se m = Inr f" "udt_fits lim f"
      and rest: "udt_frames_of se lim ms' fs'" by (cases ms) (auto simp: udt_frames_of_def)
    from frame obtain body where body: "se m = Inr body" "f = le32_encode (of_nat (length body)) @ body"
      "unat (of_nat (length body) :: u32) = length body" "length body \<le> MAX_PAYLOAD_SIZE lim"
      by (rule udt_frame_parts)
    have behind: ?thesis
      if k: "udt_read_header_pure lim i = (Inr True, k)" "udt_read_len k = length body"
        "udt_read_buffer k @ fut = body @ concat fs'" for k
      using k(1) rb body(1) k(2,3)
    proof (cases rule: udt_body_taken)
      case waits
      with assms(2) k body(2) rb frames Cons show ?thesis
        by (auto simp: udt_awaits_def intro!: exI [of _ "f # fs'"])
    next
      case (delivers rest')
      with assms(2) ms rest rb show ?thesis
        by (auto simp: udt_awaits_def intro!: exI [of _ fs'] udt_unread_between)
    qed
    from unread Cons body(2) consider
        (header) "udt_read_len i = 0" "udt_read_buffer i @ fut = le32_encode (of_nat (length body)) @ body @ concat fs'"
      | (inside) "body \<noteq> []" "udt_read_len i = length body" "udt_read_buffer i @ fut = body @ concat fs'" by auto
    then show ?thesis
    proof cases
      case inside
      then show ?thesis by (intro behind [of i]) (simp_all add: udt_read_header_pure_def)
    next
      case header
      from header body(3,4) show ?thesis
      proof (cases rule: udt_header_taken)
        case waits
        with assms(2) have "x = Inr None" "i' = i" by (simp_all add: udt_read_from_buffer_pure_def)
        with assms(1) waits show ?thesis by simp
      qed (rule behind)
    qed
  qed
qed

interpretation udt_reader: message_reader "udt_read_turn_pure ops lim de" "udt_read_from_buffer_pure lim de"
  "UdtInner_read ops lim de" "\<lambda>i. udt_read_contract ops (udt_stream i) taken" "\<lambda>i. taken (udt_lib i)" udt_error
  "udt_awaits se de lim" "same_receiving_udt taken"
  for ops :: "('s, 'u, 'f) udt_ops" and taken and lim and se :: "'m \<Rightarrow> SerialisationError + byte list" and de
proof (unfold_locales, goal_cases)
  case (1 k b b' k')
  obtain res s where rd: "ut_recv ops (udt_lib k) (udt_stream k) BUF_LEN = (res, s)"
    by (cases "ut_recv ops (udt_lib k) (udt_stream k) BUF_LEN")
  with 1(2) obtain n buf where "res = Inr (n, buf)" "0 < sint n" "b'"
    "k' = k\<lparr> udt_lib := s, udt_read_buffer := udt_read_buffer k @ take (unat n) buf \<rparr>"
    by (cases res) (auto simp: udt_read_turn_pure_def Let_def sint_pos split: if_splits option.splits prod.splits sum.splits)
  with udt_read_contractD [OF 1(1) rd] 1(1) show ?case
    by (auto intro!: exI [of _ "take (unat n) buf"] elim: udt_awaits_more)
next
  case (2 k b r k')
  obtain res s where rd: "ut_recv ops (udt_lib k) (udt_stream k) BUF_LEN = (res, s)"
    by (cases "ut_recv ops (udt_lib k) (udt_stream k) BUF_LEN")
  let ?k1 = "k\<lparr> udt_lib := s \<rparr>"
  obtain x k2 where look: "udt_read_from_buffer_pure lim de ?k1 = (x, k2)" by (cases "udt_read_from_buffer_pure lim de ?k1")
  have same: "udt_awaits se de lim ?k1 ms fut" if "udt_awaits se de lim k ms fut" for ms fut
    using that by (rule udt_awaits_more [of _ _ _ _ _ "[]", simplified]) simp_all
  have "taken s = taken (udt_lib k)"
    using udt_read_contractD [OF 2(1) rd] 2(2) rd
    by (auto simp: udt_read_turn_pure_def Let_def split: sum.splits if_splits)
  with 2 rd look same show ?case
    by (intro exI [of _ ?k1])
      (auto simp: udt_read_turn_pure_def udt_error_def Let_def split: sum.splits if_splits option.splits)
next
  case (6 j)
  then have "udt_counts ops (udt_stream j)" by (simp add: udt_read_contract_def)
  then show ?case by (simp add: UdtInner_read_in_range UdtInner_read_pure_def split: prod.split sum.split option.split)
next
  case (7 j j')
  then show ?case
    by (auto simp: same_receiving_udt_def intro: udt_awaits_more [where c = "[]", simplified])
next
  case (4 k x k')
  then show ?case
    by (auto simp: udt_read_from_buffer_pure_def udt_read_header_pure_def Let_def
        split: if_splits option.splits sum.splits bool.splits)
qed (simp_all add: udt_error_def udt_read_finds)

abbreviation udt_reading ::
  "('s, 'u, 'f) udt_ops \<Rightarrow> udt_limits \<Rightarrow> (byte list \<Rightarrow> SerialisationError + 'm) \<Rightarrow> ('s \<Rightarrow> byte list) \<Rightarrow>
     ('s, 'u) UdtInner \<Rightarrow> 'm option res list \<Rightarrow> ('s, 'u) UdtInner \<Rightarrow> bool" where
  "udt_reading ops lim de taken \<equiv> reading (UdtInner_read ops lim de) (same_receiving_udt taken)"

section \<open>Properties\<close>

lemma udt_encode_Some: "udt_encode se w = Inr (Some (p, m, f)) \<Longrightarrow> udt_frame se m = Inr f"
  by (auto simp: udt_encode_def try_op_eq_Inr split: option.splits)

text \<open>
  C13. Two UDT sockets and the connection between them, as for TCP. The encoding must be one whose
  values end by themselves (\<open>reads_back\<close>), and every message written must have an encoding, empty or
  not, that is not longer than the receiver's \<open>MAX_PAYLOAD_SIZE\<close> and shorter than 2^32 bytes
  (\<open>udt_fits\<close>). Then, after any session of the sender and any calls of \<open>read\<close> at any times on the
  receiver, the messages got are messages that were written, in sending order and without a gap; the
  only errors are those of the library, and a further call does not panic. When everything has been
  sent and taken and \<open>read\<close> answers \<open>None\<close>, every message that was not dropped has arrived.
\<close>

theorem udt_connection_delivers:
  assumes "udt_session ops lim se sent i0 es i" and "udt_sends ops sent i0" and "udt_pending i0 = []"
    and "sent (udt_lib i0) = []"
    and "udt_reading ops' lim' de taken j0 rs j" and "udt_read_contract ops' (udt_stream j0) taken"
    and "udt_read_len j0 = 0" and "udt_read_buffer j0 = []" and "taken (udt_lib j0) = []"
    and "reads_back se de" and "\<forall>x\<in>set es. udt_fits lim' (snd (snd (snd x)))"
    and "taken (udt_lib j) @ missing = sent (udt_lib i)"
  shows "\<exists>out v left. delivered (limits_conf lim) es out v \<and> messages out = handed_out rs @ left \<and>
    (\<forall>e. Inl e \<in> set rs \<longrightarrow> e = ZeroByteRead \<or> (\<exists>x. e = Udt x) \<or> (\<exists>n. e = UdtNegativeBytesRead n \<and> sint n < 0)) \<and>
    UdtInner_read ops' lim' de j \<noteq> Some Panicked \<and>
    (udt_pending i = [] \<and> missing = [] \<and> rs \<noteq> [] \<and> last rs = Inr None \<longrightarrow> left = [] \<and> v = [])"
proof -
  have "flatten (udt_write_queue i0) = []" "udt_line sent i0 = []"
    using assms(3,4) by (simp_all add: udt_pending_empty)
  with udt_mail.session_invariant [OF assms(1,2)] obtain out v where
    inv: "flatten (udt_write_queue i) = retag snd v" "udt_line sent i = concat (frames out)"
      "delivered (limits_conf lim) es out v"
    and framed: "\<forall>x\<in>set es. \<exists>w. udt_encode se w = Inr (Some (fst x, snd (snd x)))"
    by (auto dest!: in_order_frames)
  define rest where "rest = (case udt_current_write i of None \<Rightarrow> [] | Some d \<Rightarrow> d)"
  have "set out \<subseteq> set es" using delivered_subset [OF inv(3)] by simp
  with framed assms(11) have fs: "udt_frames_of se lim' (messages out) (frames out)"
    by (fastforce simp: udt_frames_of_def list_all2_map1 list_all2_map2 list_all2_same dest: udt_encode_Some)
  have "udt_unread j0 (frames out) (taken (udt_lib j) @ missing @ rest)"
    using assms(7,8,12) inv(2) by (intro udt_unread_between) (simp_all add: udt_line_def rest_def flip: append_assoc)
  with fs assms(10) have "udt_awaits se de lim' j0 (messages out) (taken (udt_lib j) @ missing @ rest)"
    by (auto simp: udt_awaits_def)
  moreover have reads: "udt_read_contract ops' (udt_stream j) taken"
    using udt_reader.reading_answers [OF assms(5,6,9)] by blast
  ultimately obtain left where left: "messages out = handed_out rs @ left"
    "\<forall>e. Inl e \<in> set rs \<longrightarrow> udt_error e"
    "rs \<noteq> [] \<and> last rs = Inr None \<and> missing @ rest = [] \<longrightarrow> left = []"
    using udt_reader.reading_answers [OF assms(5,6,9)] by blast
  have "UdtInner_read ops' lim' de j \<noteq> Some Panicked"
    using reads by (simp add: udt_read_contract_def UdtInner_read_in_range)
  moreover have "v = [] \<and> rest = []" if "udt_pending i = []"
    using udt_pending_empty [OF that] inv(1) that
    by (auto simp: udt_pending_def pending_of_def rest_def split: option.splits)
  ultimately show ?thesis using inv(3) left unfolding udt_error_def by blast
qed

text \<open>A library that sends byte by byte, and hands out one frame and remembers it.\<close>

definition one_frame_ops :: "(byte list, nat, unit) udt_ops" where
  "one_frame_ops = sample_udt_ops\<lparr>
     ut_send := (\<lambda>s u d. (Inr (if d = [] then 0 else 1), s @ take 1 d)),
     ut_recv := (\<lambda>s u n.
     if s = [] then (Inr (5, [1, 0, 0, 0, 9]), [1, 0, 0, 0, 9])
     else (Inl \<lparr> err_code = 6002, failure = \<lparr> err_msg = [] \<rparr> \<rparr>, s)) \<rparr>"

definition one_byte :: "byte list \<Rightarrow> SerialisationError + byte list" where
  "one_byte m = (if length m = 1 then Inr m else Inl (SerialisationError []))"

lemma one_frame_session:
  "udt_session one_frame_ops sample_limits one_byte id (sample_udt [] []) [(1, 0, [9], [1, 0, 0, 0, 9])]
     (sample_udt [1, 0, 0, 0, 9] [])"
proof -
  have "UdtInner_write one_frame_ops sample_limits one_byte (\<lambda>_. 0) 0 (Some ([9], 1)) (sample_udt [] []) =
      Some (Done (Inr True, sample_udt [1, 0, 0, 0, 9] []))"
    by (simp add: UdtInner_write_def udt_drop_expired_def udt_expired_keys_def udt_frame_def udt_push_def
        udt_next_def rust_loop.simps udt_send_turn_eq take_or_next_def sample_udt_def sample_udt_ops_def one_frame_ops_def
        le32_encode_def one_byte_def)
  then have "udt_session one_frame_ops sample_limits one_byte id (sample_udt [] [])
      ([] @ arrival 0 (Some (1, [9], [1, 0, 0, 0, 9]))) (sample_udt [1, 0, 0, 0, 9] [])"
    by (intro session.wrote [OF session.opened, where w = "Some ([9], 1)" and t = "\<lambda>_. 0" and b = True])
      (simp_all add: udt_encode_def udt_frame_def le32_encode_def one_byte_def)
  then show ?thesis by (simp add: arrival_def)
qed

theorem udt_connection_delivers_witness:
  "\<exists>out v left. delivered (limits_conf sample_limits) [(1, 0, [9 :: byte], [1, 0, 0, 0, 9])] out v \<and>
    messages out = [9] # left \<and> UdtInner_read one_frame_ops sample_limits (\<lambda>bs. Inr (take 1 bs)) (sample_udt [] []) =
      Some (Done (Inr (Some [9 :: byte]), sample_udt [1, 0, 0, 0, 9] []))"
proof -
  let ?de = "\<lambda>bs :: byte list. Inr (take 1 bs)"
  let ?i = "sample_udt [] []" and ?j = "sample_udt [1, 0, 0, 0, 9] []"
  have counts: "udt_counts one_frame_ops u" for u
    by (auto simp: udt_counts_def one_frame_ops_def split: if_splits)
  have read: "UdtInner_read one_frame_ops sample_limits ?de ?i = Some (Done (Inr (Some [9]), ?j))"
    unfolding UdtInner_read_in_range [OF counts]
    by (simp add: UdtInner_read_pure_def udt_read_from_buffer_pure_def udt_read_header_pure_def rust_loop.simps udt_read_turn_pure_def
        one_frame_ops_def sample_udt_ops_def sample_udt_def sample_limits_def Let_def)
  have "udt_reading one_frame_ops sample_limits ?de id ?i ([] @ [Inr (Some [9])]) ?j"
    by (rule reading.called [OF reading.opened]) (rule read)
  then have reading: "udt_reading one_frame_ops sample_limits ?de id ?i [Inr (Some [9])] ?j" by simp
  have good: "udt_sends one_frame_ops id ?i"
    by (auto simp: udt_sends_def udt_ok_def udt_queue_ok_def as_queue_def oq_ok_def btree_ok_def sample_udt_def
        udt_write_contract_def sample_udt_ops_def one_frame_ops_def Suc_le_eq split: if_splits)
  have empty: "udt_pending ?i = []" "id (udt_lib ?i) = []" "udt_read_len ?i = 0" "udt_read_buffer ?i = []"
    by (simp_all add: udt_pending_def pending_of_def sample_udt_def)
  have contract: "udt_read_contract one_frame_ops (udt_stream ?i) id"
    using counts by (auto simp: udt_read_contract_def one_frame_ops_def sample_udt_ops_def split: if_splits)
  have rb: "reads_back one_byte ?de"
    by (auto simp: reads_back_def one_byte_def split: if_splits)
  have fits: "\<forall>x\<in>set [(1, 0, [9 :: byte], [1, 0, 0, 0, 9])]. udt_fits sample_limits (snd (snd (snd x)))"
    by (simp add: udt_fits_def sample_limits_def)
  have "id (udt_lib ?j) @ [] = id (udt_lib ?j)" by simp
  from udt_connection_delivers [OF one_frame_session good empty(1,2) reading contract empty(3,4,2) rb fits this] read
  show ?thesis by auto
qed

end
