(* ===== verification/Udt_Loop_Run.thy ===== *)
theory Udt_Loop_Run
  imports Udt_Loop
begin

text \<open>
  The thread of the UDT event loop as a whole (\<open>event_loop_impl\<close> of
  \<open>src/src/udt/udt_event_loop.rs\<close>): its \<open>loop\<close> over the turns of \<open>Udt_Loop\<close>. What the handles have
  queued when turn \<open>n\<close> drains the set, in the order in which the \<open>HashSet\<close> iterates, is \<open>drains n\<close>.
\<close>

section \<open>The loop\<close>

definition event_loop_body ::
  "('w, 'e, 'u) epoll_ops \<Rightarrow> (nat \<Rightarrow> 'u QueuedAction list) \<Rightarrow>
     nat \<times> ('e, 'u) event_loop \<Rightarrow> (nat \<times> ('e, 'u) event_loop) + ('e, 'u) event_loop" where
  "event_loop_body ops drains = (\<lambda>(n, l).
     (case event_loop_turn ops (drains n) l of
        (l', go_on) \<Rightarrow> if go_on then Inl (Suc n, l') else Inr l'))"

definition initial_loop :: "'e \<Rightarrow> ('e, 'u) event_loop" where
  "initial_loop e = \<lparr> epoll = e, token_map = (\<lambda>_. None), notified = [] \<rparr>"

definition event_loop_impl ::
  "('w, 'e, 'u) epoll_ops \<Rightarrow> (nat \<Rightarrow> 'u QueuedAction list) \<Rightarrow> 'e \<Rightarrow> ('e, 'u) event_loop option" where
  "event_loop_impl ops drains e = rust_loop (event_loop_body ops drains) (0, initial_loop e)"

text \<open>The state after \<open>n\<close> turns, if the loop has not returned by then.\<close>

fun loop_after ::
  "('w, 'e, 'u) epoll_ops \<Rightarrow> (nat \<Rightarrow> 'u QueuedAction list) \<Rightarrow> 'e \<Rightarrow> nat \<Rightarrow> ('e, 'u) event_loop option" where
  "loop_after ops drains e 0 = Some (initial_loop e)"
| "loop_after ops drains e (Suc n) =
     (case loop_after ops drains e n of
        None \<Rightarrow> None
      | Some l \<Rightarrow>
          (case event_loop_turn ops (drains n) l of (l', go_on) \<Rightarrow> if go_on then Some l' else None))"

lemma start_event_loop_initial:
  "start_event_loop ops w = try_op (Udt \<circ> failure) (ep_create ops w) (\<lambda>e. Inr (initial_loop e, Some {}))"
  by (simp add: start_event_loop_def initial_loop_def)

lemma apply_actions_go_on: "snd (apply_actions ops actions l) \<longleftrightarrow> ShutdownEventLoop \<notin> set actions"
proof (induction actions arbitrary: l)
  case (Cons a actions)
  then show ?case
    using apply_action_None [of ops a l] by (auto split: option.split)
qed simp

lemma turn_go_on: "snd (event_loop_turn ops actions l) \<longleftrightarrow> ShutdownEventLoop \<notin> set actions"
  by (simp add: event_loop_turn_def apply_actions_go_on)

lemma apply_actions_notified [simp]: "notified (fst (apply_actions ops actions l)) = notified l"
  by (induction actions arbitrary: l) (auto simp: apply_action_notified split: option.split)

lemma turn_notified [simp]: "notified (fst (event_loop_turn ops actions l)) = notified (wait_and_notify ops l)"
  by (simp add: event_loop_turn_def)

lemma loop_after_Some:
  "(\<exists>l. loop_after ops drains e n = Some l) \<longleftrightarrow> (\<forall>k<n. ShutdownEventLoop \<notin> set (drains k))"
proof (induction n)
  case (Suc n)
  show ?case
  proof (cases "loop_after ops drains e n")
    case None
    with Suc show ?thesis by (auto simp: less_Suc_eq)
  next
    case (Some l)
    with Suc turn_go_on [of ops "drains n" l] show ?thesis
      by (auto simp: less_Suc_eq split: prod.splits)
  qed
qed simp

lemma event_loop_impl_after:
  "loop_after ops drains e n = Some l \<Longrightarrow> event_loop_impl ops drains e = rust_loop (event_loop_body ops drains) (n, l)"
proof (induction n arbitrary: l)
  case 0
  then show ?case by (simp add: event_loop_impl_def)
next
  case (Suc n)
  then obtain l0 where l0: "loop_after ops drains e n = Some l0" "event_loop_turn ops (drains n) l0 = (l, True)"
    by (auto split: option.splits prod.splits if_splits)
  with Suc.IH [OF l0(1)] show ?case by (simp add: rust_loop_Inl event_loop_body_def)
qed

section \<open>The loop taken apart\<close>

text \<open>
  Registrations: the last action on a socket counts. The epoll goes through its own calls only, and
  in each turn the sockets it reports are looked up.
\<close>

definition registered :: "'u QueuedAction list \<Rightarrow> 'u \<Rightarrow> Token option" where
  "registered actions s =
     (let mine = filter (concerns s) actions in if mine = [] then None else token_after (last mine))"

fun epoll_action :: "('w, 'e, 'u) epoll_ops \<Rightarrow> 'u QueuedAction \<Rightarrow> 'e \<Rightarrow> 'e" where
  "epoll_action ops (Register s _ event_set) e = snd (ep_add ops (snd (ep_remove ops e s)) s (Some event_set))"
| "epoll_action ops (Deregister s) e = snd (ep_remove ops e s)"
| "epoll_action ops ShutdownEventLoop e = e"

fun epoll_after :: "('w, 'e, 'u) epoll_ops \<Rightarrow> (nat \<Rightarrow> 'u QueuedAction list) \<Rightarrow> 'e \<Rightarrow> nat \<Rightarrow> 'e" where
  "epoll_after ops drains e 0 = e"
| "epoll_after ops drains e (Suc n) =
     fold (epoll_action ops) (drains n) (snd (ep_wait ops (epoll_after ops drains e n)))"

definition drained :: "(nat \<Rightarrow> 'u QueuedAction list) \<Rightarrow> nat \<Rightarrow> 'u QueuedAction list" where
  "drained drains n = concat (map drains [0..<n])"

definition reports ::
  "('w, 'e, 'u) epoll_ops \<Rightarrow> (nat \<Rightarrow> 'u QueuedAction list) \<Rightarrow> 'e \<Rightarrow> nat \<Rightarrow> (readiness \<times> Token) list" where
  "reports ops drains e n =
     (case fst (ep_wait ops (epoll_after ops drains e n)) of
        Inl _ \<Rightarrow> []
      | Inr (rs, ws) \<Rightarrow>
          events_for Readable (registered (drained drains n)) rs @ events_for Writable (registered (drained drains n)) ws)"

lemma drained_Suc [simp]: "drained drains (Suc n) = drained drains n @ drains n"
  by (simp add: drained_def)

lemma registered_append:
  "registered (as @ bs) s =
     (if filter (concerns s) bs = [] then registered as s else token_after (last (filter (concerns s) bs)))"
  by (simp add: registered_def Let_def)

lemma apply_actions_epoll:
  "ShutdownEventLoop \<notin> set actions \<Longrightarrow>
     epoll (fst (apply_actions ops actions l)) = fold (epoll_action ops) actions (epoll l)"
proof (induction actions arbitrary: l)
  case (Cons a actions)
  then obtain l' where l': "apply_action ops a l = Some l'"
    using apply_action_None [of ops a l] by fastforce
  then have "epoll l' = epoll_action ops a (epoll l)"
    by (cases a) (auto simp: apply_action_def Let_def)
  with Cons l' show ?case by simp
qed simp

lemma wait_and_notify_epoll: "epoll (wait_and_notify ops l) = snd (ep_wait ops (epoll l))"
  by (simp add: wait_and_notify_def split: prod.split sum.split)

lemma loop_after_Suc:
  assumes "loop_after ops drains e (Suc n) = Some l"
  obtains l0 where "loop_after ops drains e n = Some l0" "event_loop_turn ops (drains n) l0 = (l, True)"
    "ShutdownEventLoop \<notin> set (drains n)"
proof (cases "loop_after ops drains e n")
  case None
  with assms show ?thesis by simp
next
  case (Some l0)
  with assms have "event_loop_turn ops (drains n) l0 = (l, True)" by (auto split: prod.splits if_splits)
  with Some turn_go_on [of ops "drains n" l0] show ?thesis by (intro that) simp_all
qed

lemma loop_after_token_map:
  "loop_after ops drains e n = Some l \<Longrightarrow> token_map l = registered (drained drains n)"
proof (induction n arbitrary: l)
  case 0
  then show ?case by (auto simp: initial_loop_def registered_def drained_def)
next
  case (Suc n)
  from Suc.prems obtain l0 where l0: "loop_after ops drains e n = Some l0"
    "event_loop_turn ops (drains n) l0 = (l, True)" "ShutdownEventLoop \<notin> set (drains n)" by (rule loop_after_Suc)
  with Suc.IH [OF l0(1)] apply_actions_token_map [OF l0(3), of ops "wait_and_notify ops l0"] show ?case
    by (auto simp: fun_eq_iff registered_append event_loop_turn_def)
qed

lemma loop_after_epoll:
  "loop_after ops drains e n = Some l \<Longrightarrow> epoll l = epoll_after ops drains e n"
proof (induction n arbitrary: l)
  case (Suc n)
  from Suc.prems obtain l0 where l0: "loop_after ops drains e n = Some l0"
    "event_loop_turn ops (drains n) l0 = (l, True)" "ShutdownEventLoop \<notin> set (drains n)" by (rule loop_after_Suc)
  with Suc.IH [OF l0(1)] apply_actions_epoll [OF l0(3), of ops "wait_and_notify ops l0"] show ?case
    by (simp add: event_loop_turn_def wait_and_notify_epoll)
qed (simp add: initial_loop_def)

lemma notified_after:
  assumes "loop_after ops drains e n = Some l"
  shows "notified (wait_and_notify ops l) = notified l @ reports ops drains e n"
  using loop_after_token_map [OF assms] loop_after_epoll [OF assms]
  by (auto simp: wait_and_notify_def reports_def split: prod.splits sum.splits)

lemma loop_after_notified:
  "loop_after ops drains e n = Some l \<Longrightarrow> notified l = concat (map (reports ops drains e) [0..<n])"
proof (induction n arbitrary: l)
  case (Suc n)
  from Suc.prems obtain l0 where l0: "loop_after ops drains e n = Some l0"
    "event_loop_turn ops (drains n) l0 = (l, True)" by (rule loop_after_Suc)
  from turn_notified [of ops "drains n" l0] l0(2) Suc.IH [OF l0(1)] notified_after [OF l0(1)] show ?case
    by simp
qed (simp add: initial_loop_def)



text \<open>Once the loop is told to shut down it is about to, or has.\<close>

lemma udt_reachable_closing:
  "udt_reachable ops w past l sh \<Longrightarrow>
     (case sh of
        None \<Rightarrow> ShutdownEventLoop \<in> past
      | Some q \<Rightarrow> ShutdownEventLoop \<in> past \<longrightarrow> ShutdownEventLoop \<in> q)"
proof (induction rule: udt_reachable.induct)
  case (started l sh)
  then show ?case by (auto simp: start_event_loop_def try_op_def split: sum.splits)
next
  case (turned past l q actions l' go_on)
  with udt_reachable_tokens [OF turned(1)] turn_go_on [of ops actions l]
  show ?case by (cases go_on) auto
next
  case (dropped past l sh)
  then show ?case by (simp add: EpollLoop_drop_def split: option.split)
next
  case (registered past l sh)
  then show ?case by (cases sh) (auto simp: Handle_register_def)
next
  case (deregistered past l sh)
  then show ?case by (cases sh) (auto simp: Handle_deregister_def)
qed

section \<open>Properties\<close>

text \<open>
  C19. The UDT event loop is its reference: after any number of turns the registrations are what the
  last action on each socket left, the epoll has seen exactly its waits and the actions in the order
  applied, and the notifier has been given, turn by turn, the events of the reported sockets that
  were registered before that turn, and nothing else.
\<close>

theorem udt_loop_is_reference:
  assumes "loop_after ops drains e n = Some l"
  shows "token_map l = registered (drained drains n) \<and> epoll l = epoll_after ops drains e n \<and>
    notified l = concat (map (reports ops drains e) [0..<n])"
  using loop_after_token_map [OF assms] loop_after_epoll [OF assms] loop_after_notified [OF assms] by blast

text \<open>One registration, drained in the first turn.\<close>

definition one_registration :: "nat \<Rightarrow> nat QueuedAction list" where
  "one_registration n = (if n = 0 then [sample_registration] else [])"

lemma one_registration_simps [simp]: "one_registration 0 = [sample_registration]" "one_registration (Suc n) = []"
  by (simp_all add: one_registration_def)

lemma sample_loop_after:
  "loop_after sample_epoll one_registration () 2 =
     Some (sample_loop\<lparr> token_map := (\<lambda>_. None)(1 := Some 7), notified := [(Readable, 7)] \<rparr>)"
  by (simp add: numeral_2_eq_2 event_loop_turn_def wait_and_notify_def events_for_def map_filter_def
      apply_action_def sample_epoll_def sample_loop_def sample_registration_def initial_loop_def)

theorem udt_loop_is_reference_witness:
  "registered (drained one_registration 2) = (\<lambda>_. None)(1 := Some 7) \<and>
   concat (map (reports sample_epoll one_registration ()) [0..<2]) = [(Readable, 7)]"
  using udt_loop_is_reference [OF sample_loop_after] by simp

text \<open>
  C20. The thread of the event loop returns exactly when it is told to shut down: at the end of the
  first turn that drains a \<open>ShutdownEventLoop\<close>, wherever the iteration puts it, after the
  notifications of that turn. Without one it never returns.
\<close>

theorem udt_loop_ends_when_told:
  "case event_loop_impl ops drains e of
     None \<Rightarrow> \<forall>n. ShutdownEventLoop \<notin> set (drains n)
   | Some l \<Rightarrow> \<exists>n. ShutdownEventLoop \<in> set (drains n) \<and> (\<forall>k<n. ShutdownEventLoop \<notin> set (drains k)) \<and>
       notified l = concat (map (reports ops drains e) [0..<Suc n])"
proof (cases "\<exists>n. ShutdownEventLoop \<in> set (drains n)")
  case True
  then obtain n where n: "ShutdownEventLoop \<in> set (drains n)" "\<forall>k<n. ShutdownEventLoop \<notin> set (drains k)"
    using exists_least_iff [of "\<lambda>n. ShutdownEventLoop \<in> set (drains n)"] by blast
  from iffD2 [OF loop_after_Some [of ops drains e n] n(2)] obtain l where l: "loop_after ops drains e n = Some l" by blast
  obtain l' where turn: "event_loop_turn ops (drains n) l = (l', False)"
    using turn_go_on [of ops "drains n" l] n(1) by (cases "event_loop_turn ops (drains n) l") simp
  have "event_loop_impl ops drains e = Some l'"
    using event_loop_impl_after [OF l] turn by (simp add: rust_loop_Inr event_loop_body_def)
  moreover have "notified l' = concat (map (reports ops drains e) [0..<Suc n])"
    using turn_notified [of ops "drains n" l] turn notified_after [OF l] loop_after_notified [OF l] by simp
  ultimately show ?thesis using n by auto
next
  case False
  have "rust_loop (event_loop_body ops drains) (0, initial_loop e) = None"
  proof (rule rust_loop_diverges [where P = "\<lambda>_. True"])
    fix s show "\<exists>s'. event_loop_body ops drains s = Inl s' \<and> True"
      using turn_go_on [of ops "drains (fst s)" "snd s"] False
      by (auto simp: event_loop_body_def split: prod.splits)
  qed simp
  with False show ?thesis by (simp add: event_loop_impl_def)
qed

theorem udt_loop_ends_when_told_witness:
  "\<exists>l. event_loop_impl sample_epoll (\<lambda>_. [ShutdownEventLoop]) () = Some l \<and> notified l = []"
proof -
  have "reports sample_epoll (\<lambda>_. [ShutdownEventLoop]) () 0 = []"
    by (simp add: reports_def sample_epoll_def drained_def registered_def events_for_def map_filter_def)
  moreover have "n = 0" if "\<forall>k<n. ShutdownEventLoop \<notin> set [ShutdownEventLoop]" for n :: nat
    using that by (cases n) auto
  ultimately show ?thesis
    using udt_loop_ends_when_told [where ops = sample_epoll and drains = "\<lambda>_. [ShutdownEventLoop]" and e = "()"]
    by (fastforce split: option.splits)
qed



text \<open>
  C37. A handle is refused exactly after the end: in every reachable state of the loop and its handles, a call of a handle fails only with
  \<open>NoUdtEpoll\<close>, only when the \<open>EpollLoop\<close> has been dropped, and changes nothing. Conversely, once it has been
  dropped, every turn that is still to come is the last, in whatever order it applies what was
  queued, and leaves all handles refused.
\<close>

theorem udt_refused_after_drop:
  assumes "udt_reachable ops w past l sh"
  shows "(Handle_register is_readable is_writable s token interest sh = (Inl err, sh') \<or>
      Handle_deregister s sh = (Inl err, sh') \<longrightarrow>
        err = NoUdtEpoll \<and> ShutdownEventLoop \<in> past \<and> sh' = sh) \<and>
    (ShutdownEventLoop \<in> past \<and> sh = Some q \<and> set actions = q \<and>
      event_loop_turn ops actions l = (l', go_on) \<longrightarrow> \<not> go_on)"
proof -
  have told: "ShutdownEventLoop \<in> past" if "sh = None"
    using udt_reachable_closing [OF assms] that by simp
  have last: "ShutdownEventLoop \<in> q" if "ShutdownEventLoop \<in> past" "sh = Some q"
    using udt_reachable_closing [OF assms] that by simp
  have refused: "err = NoUdtEpoll \<and> sh = None \<and> sh' = sh"
    if "Handle_register is_readable is_writable s token interest sh = (Inl err, sh') \<or>
      Handle_deregister s sh = (Inl err, sh')"
    using that by (cases sh) (auto simp: Handle_register_def Handle_deregister_def)
  from told refused last turn_go_on [of ops actions l] show ?thesis by auto
qed

theorem udt_refused_after_drop_witness:
  "Handle_deregister (1 :: nat) None = (Inl NoUdtEpoll, None) \<and>
   ShutdownEventLoop \<in> {ShutdownEventLoop, sample_registration}"
proof -
  let ?l = "sample_loop\<lparr> token_map := (\<lambda>_. None)(1 := Some 7), notified := [(Readable, 7)] \<rparr>"
  from udt_reachable.dropped [OF sample_reachable]
  have "udt_reachable sample_epoll () {ShutdownEventLoop, sample_registration} ?l (Some {ShutdownEventLoop})"
    by (simp add: EpollLoop_drop_def)
  from udt_reachable.turned [OF this, of "[ShutdownEventLoop]" _ False]
  have closed: "udt_reachable sample_epoll () {ShutdownEventLoop, sample_registration}
      (wait_and_notify sample_epoll ?l) None"
    by (auto simp: event_loop_turn_def apply_action_def)
  from udt_refused_after_drop [OF closed, of _ _ 1 0 0 NoUdtEpoll None] show ?thesis
    by (simp add: Handle_deregister_def)
qed

end
