(* ===== verification/Socket_Enum.thy ===== *)
theory Socket_Enum
  imports Tcp_Sock Udp_Sock
begin

text \<open>
  \<open>src/src/socket.rs\<close>: the protocol agnostic socket, a tagged union of the two sockets. Each
  operation is handed on to the socket inside; the UDP and the TCP side see different parts of the
  operating system, hence the two records of calls.
\<close>

datatype ('u, 't, 'k) Socket = Udp "('u, 'k) UdpSock" | Tcp "('t, 'k) TcpSock"

definition Socket_set_encrypt_ctx ::
  "'k EncryptContext \<Rightarrow> ('u, 't, 'k) Socket \<Rightarrow> unit res \<times> ('u, 't, 'k) Socket" where
  "Socket_set_encrypt_ctx ctx s =
     (case s of
        Udp us \<Rightarrow> apsnd Udp (UdpSock_set_encrypt_ctx ctx us)
      | Tcp ts \<Rightarrow> apsnd Tcp (TcpSock_set_encrypt_ctx ctx ts))"

definition Socket_set_decrypt_ctx ::
  "'k DecryptContext \<Rightarrow> ('u, 't, 'k) Socket \<Rightarrow> unit res \<times> ('u, 't, 'k) Socket" where
  "Socket_set_decrypt_ctx ctx s =
     (case s of
        Udp us \<Rightarrow> apsnd Udp (UdpSock_set_decrypt_ctx ctx us)
      | Tcp ts \<Rightarrow> apsnd Tcp (TcpSock_set_decrypt_ctx ctx ts))"

definition Socket_local_addr ::
  "'u udp_ops \<Rightarrow> 't tcp_ops \<Rightarrow> ('u, 't, 'k) Socket \<Rightarrow> SocketAddr res \<times> ('u, 't, 'k) Socket" where
  "Socket_local_addr uops tops s =
     (case s of
        Udp us \<Rightarrow> apsnd Udp (UdpSock_local_addr uops us)
      | Tcp ts \<Rightarrow> apsnd Tcp (TcpSock_local_addr tops ts))"

definition Socket_peer_addr ::
  "'t tcp_ops \<Rightarrow> ('u, 't, 'k) Socket \<Rightarrow> SocketAddr res \<times> ('u, 't, 'k) Socket" where
  "Socket_peer_addr tops s =
     (case s of
        Udp us \<Rightarrow> apsnd Udp (UdpSock_peer_addr us)
      | Tcp ts \<Rightarrow> apsnd Tcp (TcpSock_peer_addr tops ts))"

definition Socket_set_ttl ::
  "'u udp_ops \<Rightarrow> 't tcp_ops \<Rightarrow> u32 \<Rightarrow> ('u, 't, 'k) Socket \<Rightarrow> unit res \<times> ('u, 't, 'k) Socket" where
  "Socket_set_ttl uops tops ttl s =
     (case s of
        Udp us \<Rightarrow> apsnd Udp (UdpSock_set_ttl uops ttl us)
      | Tcp ts \<Rightarrow> apsnd Tcp (TcpSock_set_ttl tops ttl ts))"

definition Socket_ttl ::
  "'u udp_ops \<Rightarrow> 't tcp_ops \<Rightarrow> ('u, 't, 'k) Socket \<Rightarrow> u32 res \<times> ('u, 't, 'k) Socket" where
  "Socket_ttl uops tops s =
     (case s of
        Udp us \<Rightarrow> apsnd Udp (UdpSock_ttl uops us)
      | Tcp ts \<Rightarrow> apsnd Tcp (TcpSock_ttl tops ts))"

definition Socket_take_error ::
  "'u udp_ops \<Rightarrow> 't tcp_ops \<Rightarrow> ('u, 't, 'k) Socket \<Rightarrow> io_error option res \<times> ('u, 't, 'k) Socket" where
  "Socket_take_error uops tops s =
     (case s of
        Udp us \<Rightarrow> apsnd Udp (UdpSock_take_error uops us)
      | Tcp ts \<Rightarrow> apsnd Tcp (TcpSock_take_error tops ts))"


definition Socket_read ::
  "'u udp_ops \<Rightarrow> 't tcp_ops \<Rightarrow> ('k, u32) codec \<Rightarrow> ('k, 'm) codec \<Rightarrow> ('u, 't, 'k) Socket \<Rightarrow>
     ('m option res \<times> ('u, 't, 'k) Socket) outcome option" where
  "Socket_read uops tops hc mc s =
     (case s of
        Udp us \<Rightarrow> map_option (map_outcome (apsnd Udp)) (UdpSock_read uops mc us)
      | Tcp ts \<Rightarrow> map_option (map_outcome (apsnd Tcp)) (TcpSock_read tops hc mc ts))"

definition Socket_write ::
  "'u udp_ops \<Rightarrow> 't tcp_ops \<Rightarrow> ('k, u32) codec \<Rightarrow> ('k, 'm) codec \<Rightarrow> nat \<Rightarrow> readings \<Rightarrow> instant \<Rightarrow>
     ('m \<times> Priority) option \<Rightarrow> ('u, 't, 'k) Socket \<Rightarrow>
     (bool res \<times> ('u, 't, 'k) Socket) outcome option" where
  "Socket_write uops tops hc mc rng t_drop t_push msg s =
     (case s of
        Udp us \<Rightarrow> map_option (map_outcome (apsnd Udp)) (UdpSock_write uops mc rng t_drop t_push msg us)
      | Tcp ts \<Rightarrow> map_option (map_outcome (apsnd Tcp)) (TcpSock_write tops hc mc rng t_drop t_push msg ts))"

text \<open>Lingering means nothing to UDP: the call does nothing, even on an uninitialised socket.\<close>

definition Socket_set_linger ::
  "'t tcp_ops \<Rightarrow> Duration option \<Rightarrow> ('u, 't, 'k) Socket \<Rightarrow> unit res \<times> ('u, 't, 'k) Socket" where
  "Socket_set_linger tops dur s =
     (case s of
        Udp us \<Rightarrow> (Inr (), Udp us)
      | Tcp ts \<Rightarrow> apsnd Tcp (TcpSock_set_linger tops dur ts))"

definition Socket_from_udp :: "('u, 'k) UdpSock \<Rightarrow> ('u, 't, 'k) Socket" where
  "Socket_from_udp us = Udp us"

definition Socket_from_tcp :: "('t, 'k) TcpSock \<Rightarrow> ('u, 't, 'k) Socket" where
  "Socket_from_tcp ts = Tcp ts"

section \<open>The contract of \<open>write\<close>, whatever the transport\<close>

fun socket_ok :: "('u, 't, 'k) Socket \<Rightarrow> bool" where
  "socket_ok (Udp None) = True"
| "socket_ok (Udp (Some i)) = udp_ok i"
| "socket_ok (Tcp None) = True"
| "socket_ok (Tcp (Some i)) = tcp_ok i"

text \<open>What is still to be sent to the connected peer.\<close>

fun socket_pending :: "('u, 't, 'k) Socket \<Rightarrow> byte list list" where
  "socket_pending (Udp None) = []"
| "socket_pending (Udp (Some i)) = udp_pending i"
| "socket_pending (Tcp None) = []"
| "socket_pending (Tcp (Some i)) = tcp_pending i"

fun same_transport :: "('u, 't, 'k) Socket \<Rightarrow> ('u, 't, 'k) Socket \<Rightarrow> bool" where
  "same_transport (Udp a) (Udp b) \<longleftrightarrow> (a = None \<longleftrightarrow> b = None)"
| "same_transport (Tcp a) (Tcp b) \<longleftrightarrow> (a = None \<longleftrightarrow> b = None)"
| "same_transport _ _ \<longleftrightarrow> False"

lemma UdpInner_write_done:
  assumes "UdpInner_write ops mc rng t t' msg i = Some out" and "udp_ok i"
  shows "\<exists>r i'. out = Done (r, i') \<and> udp_ok i' \<and> (\<forall>b. r = Inr b \<longrightarrow> b = (udp_pending i' = []))"
  using assms(2)
proof (cases rule: UdpInner_write_cases [where msg = msg and mc = mc and rng = rng and ops = ops and t = t and t' = t'])
  case (flushed new j)
  with udp_flush.flush_result [of ops j out] assms(1) show ?thesis by auto
qed (use assms(1) in auto)

lemma TcpInner_write_done:
  assumes "TcpInner_write ops hc mc rng t t' msg i = Some out" and "tcp_ok i"
  shows "\<exists>r i'. out = Done (r, i') \<and> tcp_ok i' \<and> (\<forall>b. r = Inr b \<longrightarrow> b = (tcp_pending i' = []))"
  using TcpInner_write_outcome [OF assms] by auto

section \<open>Properties\<close>

text \<open>
  C32. The contract of \<open>write\<close> does not depend on the transport: a call that returns never panics,
  leaves a well-formed socket of the same kind, and with \<open>Ok\<close> it answers \<open>true\<close> exactly when
  nothing is left to send to the peer. On an uninitialised socket it is the error of that name.
\<close>

theorem socket_write_contract:
  assumes "Socket_write uops tops hc mc rng t t' msg s = Some out" and "socket_ok s"
  shows "\<exists>r s'. out = Done (r, s') \<and> socket_ok s' \<and> same_transport s s' \<and>
    (\<forall>b. r = Inr b \<longrightarrow> b = (socket_pending s' = [])) \<and>
    (s = Udp None \<or> s = Tcp None \<longrightarrow> r = Inl UninitialisedSocket)"
proof (cases s rule: socket_ok.cases)
  case (2 i)
  with assms(1) obtain o' where o': "UdpInner_write uops mc rng t t' msg i = Some o'"
    "out = map_outcome (apsnd Udp \<circ> apsnd Some) o'"
    by (auto simp: Socket_write_def UdpSock_write_def guard_defs outcome.map_comp apsnd_def map_prod_def)
  from UdpInner_write_done [OF o'(1)] assms(2) 2 o'(2) show ?thesis by auto
next
  case (4 i)
  with assms(1) obtain o' where o': "TcpInner_write tops hc mc rng t t' msg i = Some o'"
    "out = map_outcome (apsnd Tcp \<circ> apsnd Some) o'"
    by (auto simp: Socket_write_def TcpSock_write_def guard_defs outcome.map_comp apsnd_def map_prod_def)
  from TcpInner_write_done [OF o'(1)] assms(2) 4 o'(2) show ?thesis by auto
qed (use assms in \<open>auto simp: Socket_write_def UdpSock_write_def TcpSock_write_def guard_defs\<close>)

theorem socket_write_contract_witness:
  "\<exists>r s'. Socket_write net_ops pipe_ops le32_codec bytes_codec 0 (\<lambda>_. 0) 0 (Some ([5], 1)) (Udp (Some (sample_udp ([], [], 0)))) =
      Some (Done (r, s')) \<and> same_transport (Udp (Some (sample_udp ([], [], 0)))) s' \<and>
      (\<forall>b. r = Inr b \<longrightarrow> b = (socket_pending s' = []))"
proof -
  let ?s = "Udp (Some (sample_udp ([], [], 0)))"
  have ok: "socket_ok ?s" by (simp add: sample_udp_ok)
  have "UdpInner_write net_ops bytes_codec 0 (\<lambda>_. 0) 0 (Some ([5], 1)) (sample_udp ([], [], 0)) =
     Some (Done (Inr False, (sample_udp ([], [], 0))\<lparr> UdpInner.current_write := Some [5] \<rparr>))"
    by (simp add: UdpInner_write_def UdpInner_flush_write_def rust_loop.simps send_turn_def
        take_or_next_def handle_send_simps is_would_block_def encrypt_def bytes_codec_def net_defs queue_simps)
  then obtain out where "Socket_write net_ops pipe_ops le32_codec bytes_codec 0 (\<lambda>_. 0) 0 (Some ([5], 1)) ?s = Some out"
    by (simp add: Socket_write_def UdpSock_write_def guard_defs)
  from socket_write_contract [OF this ok] this show ?thesis by auto
qed

text \<open>
  \<open>set_linger\<close> never reaches a UDP socket and never fails there, not even on an uninitialised
  one, where every other operation reports \<open>UninitialisedSocket\<close>, as all of them do on TCP.
\<close>

theorem socket_set_linger_on_udp:
  "Socket_set_linger tops dur (Socket_from_udp us) = (Inr (), Socket_from_udp us) \<and>
   Socket_set_linger tops dur (Socket_from_tcp TcpSock_default :: ('u, 't, 'k) Socket) =
     (Inl UninitialisedSocket, Socket_from_tcp TcpSock_default) \<and>
   list_all (\<lambda>s.
      Socket_set_encrypt_ctx e s = (Inl UninitialisedSocket, s) \<and>
      Socket_set_decrypt_ctx d s = (Inl UninitialisedSocket, s) \<and>
      Socket_local_addr uops tops s = (Inl UninitialisedSocket, s) \<and>
      Socket_peer_addr tops s = (Inl UninitialisedSocket, s) \<and>
      Socket_set_ttl uops tops ttl s = (Inl UninitialisedSocket, s) \<and>
      Socket_ttl uops tops s = (Inl UninitialisedSocket, s) \<and>
      Socket_take_error uops tops s = (Inl UninitialisedSocket, s) \<and>
      Socket_read uops tops hc mc s = Some (Done (Inl UninitialisedSocket, s)) \<and>
      Socket_write uops tops hc mc rng t t' msg s = Some (Done (Inl UninitialisedSocket, s)))
     [Socket_from_udp UdpSock_default, Socket_from_tcp TcpSock_default :: ('u, 't, 'k) Socket]"
  by (simp add: Socket_set_linger_def Socket_from_udp_def Socket_from_tcp_def UdpSock_default_def
      TcpSock_default_def TcpSock_set_linger_def guard_defs Socket_set_encrypt_ctx_def
      Socket_set_decrypt_ctx_def Socket_local_addr_def Socket_peer_addr_def Socket_set_ttl_def
      Socket_ttl_def Socket_take_error_def Socket_read_def Socket_write_def TcpSock_set_encrypt_ctx_def
      TcpSock_set_decrypt_ctx_def TcpSock_local_addr_def TcpSock_peer_addr_def TcpSock_set_ttl_def
      TcpSock_ttl_def TcpSock_take_error_def TcpSock_read_def TcpSock_write_def
      UdpSock_set_encrypt_ctx_def UdpSock_set_decrypt_ctx_def UdpSock_local_addr_def
      UdpSock_peer_addr_def UdpSock_set_ttl_def UdpSock_ttl_def UdpSock_take_error_def
      UdpSock_read_def UdpSock_write_def)

end
