(* ===== verification/Socket_Api.thy ===== *)
theory Socket_Api
  imports Socket_Enum
begin

text \<open>
  The public interface as a whole (\<open>src/src/socket.rs\<close>, \<open>tcp.rs\<close>, \<open>udp.rs\<close>): a program that opens a
  socket and makes any sequence of calls on it, while the operating system does what it likes in
  between. A socket has a type, which is whether it is initialised, its transport and the limits it
  was made with; the calls keep it, and none of them panics, be it on an \<open>unwrap\<close> or on a slice.
\<close>

section \<open>Programs\<close>

text \<open>
  Every call a program can make on the socket in a \<open>Socket\<close>. The UDP methods that \<open>Socket\<close> does not
  have itself are reached through its variant; on a TCP socket they do not exist. \<open>Elsewhere\<close> is
  a change that is no call on the socket: data arrives, a buffer drains, a peer resets.
\<close>

datatype ('u, 't, 'k, 'm) call =
    Set_encrypt_ctx "'k EncryptContext"
  | Set_decrypt_ctx "'k DecryptContext"
  | Set_linger "Duration option"
  | Set_ttl u32
  | Ttl
  | Local_addr
  | Peer_addr
  | Take_error
  | Read "('k, 'm) codec"
  | Write "('k, 'm) codec" nat readings instant "('m \<times> Priority) option"
  | Connect SocketAddr
  | Read_frm "('k, 'm) codec"
  | Write_to "('k, 'm) codec" nat readings instant "('m \<times> SocketAddr \<times> Priority) option"
  | Register_at Poll Token Ready PollOpt
  | Reregister_at Poll Token Ready PollOpt
  | Deregister_at Poll
  | Elsewhere "'u \<Rightarrow> 'u" "'t \<Rightarrow> 't"

text \<open>The socket after a call, if the call returns.\<close>

fun perform ::
  "'u udp_ops \<Rightarrow> 't tcp_ops \<Rightarrow> ('k, u32) codec \<Rightarrow> ('u, 't, 'k, 'm) call \<Rightarrow> ('u, 't, 'k) Socket \<Rightarrow>
     ('u, 't, 'k) Socket outcome option" where
  "perform uops tops hc (Set_encrypt_ctx e) s = Some (Done (snd (Socket_set_encrypt_ctx e s)))"
| "perform uops tops hc (Set_decrypt_ctx d) s = Some (Done (snd (Socket_set_decrypt_ctx d s)))"
| "perform uops tops hc (Set_linger dur) s = Some (Done (snd (Socket_set_linger tops dur s)))"
| "perform uops tops hc (Set_ttl ttl) s = Some (Done (snd (Socket_set_ttl uops tops ttl s)))"
| "perform uops tops hc Ttl s = Some (Done (snd (Socket_ttl uops tops s)))"
| "perform uops tops hc Local_addr s = Some (Done (snd (Socket_local_addr uops tops s)))"
| "perform uops tops hc Peer_addr s = Some (Done (snd (Socket_peer_addr tops s)))"
| "perform uops tops hc Take_error s = Some (Done (snd (Socket_take_error uops tops s)))"
| "perform uops tops hc (Read mc) s = map_option (map_outcome snd) (Socket_read uops tops hc mc s)"
| "perform uops tops hc (Write mc rng t t' msg) s =
     map_option (map_outcome snd) (Socket_write uops tops hc mc rng t t' msg s)"
| "perform uops tops hc (Connect addr) s =
     (case s of Udp us \<Rightarrow> Some (Done (Udp (snd (UdpSock_connect uops addr us)))) | Tcp ts \<Rightarrow> Some (Done s))"
| "perform uops tops hc (Read_frm mc) s =
     (case s of
        Udp us \<Rightarrow> map_option (map_outcome (\<lambda>(_, us). Udp us)) (UdpSock_read_frm uops mc us)
      | Tcp ts \<Rightarrow> Some (Done s))"
| "perform uops tops hc (Write_to mc rng t t' msg) s =
     (case s of
        Udp us \<Rightarrow> map_option (map_outcome (\<lambda>(_, us). Udp us)) (UdpSock_write_to uops mc rng t t' msg us)
      | Tcp ts \<Rightarrow> Some (Done s))"
| "perform uops tops hc (Register_at poll token interest opts) s =
     (case s of
        Udp us \<Rightarrow> Some (Done (Udp (snd (UdpSock_register uops poll token interest opts us))))
      | Tcp ts \<Rightarrow> Some (Done (Tcp (snd (TcpSock_register tops poll token interest opts ts)))))"
| "perform uops tops hc (Reregister_at poll token interest opts) s =
     (case s of
        Udp us \<Rightarrow> Some (Done (Udp (snd (UdpSock_reregister uops poll token interest opts us))))
      | Tcp ts \<Rightarrow> Some (Done (Tcp (snd (TcpSock_reregister tops poll token interest opts ts)))))"
| "perform uops tops hc (Deregister_at poll) s =
     (case s of
        Udp us \<Rightarrow> Some (Done (Udp (snd (UdpSock_deregister uops poll us))))
      | Tcp ts \<Rightarrow> Some (Done (Tcp (snd (TcpSock_deregister tops poll ts)))))"
| "perform uops tops hc (Elsewhere f g) s =
     (case s of
        Udp us \<Rightarrow> Some (Done (Udp (map_option (\<lambda>i. i\<lparr> sock := f (sock i) \<rparr>) us)))
      | Tcp ts \<Rightarrow> Some (Done (Tcp (map_option (\<lambda>i. i\<lparr> stream := g (stream i) \<rparr>) ts))))"

text \<open>A program: calls one after the other, until one panics or does not return.\<close>

fun run :: "('c \<Rightarrow> 's \<Rightarrow> 's outcome option) \<Rightarrow> 'c list \<Rightarrow> 's \<Rightarrow> 's outcome option" where
  "run step [] s = Some (Done s)"
| "run step (c # cs) s =
     (case step c s of
        None \<Rightarrow> None
      | Some Panicked \<Rightarrow> Some Panicked
      | Some (Done s') \<Rightarrow> run step cs s')"

text \<open>The ways to get a socket.\<close>

inductive constructed ::
  "'u udp_ops \<Rightarrow> 't tcp_ops \<Rightarrow> ('u, 't, 'k) Socket \<Rightarrow> bool" for uops tops where
  tcp_default: "constructed uops tops (Socket_from_tcp TcpSock_default)"
| tcp_wrap: "constructed uops tops (Socket_from_tcp (TcpSock_wrap stm))"
| tcp_wrap_conf: "constructed uops tops (Socket_from_tcp (TcpSock_wrap_with_conf stm c))"
| tcp_connect: "TcpSock_connect tops w addr = Inr ts \<Longrightarrow> constructed uops tops (Socket_from_tcp ts)"
| tcp_connect_conf: "TcpSock_connect_with_conf tops w addr c = Inr ts \<Longrightarrow>
    constructed uops tops (Socket_from_tcp ts)"
| udp_default: "constructed uops tops (Socket_from_udp UdpSock_default)"
| udp_wrap: "constructed uops tops (Socket_from_udp (UdpSock_wrap so))"
| udp_wrap_conf: "constructed uops tops (Socket_from_udp (UdpSock_wrap_with_conf so c))"
| udp_bind: "UdpSock_bind uops w' addr = Inr us \<Longrightarrow> constructed uops tops (Socket_from_udp us)"
| udp_bind_conf: "UdpSock_bind_with_conf uops w' addr c = Inr us \<Longrightarrow>
    constructed uops tops (Socket_from_udp us)"

section \<open>Calls that keep a property\<close>

text \<open>
  The contract of one call, for an invariant and a relation between the socket before and after,
  and what it gives for programs.
\<close>

locale safe_calls =
  fixes step :: "'c \<Rightarrow> 's \<Rightarrow> 's outcome option"
    and inv :: "'s \<Rightarrow> bool"
    and kept :: "'s \<Rightarrow> 's \<Rightarrow> bool"
  assumes kept_refl: "kept s s"
    and kept_trans: "kept s s' \<Longrightarrow> kept s' s'' \<Longrightarrow> kept s s''"
    and no_panic: "inv s \<Longrightarrow> step c s \<noteq> Some Panicked"
    and step_keeps: "inv s \<Longrightarrow> step c s = Some (Done s') \<Longrightarrow> inv s' \<and> kept s s'"
begin

lemma run_safe:
  "inv s \<Longrightarrow> case run step cs s of
     None \<Rightarrow> True | Some Panicked \<Rightarrow> False | Some (Done s') \<Rightarrow> inv s' \<and> kept s s'"
proof (induction cs arbitrary: s)
  case Nil
  then show ?case by (simp add: kept_refl)
next
  case (Cons c cs)
  show ?case
  proof (cases "step c s")
    case (Some out)
    with no_panic [OF Cons.prems, of c] obtain s1 where s1: "out = Done s1" by (cases out) auto
    with step_keeps [OF Cons.prems, of c s1] Some have "inv s1" "kept s s1" by simp_all
    from Cons.IH [OF this(1)] this(2) Some s1 show ?thesis
      by (auto split: option.splits outcome.splits intro: kept_trans)
  qed simp
qed

text \<open>If every call returns, every program does.\<close>

lemma run_returns:
  assumes returns: "\<And>c s. inv s \<Longrightarrow> step c s \<noteq> None" and "inv s"
  shows "\<exists>s'. run step cs s = Some (Done s') \<and> inv s' \<and> kept s s'"
proof -
  have "run step cs s \<noteq> None"
    using assms(2)
  proof (induction cs arbitrary: s)
    case (Cons c cs)
    with returns [OF Cons.prems, of c] show ?case
      by (auto split: option.splits outcome.splits dest: step_keeps)
  qed simp
  with run_safe [OF assms(2), of cs] show ?thesis
    by (auto split: option.splits outcome.splits)
qed

end

section \<open>What the calls on a TCP socket keep\<close>

text \<open>The limits a socket was made with: the reader's, and those of its queues.\<close>

definition tcp_limits :: "('s, 'k) TcpInner \<Rightarrow> usize option \<times> 'k SocketConfig list" where
  "tcp_limits i = (Some (max_payload_size (msg_reader i)), [conf (TcpInner.out_queue i)])"

definition udp_limits :: "('s, 'k) UdpInner \<Rightarrow> usize option \<times> 'k SocketConfig list" where
  "udp_limits i = (None, [conf (UdpInner.out_queue i), conf (out_queue2 i)])"

lemma try_read_limit: "try_read_pure hc mc rd = (r, rd') \<Longrightarrow> max_payload_size rd' = max_payload_size rd"
  by (auto simp: try_read_pure_def try_read_header_pure_def mark_read_pure_def Let_def
      split: if_splits sum.splits bool.splits)

lemma inner_try_read_keeps:
  "inner_try_read_pure hc mc i = (r, i') \<Longrightarrow>
     tcp_limits i' = tcp_limits i \<and> TcpInner.out_queue i' = TcpInner.out_queue i"
  by (auto simp: inner_try_read_pure_def tcp_limits_def split: prod.splits dest: try_read_limit)

lemma read_turn_keeps:
  shows "read_turn_pure ops hc mc (b, i) = Inl (b', i') \<Longrightarrow>
      tcp_limits i' = tcp_limits i \<and> TcpInner.out_queue i' = TcpInner.out_queue i"
    and "read_turn_pure ops hc mc (b, i) = Inr (r, i') \<Longrightarrow>
      tcp_limits i' = tcp_limits i \<and> TcpInner.out_queue i' = TcpInner.out_queue i"
proof -
  obtain res s where rd: "ts_read ops (stream i) BUF_LEN = (res, s)" by (cases "ts_read ops (stream i) BUF_LEN")
  obtain r' j where j: "inner_try_read_pure hc mc (i\<lparr> stream := s \<rparr>) = (r', j)"
    by (cases "inner_try_read_pure hc mc (i\<lparr> stream := s \<rparr>)")
  have keeps: "tcp_limits j = tcp_limits i \<and> TcpInner.out_queue j = TcpInner.out_queue i"
    using inner_try_read_keeps [OF j] by (simp add: tcp_limits_def)
  show "read_turn_pure ops hc mc (b, i) = Inl (b', i') \<Longrightarrow>
      tcp_limits i' = tcp_limits i \<and> TcpInner.out_queue i' = TcpInner.out_queue i"
    using rd j by (auto simp: read_turn_pure_def tcp_limits_def put_buf_def Let_def
        split: sum.splits if_splits option.splits)
  show "tcp_limits i' = tcp_limits i \<and> TcpInner.out_queue i' = TcpInner.out_queue i"
    if "read_turn_pure ops hc mc (b, i) = Inr (r, i')"
  proof -
    have "i' = i\<lparr> stream := s \<rparr> \<or> i' = j"
      using that rd j by (auto simp: read_turn_pure_def Let_def split: sum.splits if_splits option.splits)
    with keeps show ?thesis by (auto simp: tcp_limits_def)
  qed
qed

lemma TcpInner_read_keeps:
  assumes "TcpInner_read_pure ops hc mc i = Some (r, i')"
  shows "tcp_limits i' = tcp_limits i \<and> (tcp_ok i' \<longleftrightarrow> tcp_ok i)"
proof -
  let ?f = "\<lambda>i. (tcp_limits i, TcpInner.out_queue i)"
  have loop: "?f j' = ?f j" if "rust_loop (read_turn_pure ops hc mc) (False, j) = Some (x, j')" for x j j'
    using rust_loop_keeps [OF that, where f = "\<lambda>(b, i). ?f i" and g = ?f]
    by (auto dest: read_turn_keeps)
  obtain x j where j: "inner_try_read_pure hc mc i = (x, j)" by (cases "inner_try_read_pure hc mc i")
  with assms have "?f i' = ?f j"
    by (auto simp: TcpInner_read_pure_def simp del: Pair_inject split: sum.splits option.splits dest: loop)
  with inner_try_read_keeps [OF j] show ?thesis by (simp add: tcp_ok_def)
qed

lemma drop_expired_conf: "conf (snd (drop_expired t q)) = conf q"
  by (simp add: drop_expired_def split: prod.split)

lemma flush_keeps_limits:
  assumes "rust_loop (flush_turn ops) i = Some (Done (r, i'))"
  shows "tcp_limits i' = tcp_limits i"
  by (rule rust_loop_keeps_done [OF assms])
    (auto simp: flush_turn_eq tcp_limits_def Let_def dest!: take_or_next_conf
      split: outcome.splits option.splits prod.splits sum.splits if_splits)

lemma TcpInner_write_keeps:
  assumes "TcpInner_write ops hc mc rng t t' msg i = Some (Done (r, i'))"
  shows "tcp_limits i' = tcp_limits i"
  using assms
  by (auto simp: TcpInner_write_def enqueue_data_def flush_write_until_would_block_def tcp_limits_def
      push_def drop_expired_conf Let_def split: option.splits prod.splits sum.splits
      dest!: flush_keeps_limits)

section \<open>What the calls on a UDP socket keep\<close>

lemma udp_read_keeps:
  assumes "UdpInner_read ops mc i = Some (r, i')"
  shows "udp_limits i' = udp_limits i \<and> (udp_ok i' \<longleftrightarrow> udp_ok i)"
proof -
  let ?f = "\<lambda>i. (UdpInner.out_queue i, out_queue2 i)"
  have "?f j' = ?f j" if "rust_loop (recv_turn ops mc) j = Some (x, j')" for x j j'
    by (rule rust_loop_keeps [OF that])
      (auto simp: recv_turn_def Let_def split: prod.splits sum.splits RecvResult.splits option.splits)
  with assms have "?f i' = ?f i"
    by (auto simp: UdpInner_read_def split: list.splits)
  then show ?thesis by (simp add: udp_limits_def udp_ok_def)
qed

lemma udp_read_frm_keeps:
  assumes "UdpInner_read_frm ops mc i = Some (r, i')"
  shows "udp_limits i' = udp_limits i \<and> (udp_ok i' \<longleftrightarrow> udp_ok i)"
proof -
  let ?f = "\<lambda>i. (UdpInner.out_queue i, out_queue2 i)"
  have "?f j' = ?f j" if "rust_loop (recv_from_turn ops mc) j = Some (x, j')" for x j j'
    by (rule rust_loop_keeps [OF that])
      (auto simp: recv_from_turn_def Let_def split: prod.splits sum.splits RecvResult.splits option.splits)
  with assms have "?f i' = ?f i"
    by (auto simp: UdpInner_read_frm_def split: list.splits)
  then show ?thesis by (simp add: udp_limits_def udp_ok_def)
qed

lemma send_keeps_limits:
  assumes "rust_loop (send_turn ops) i = Some (Done (r, i'))"
  shows "udp_limits i' = udp_limits i"
  by (rule rust_loop_keeps_done [OF assms])
    (auto simp: send_turn_def udp_limits_def Let_def dest!: take_or_next_conf
      split: outcome.splits option.splits prod.splits sum.splits bool.splits)

lemma send_to_keeps_limits:
  assumes "rust_loop (send_to_turn ops) i = Some (Done (r, i'))"
  shows "udp_limits i' = udp_limits i"
  by (rule rust_loop_keeps_done [OF assms])
    (auto simp: send_to_turn_def udp_limits_def Let_def dest!: take_or_next_conf
      split: outcome.splits option.splits prod.splits sum.splits bool.splits)

lemma UdpInner_write_keeps:
  assumes "UdpInner_write ops mc rng t t' msg i = Some (Done (r, i'))"
  shows "udp_limits i' = udp_limits i"
  using assms
  by (auto simp: UdpInner_write_def UdpInner_flush_write_def udp_limits_def push_def drop_expired_conf
      Let_def split: option.splits prod.splits sum.splits dest!: send_keeps_limits)

lemma UdpInner_write_to_keeps:
  assumes "UdpInner_write_to ops mc rng t t' msg i = Some (Done (r, i'))"
  shows "udp_limits i' = udp_limits i"
  using assms
  by (auto simp: UdpInner_write_to_def UdpInner_flush_write_to_def udp_limits_def push_def
      drop_expired_conf Let_def split: option.splits prod.splits sum.splits dest!: send_to_keeps_limits)

lemma UdpInner_write_to_done:
  assumes "UdpInner_write_to ops mc rng t t' msg i = Some out" and "udp_ok i"
  shows "\<exists>r i'. out = Done (r, i') \<and> udp_ok i'"
  using assms(2)
proof (cases rule: UdpInner_write_to_cases [where msg = msg and mc = mc and rng = rng and ops = ops and t = t and t' = t'])
  case (flushed new j)
  with udp_flush_to.flush_result [of ops j out] assms(1) show ?thesis by auto
qed (use assms(1) in auto)

section \<open>The type of a socket\<close>

fun socket_limits :: "('u, 't, 'k) Socket \<Rightarrow> usize option \<times> 'k SocketConfig list" where
  "socket_limits (Udp None) = (None, [])"
| "socket_limits (Udp (Some i)) = udp_limits i"
| "socket_limits (Tcp None) = (None, [])"
| "socket_limits (Tcp (Some i)) = tcp_limits i"

definition same_type :: "('u, 't, 'k) Socket \<Rightarrow> ('u, 't, 'k) Socket \<Rightarrow> bool" where
  "same_type s s' \<longleftrightarrow> same_transport s s' \<and> socket_limits s' = socket_limits s"

lemma same_transport_refl: "same_transport s s"
  by (cases s) simp_all

lemma same_transport_trans: "same_transport s s' \<Longrightarrow> same_transport s' s'' \<Longrightarrow> same_transport s s''"
  by (cases s; cases s'; cases s'') auto

text \<open>The calls that only look at the socket, set a field or go through to the operating system.\<close>

lemmas simple_call_defs =
  Socket_set_encrypt_ctx_def Socket_set_decrypt_ctx_def Socket_set_linger_def Socket_set_ttl_def
  Socket_ttl_def Socket_local_addr_def Socket_peer_addr_def Socket_take_error_def
  TcpSock_set_encrypt_ctx_def TcpSock_set_decrypt_ctx_def TcpSock_set_linger_def TcpSock_set_ttl_def
  TcpSock_ttl_def TcpSock_local_addr_def TcpSock_peer_addr_def TcpSock_take_error_def
  TcpSock_register_def TcpSock_reregister_def TcpSock_deregister_def
  TcpInner_register_def TcpInner_reregister_def TcpInner_deregister_def
  TcpInner_set_encrypt_ctx_def TcpInner_set_decrypt_ctx_def on_stream_def
  UdpSock_set_encrypt_ctx_def UdpSock_set_decrypt_ctx_def UdpSock_set_ttl_def UdpSock_ttl_def
  UdpSock_local_addr_def UdpSock_peer_addr_def UdpSock_take_error_def UdpSock_connect_def
  UdpSock_register_def UdpSock_reregister_def UdpSock_deregister_def
  UdpInner_register_def UdpInner_reregister_def UdpInner_deregister_def
  UdpInner_set_encrypt_ctx_def UdpInner_set_decrypt_ctx_def on_sock_def guard_defs

lemmas type_defs = same_type_def tcp_ok_def udp_ok_def tcp_limits_def udp_limits_def

text \<open>One call, on each of the four kinds of socket.\<close>

lemma perform_uninitialised:
  assumes "perform uops tops hc c s = Some out" and "s = Tcp None \<or> s = Udp None"
  shows "out = Done s"
  using assms
  by (cases c) (auto simp: simple_call_defs Socket_read_def Socket_write_def UdpSock_read_def TcpSock_read_in_range
      UdpSock_write_def TcpSock_write_def UdpSock_read_frm_def UdpSock_write_to_def)

lemma perform_tcp:
  assumes "perform uops tops hc c (Tcp (Some i)) = Some out" and "tcp_ok i"
  shows "\<exists>i'. out = Done (Tcp (Some i')) \<and> tcp_ok i' \<and> tcp_limits i' = tcp_limits i"
proof (cases c)
  case (Read mc)
  with assms(1) obtain r i' where "TcpInner_read_pure tops hc mc i = Some (r, i')" "out = Done (Tcp (Some i'))"
    by (auto simp: Socket_read_def TcpSock_read_in_range guard_defs)
  with TcpInner_read_keeps [OF this(1)] assms(2) show ?thesis by simp
next
  case (Write mc rng t t' msg)
  with assms(1) obtain o' where o': "TcpInner_write tops hc mc rng t t' msg i = Some o'"
    "out = map_outcome (Tcp \<circ> Some \<circ> snd) o'"
    by (auto simp: Socket_write_def TcpSock_write_def guard_defs outcome.map_comp comp_def case_prod_unfold)
  from TcpInner_write_done [OF o'(1) assms(2)] o' show ?thesis
    by (auto dest: TcpInner_write_keeps)
qed (use assms in \<open>auto simp: simple_call_defs type_defs split: prod.splits\<close>)

lemma perform_udp:
  assumes "perform uops tops hc c (Udp (Some i)) = Some out" and "udp_ok i"
  shows "\<exists>i'. out = Done (Udp (Some i')) \<and> udp_ok i' \<and> udp_limits i' = udp_limits i"
proof (cases c)
  case (Read mc)
  with assms(1) obtain r i' where "UdpInner_read uops mc i = Some (r, i')" "out = Done (Udp (Some i'))"
    by (auto simp: Socket_read_def UdpSock_read_def guard_defs)
  with udp_read_keeps [OF this(1)] assms(2) show ?thesis by simp
next
  case (Read_frm mc)
  with assms(1) obtain r i' where "UdpInner_read_frm uops mc i = Some (r, i')" "out = Done (Udp (Some i'))"
    by (auto simp: UdpSock_read_frm_def guard_defs)
  with udp_read_frm_keeps [OF this(1)] assms(2) show ?thesis by simp
next
  case (Write mc rng t t' msg)
  with assms(1) obtain o' where o': "UdpInner_write uops mc rng t t' msg i = Some o'"
    "out = map_outcome (Udp \<circ> Some \<circ> snd) o'"
    by (auto simp: Socket_write_def UdpSock_write_def guard_defs outcome.map_comp comp_def case_prod_unfold)
  from UdpInner_write_done [OF o'(1) assms(2)] o' show ?thesis
    by (auto dest: UdpInner_write_keeps)
next
  case (Write_to mc rng t t' msg)
  with assms(1) obtain o' where o': "UdpInner_write_to uops mc rng t t' msg i = Some o'"
    "out = map_outcome (Udp \<circ> Some \<circ> snd) o'"
    by (auto simp: UdpSock_write_to_def guard_defs outcome.map_comp comp_def case_prod_unfold)
  from UdpInner_write_to_done [OF o'(1) assms(2)] o' show ?thesis
    by (auto dest: UdpInner_write_to_keeps)
qed (use assms in \<open>auto simp: simple_call_defs type_defs split: prod.splits sum.splits\<close>)

lemma perform_type:
  assumes "perform uops tops hc c s = Some out" and "socket_ok s"
  shows "\<exists>s'. out = Done s' \<and> socket_ok s' \<and> same_type s s'"
proof (cases s rule: socket_ok.cases)
  case (2 i)
  with perform_udp [of uops tops hc c i out] assms show ?thesis by (auto simp: same_type_def)
next
  case (4 i)
  with perform_tcp [of uops tops hc c i out] assms show ?thesis by (auto simp: same_type_def)
qed (use perform_uninitialised [OF assms(1)] in \<open>auto simp: same_type_def\<close>)

interpretation api: safe_calls "perform uops tops hc" socket_ok same_type
  for uops :: "'u udp_ops" and tops :: "'t tcp_ops" and hc
proof
  show "same_type s s" for s :: "('u, 't, 'k) Socket"
    by (simp add: same_type_def same_transport_refl)
  show "same_type s s' \<Longrightarrow> same_type s' s'' \<Longrightarrow> same_type s s''" for s s' s'' :: "('u, 't, 'k) Socket"
    by (auto simp: same_type_def intro: same_transport_trans)
qed (use perform_type in fastforce)+

lemma constructed_ok:
  assumes "constructed uops tops s"
  shows "socket_ok s"
  using assms
proof cases
  case (tcp_connect w addr ts)
  then show ?thesis
    by (auto simp: TcpSock_connect_def TcpSock_connect_with_conf_def TcpSock_wrap_with_conf_def
        Socket_from_tcp_def try_op_eq_Inr TcpInner_new_ok)
next
  case (tcp_connect_conf w addr c ts)
  then show ?thesis
    by (auto simp: TcpSock_connect_with_conf_def TcpSock_wrap_with_conf_def Socket_from_tcp_def
        try_op_eq_Inr TcpInner_new_ok)
qed (auto simp: TcpSock_default_def TcpSock_wrap_def TcpInner_new_def TcpSock_wrap_with_conf_def TcpInner_new_ok
    UdpSock_default_def UdpSock_wrap_def UdpSock_wrap_with_conf_def UdpSock_bind_def UdpSock_bind_with_conf_def
    Socket_from_tcp_def Socket_from_udp_def UdpInner_new_def udp_ok_def oq_ok_new try_op_eq_Inr)

section \<open>Every call returns\<close>

text \<open>The system does not truncate a datagram that it accepts.\<close>

definition no_truncation :: "'s udp_ops \<Rightarrow> bool" where
  "no_truncation ops \<longleftrightarrow>
     (\<forall>s d n s'. us_send ops s d = (Inr n, s') \<longrightarrow> length d \<le> n) \<and>
     (\<forall>s d a n s'. us_send_to ops s d a = (Inr n, s') \<longrightarrow> length d \<le> n)"

text \<open>What is asked of the operating system: it makes progress, and it never has data for ever.\<close>

definition well_behaved :: "'u udp_ops \<Rightarrow> 't tcp_ops \<Rightarrow> bool" where
  "well_behaved uops tops \<longleftrightarrow>
     tcp_progress tops \<and> no_truncation uops \<and> (\<exists>b. finite_backlog tops b) \<and>
     (\<exists>b. finite_arrivals (\<lambda>s. us_recv uops s BUF_LEN) b) \<and>
     (\<exists>b. finite_arrivals (\<lambda>s. us_recv_from uops s BUF_LEN) b)"

lemma send_loop_returns:
  assumes "no_truncation ops" and "udp_ok i"
  shows "\<exists>out. rust_loop (send_turn ops) i = Some out"
proof (rule udp_flush.flush_total [OF assms(2), where weight = "\<lambda>_. 1"])
  fix i i' :: "('a, 'b) UdpInner"
  assume ok: "udp_ok i" and t: "send_turn ops i = Inl i'"
  show "(\<Sum>d\<leftarrow>udp_pending i'. 1) < (\<Sum>d\<leftarrow>udp_pending i. (1 :: nat))"
  proof (cases "udp_pending i")
    case Nil
    with send_turn_empty [OF ok, of ops] t show ?thesis by auto
  next
    case (Cons d ds)
    obtain res s where r: "us_send ops (sock i) d = (res, s)" by (cases "us_send ops (sock i) d")
    from send_turn_first [OF ok Cons r] t r assms(1) have "udp_pending i' = ds"
      by (cases res) (auto simp: no_truncation_def dest: leD split: if_splits)
    with Cons show ?thesis by simp
  qed
qed

lemma send_to_loop_returns:
  assumes "no_truncation ops" and "udp_ok i"
  shows "\<exists>out. rust_loop (send_to_turn ops) i = Some out"
proof (rule udp_flush_to.flush_total [OF assms(2), where weight = "\<lambda>_. 1"])
  fix i i' :: "('a, 'b) UdpInner"
  assume ok: "udp_ok i" and t: "send_to_turn ops i = Inl i'"
  show "(\<Sum>d\<leftarrow>udp_pending_to i'. 1) < (\<Sum>d\<leftarrow>udp_pending_to i. (1 :: nat))"
  proof (cases "udp_pending_to i")
    case Nil
    with send_to_turn_empty [OF ok, of ops] t show ?thesis by auto
  next
    case (Cons x ds)
    obtain d a where x: "x = (d, a)" by (cases x)
    obtain res s where r: "us_send_to ops (sock i) d a = (res, s)" by (cases "us_send_to ops (sock i) d a")
    have "length d \<le> n" if "res = Inr n" for n
      using assms(1) r that unfolding no_truncation_def by blast
    with send_to_turn_first [OF ok Cons [unfolded x] r] t have "udp_pending_to i' = ds"
      by (cases res) (auto dest: leD split: if_splits)
    with Cons show ?thesis by simp
  qed
qed

lemma UdpInner_write_returns:
  assumes "no_truncation ops" and "udp_ok i"
  shows "\<exists>out. UdpInner_write ops mc rng t t' msg i = Some out"
  using assms(2)
  by (cases rule: UdpInner_write_cases [where msg = msg and mc = mc and rng = rng and ops = ops and t = t and t' = t'])
    (use send_loop_returns [OF assms(1)] in auto)

lemma UdpInner_write_to_returns:
  assumes "no_truncation ops" and "udp_ok i"
  shows "\<exists>out. UdpInner_write_to ops mc rng t t' msg i = Some out"
  using assms(2)
  by (cases rule: UdpInner_write_to_cases [where msg = msg and mc = mc and rng = rng and ops = ops and t = t and t' = t'])
    (use send_to_loop_returns [OF assms(1)] in auto)

lemma UdpInner_read_frm_returns:
  assumes "finite_arrivals (\<lambda>s. us_recv_from ops s BUF_LEN) backlog"
  shows "\<exists>r i'. UdpInner_read_frm ops mc i = Some (r, i')"
proof (cases "read_buffer_2 i")
  case Nil
  obtain ds e s where d: "datagrams (\<lambda>s. us_recv_from ops s BUF_LEN) (sock i) ds e s"
    using finite_arrivals_datagrams [OF assms] by blast
  show ?thesis using udp_recv_from.rd_leaves [OF Nil d] by (metis surj_pair)
qed (use udp_recv_from.rd_buffered in blast)

lemma UdpInner_read_returns:
  assumes "finite_arrivals (\<lambda>s. us_recv ops s BUF_LEN) backlog"
  shows "\<exists>r i'. UdpInner_read ops mc i = Some (r, i')"
proof (cases "UdpInner.read_buffer i")
  case Nil
  obtain ds e s where d: "datagrams (\<lambda>s. us_recv ops s BUF_LEN) (sock i) ds e s"
    using finite_arrivals_datagrams [OF assms] by blast
  show ?thesis using udp_recv.rd_leaves [OF Nil d] by (metis surj_pair)
qed (use udp_recv.rd_buffered in blast)

lemma perform_returns:
  assumes os: "well_behaved uops tops" and "socket_ok s"
  shows "\<exists>out. perform uops tops hc c s = Some out"
proof -
  obtain b1 b2 b3 where os: "tcp_progress tops" "no_truncation uops" "finite_backlog tops b1"
    "finite_arrivals (\<lambda>s. us_recv uops s BUF_LEN) b2" "finite_arrivals (\<lambda>s. us_recv_from uops s BUF_LEN) b3"
    using os by (auto simp: well_behaved_def)
  note total = TcpInner_read_total [OF os(3)] TcpInner_write_returns [OF os(1)]
    UdpInner_read_returns [OF os(4)] UdpInner_read_frm_returns [OF os(5)]
    UdpInner_write_returns [OF os(2)] UdpInner_write_to_returns [OF os(2)]
  from assms(2) show ?thesis
    by (cases s rule: socket_ok.cases; cases c)
      (simp_all add: Socket_read_def Socket_write_def UdpSock_read_def TcpSock_read_in_range UdpSock_write_def
        TcpSock_write_def UdpSock_read_frm_def UdpSock_write_to_def guard_defs total)
qed

section \<open>Properties\<close>

text \<open>
  C4. Type safety of the interface: a socket from any constructor, put through any sequence of calls
  of its methods with the system changing in between, never panics: no \<open>unwrap\<close> of the queue meets
  a \<open>None\<close>, and no slice of the frame reader's buffer or of the message being written is out of
  range, whatever the other end sends and the system answers. Whenever a sequence of calls returns, the invariants of all queues hold, the socket is of the same transport,
  initialised if it was, and has the limits it was made with.
\<close>

theorem api_type_safe:
  assumes "constructed uops tops s"
  shows "case run (perform uops tops hc) calls s of
     None \<Rightarrow> True
   | Some Panicked \<Rightarrow> False
   | Some (Done s') \<Rightarrow> socket_ok s' \<and> same_transport s s' \<and> socket_limits s' = socket_limits s"
  using api.run_safe [OF constructed_ok [OF assms], of uops tops hc calls]
  by (auto simp: same_type_def split: option.splits outcome.splits)

text \<open>A program on a TCP socket whose send buffer takes two bytes, and one on a UDP socket.\<close>

definition sample_program :: "(net, pipe, nat, byte list) call list" where
  "sample_program = [Write bytes_codec 0 (\<lambda>_. 0) 0 (Some ([5], 1)), Set_ttl 3, Read bytes_codec,
     Elsewhere id (\<lambda>(cs, out, room). (cs @ [[1, 0, 0, 0, 7]], out, 10)), Read bytes_codec,
     Write_to bytes_codec 0 (\<lambda>_. 0) 0 (Some ([5], V4 7 80, 1)), Read_frm bytes_codec,
     Write bytes_codec 0 (\<lambda>_. 0) 0 None]"

lemma sample_well_behaved: "well_behaved net_ops pipe_ops"
proof -
  have "finite_arrivals (\<lambda>s. us_recv_from net_ops s BUF_LEN) (\<lambda>s. length (fst s))"
    by (auto simp: finite_arrivals_def net_defs split: prod.splits list.splits)
  moreover have "no_truncation net_ops"
    by (auto simp: no_truncation_def net_defs split: prod.splits nat.splits)
  ultimately show ?thesis
    unfolding well_behaved_def using pipe_progress pipe_backlog net_finite by blast
qed

theorem api_type_safe_witness:
  "\<exists>s'. run (perform net_ops pipe_ops le32_codec) sample_program
      (Socket_from_tcp (TcpSock_wrap_with_conf ([], [], 2) SocketConfig_default)) = Some (Done s') \<and>
    socket_ok s' \<and> socket_limits s' = (Some DEFAULT_MAX_PAYLOAD_SIZE, [SocketConfig_default])"
proof -
  let ?s = "Socket_from_tcp (TcpSock_wrap_with_conf ([], [], 2) SocketConfig_default) :: (net, pipe, nat) Socket"
  have c: "constructed net_ops pipe_ops ?s" by (rule constructed.tcp_wrap_conf)
  have "perform net_ops pipe_ops le32_codec c s \<noteq> None" if "socket_ok s" for c :: "(net, pipe, nat, byte list) call" and s
    using perform_returns [OF sample_well_behaved that, of le32_codec c] by auto
  from api.run_returns [OF this constructed_ok [OF c]]
  obtain s' where "run (perform net_ops pipe_ops le32_codec) sample_program ?s = Some (Done s')"
    by blast
  with api_type_safe [OF c, of le32_codec sample_program] show ?thesis
    by (auto simp: Socket_from_tcp_def TcpSock_wrap_with_conf_def TcpInner_new_with_conf_def tcp_limits_def
        LenDelimitedReader_new_def OutQueue_new_def SocketConfig_default_def Let_def)
qed

text \<open>
  C25. The interface never hangs on a well-behaved system: if TCP writes make progress, datagrams are
  not truncated, and only finitely much data is waiting at any time, every sequence of calls on a
  socket from any constructor returns.
\<close>

theorem api_returns:
  assumes "constructed uops tops s" and "well_behaved uops tops"
  shows "\<exists>s'. run (perform uops tops hc) calls s = Some (Done s')"
  using api.run_returns [OF _ constructed_ok [OF assms(1)], of uops tops hc calls]
    perform_returns [OF assms(2)] by blast

theorem api_returns_witness:
  "\<exists>s'. run (perform net_ops pipe_ops le32_codec) sample_program
     (Socket_from_udp (UdpSock_wrap ([([1], V4 1 1)], [], 1))) = Some (Done s')"
  by (rule api_returns [OF constructed.udp_wrap sample_well_behaved])

end
