(* ===== verification/Stream_Parser.thy ===== *)
theory Stream_Parser
  imports Len_Reader
begin

text \<open>
  A reference parser for the byte stream that \<open>LenDelimitedReader\<close> (\<open>src/src/tcp.rs\<close>) reads: it is
  given the whole stream at once, well formed or not, and has no buffer and no state. The reader
  is proved to deliver what the parser finds, in whatever pieces the stream arrives.
\<close>

section \<open>The parser\<close>

text \<open>
  What the front of a stream holds: a message, an unfinished frame (with the number of bytes of its
  body, 0 while the header is incomplete), an error, or a frame without a body.
\<close>

datatype 'm front =
    Message 'm "byte list"
  | Unfinished usize "byte list"
  | Malformed SocketError
  | Hollow "byte list"

definition parse_body :: "('k, 'm) codec \<Rightarrow> 'k DecryptContext \<Rightarrow> usize \<Rightarrow> byte list \<Rightarrow> 'm front" where
  "parse_body mc d need bs =
     (if length bs < need then Unfinished need bs
      else case decrypt mc d (take need bs) of
          Inl e \<Rightarrow> Malformed e
        | Inr m \<Rightarrow> Message m (drop need bs))"

definition parse_frame ::
  "('k, u32) codec \<Rightarrow> ('k, 'm) codec \<Rightarrow> 'k DecryptContext \<Rightarrow> usize \<Rightarrow> byte list \<Rightarrow> 'm front" where
  "parse_frame hc mc d limit bs =
     (let n = dec_size_len d in
      if length bs < n then Unfinished 0 bs
      else case decrypt hc d (take n bs) of
          Inl e \<Rightarrow> Malformed e
        | Inr w \<Rightarrow>
            if limit < unat w then Malformed PayloadSizeProhibitive
            else if w = 0 then Hollow (drop n bs)
            else parse_body mc d (unat w) (drop n bs))"

text \<open>The front of a stream of which \<open>need\<close> bytes of a body are still awaited (0: none).\<close>

definition parse_front ::
  "('k, u32) codec \<Rightarrow> ('k, 'm) codec \<Rightarrow> 'k DecryptContext \<Rightarrow> usize \<Rightarrow> usize \<Rightarrow> byte list \<Rightarrow> 'm front" where
  "parse_front hc mc d limit need bs =
     (if need = 0 then parse_frame hc mc d limit bs else parse_body mc d need bs)"

lemmas parse_front_defs = parse_front_def parse_frame_def parse_body_def Let_def

lemma parse_front_shrinks:
  "parse_front hc mc d limit need bs = Message m rest \<Longrightarrow> length rest < length bs"
  using dec_size_len_pos [of d]
  by (auto simp: parse_front_defs split: if_splits sum.splits)

text \<open>All messages up to the first thing that is not a message.\<close>

function parse_stream ::
  "('k, u32) codec \<Rightarrow> ('k, 'm) codec \<Rightarrow> 'k DecryptContext \<Rightarrow> usize \<Rightarrow> usize \<Rightarrow> byte list \<Rightarrow>
     'm list \<times> 'm front" where
  "parse_stream hc mc d limit need bs =
     (case parse_front hc mc d limit need bs of
        Message m rest \<Rightarrow> apfst ((#) m) (parse_stream hc mc d limit 0 rest)
      | stop \<Rightarrow> ([], stop))"
  by pat_completeness auto
termination
  by (relation "measure (\<lambda>(hc, mc, d, limit, need, bs). length bs)") (auto dest: parse_front_shrinks)

declare parse_stream.simps [simp del]

lemma parse_stream_simps:
  "parse_front hc mc d limit need bs = Message m rest \<Longrightarrow>
     parse_stream hc mc d limit need bs = apfst ((#) m) (parse_stream hc mc d limit 0 rest)"
  "parse_front hc mc d limit need bs = Unfinished n rest \<Longrightarrow>
     parse_stream hc mc d limit need bs = ([], Unfinished n rest)"
  "parse_front hc mc d limit need bs = Malformed e \<Longrightarrow>
     parse_stream hc mc d limit need bs = ([], Malformed e)"
  "parse_front hc mc d limit need bs = Hollow rest \<Longrightarrow>
     parse_stream hc mc d limit need bs = ([], Hollow rest)"
  by (simp_all add: parse_stream.simps [of hc mc d limit need bs])

section \<open>Bytes that arrive later\<close>

lemma parse_front_append:
  "parse_front hc mc d limit need (a @ b) =
     (case parse_front hc mc d limit need a of
        Message m rest \<Rightarrow> Message m (rest @ b)
      | Unfinished n rest \<Rightarrow> parse_front hc mc d limit n (rest @ b)
      | Malformed e \<Rightarrow> Malformed e
      | Hollow rest \<Rightarrow> Hollow (rest @ b))"
  by (auto simp: parse_front_defs unat_eq_0 split: sum.splits)

text \<open>The parser may be given a stream in two parts.\<close>

lemma parse_stream_append:
  "parse_stream hc mc d limit need (a @ b) =
     (case parse_stream hc mc d limit need a of
        (ms, Unfinished n rest) \<Rightarrow> apfst ((@) ms) (parse_stream hc mc d limit n (rest @ b))
      | (ms, Hollow rest) \<Rightarrow> (ms, Hollow (rest @ b))
      | r \<Rightarrow> r)"
proof (induction hc mc d limit need a rule: parse_stream.induct)
  case (1 hc mc d limit need bs)
  show ?case
  proof (cases "parse_front hc mc d limit need bs")
    case (Message m rest)
    moreover from Message have "parse_front hc mc d limit need (bs @ b) = Message m (rest @ b)"
      by (simp add: parse_front_append)
    ultimately show ?thesis
      using 1 [OF Message]
      by (cases "parse_stream hc mc d limit 0 rest")
        (auto simp: parse_stream_simps apfst_def map_prod_def split: front.splits prod.splits)
  next
    case (Unfinished n rest)
    then have "parse_front hc mc d limit need (bs @ b) = parse_front hc mc d limit n (rest @ b)"
      by (simp add: parse_front_append)
    then have "parse_stream hc mc d limit need (bs @ b) = parse_stream hc mc d limit n (rest @ b)"
      by (simp add: parse_stream.simps [of hc mc d limit need "bs @ b"]
          parse_stream.simps [of hc mc d limit n "rest @ b"])
    with Unfinished show ?thesis
      by (simp add: parse_stream_simps apfst_def map_prod_def)
  qed (simp_all add: parse_stream_simps parse_front_append)
qed

section \<open>The reader computes the parser\<close>

text \<open>The front of what a reader has buffered.\<close>

abbreviation reader_front ::
  "('k, u32) codec \<Rightarrow> ('k, 'm) codec \<Rightarrow> 'k LenDelimitedReader \<Rightarrow> 'm front" where
  "reader_front hc mc rd \<equiv> parse_front hc mc (dec_ctx rd) (max_payload_size rd) (read_len rd) (read_buffer rd)"

abbreviation reader_parse ::
  "('k, u32) codec \<Rightarrow> ('k, 'm) codec \<Rightarrow> 'k LenDelimitedReader \<Rightarrow> byte list \<Rightarrow> 'm list \<times> 'm front" where
  "reader_parse hc mc rd bs \<equiv>
     parse_stream hc mc (dec_ctx rd) (max_payload_size rd) (read_len rd) (read_buffer rd @ bs)"

text \<open>A reader of the same connection that awaits \<open>n\<close> bytes and has buffered \<open>bs\<close>.\<close>

definition reader_at :: "'k LenDelimitedReader \<Rightarrow> usize \<Rightarrow> byte list \<Rightarrow> 'k LenDelimitedReader" where
  "reader_at rd n bs = rd\<lparr> read_len := n, read_buffer := bs \<rparr>"

lemma reader_at_simps [simp]:
  "dec_ctx (reader_at rd n bs) = dec_ctx rd" "max_payload_size (reader_at rd n bs) = max_payload_size rd"
  "read_len (reader_at rd n bs) = n" "read_buffer (reader_at rd n bs) = bs"
  "reader_at (reader_at rd n bs) n' bs' = reader_at rd n' bs'"
  "put_buf b (reader_at rd n bs) = reader_at rd n (bs @ b)"
  "reader_at (put_buf b rd) n bs = reader_at rd n bs"
  by (simp_all add: reader_at_def put_buf_def)

lemma put_buf_simps [simp]:
  "dec_ctx (put_buf b rd) = dec_ctx rd" "max_payload_size (put_buf b rd) = max_payload_size rd"
  "read_len (put_buf b rd) = read_len rd" "read_buffer (put_buf b rd) = read_buffer rd @ b"
  by (simp_all add: put_buf_def)

lemma try_read_front:
  "case reader_front hc mc rd of
     Message m rest \<Rightarrow> try_read_pure hc mc rd = (Inr (Some m), reader_at rd 0 rest)
   | Unfinished n rest \<Rightarrow> try_read_pure hc mc rd = (Inr None, reader_at rd n rest)
   | Malformed e \<Rightarrow> fst (try_read_pure hc mc rd) = Inl e
   | Hollow rest \<Rightarrow> try_read_pure hc mc rd = (Inr None, reader_at rd 0 rest)"
  by (cases rd)
    (auto simp: parse_front_defs try_read_pure_def try_read_header_pure_def mark_read_pure_def reader_at_def unat_gt_0
      split: sum.splits)

lemma read_all_parse:
  "case parse_stream hc mc (dec_ctx rd) (max_payload_size rd) (read_len rd) (read_buffer rd) of
     (ms, Unfinished n rest) \<Rightarrow> read_all_pure hc mc rd = (ms, None, reader_at rd n rest)
   | (ms, Hollow rest) \<Rightarrow> read_all_pure hc mc rd = (ms, None, reader_at rd 0 rest)
   | (ms, Malformed e) \<Rightarrow> \<exists>rd'. read_all_pure hc mc rd = (ms, Some e, rd')
   | (ms, Message m rest) \<Rightarrow> False"
proof (induction "length (read_buffer rd)" arbitrary: rd rule: less_induct)
  case less
  note front = try_read_front [of hc mc rd]
  show ?case
  proof (cases "reader_front hc mc rd")
    case (Message m rest)
    with front have tr: "try_read_pure hc mc rd = (Inr (Some m), reader_at rd 0 rest)" by simp
    have "length (read_buffer (reader_at rd 0 rest)) < length (read_buffer rd)"
      using Message by (auto dest: parse_front_shrinks)
    from less [OF this] tr show ?thesis
      by (cases "parse_stream hc mc (dec_ctx rd) (max_payload_size rd) 0 rest")
        (auto simp: parse_stream_simps(1) [OF Message] read_all_pure.simps [of hc mc rd] split: front.splits)
  qed (use front in \<open>auto simp: parse_stream_simps read_all_pure.simps [of hc mc rd] split: prod.splits sum.splits\<close>)
qed

text \<open>
  An empty frame makes the reader stop until the next piece arrives. It then goes on with what
  was left behind the empty frame.
\<close>

lemma receive_parse:
  assumes "pieces \<noteq> []" and "reader_parse hc mc rd (concat pieces) = (ms, stop)"
  shows "case stop of
     Unfinished n rest \<Rightarrow> receive_pure hc mc rd pieces = (ms, None, reader_at rd n rest)
   | Malformed e \<Rightarrow> \<exists>rd'. receive_pure hc mc rd pieces = (ms, Some e, rd')
   | Hollow rest \<Rightarrow> \<exists>before c after left. pieces = before @ c # after \<and> rest = left @ concat after \<and>
       reader_parse hc mc rd (concat before @ c) = (ms, Hollow left) \<and>
       (before \<noteq> [] \<longrightarrow> (\<exists>n r. snd (reader_parse hc mc rd (concat before)) = Unfinished n r)) \<and>
       receive_pure hc mc rd pieces = apfst ((@) ms) (receive_pure hc mc (reader_at rd 0 left) after)
   | Message m rest \<Rightarrow> False"
  using assms
proof (induction pieces arbitrary: rd ms stop)
  case (Cons c cs)
  obtain ms1 stop1 where first: "reader_parse hc mc rd c = (ms1, stop1)"
    by (cases "reader_parse hc mc rd c")
  from read_all_parse [of hc mc "put_buf c rd"] first
  have one: "case stop1 of
     Unfinished n rest \<Rightarrow> read_all_pure hc mc (put_buf c rd) = (ms1, None, reader_at rd n rest)
   | Hollow rest \<Rightarrow> read_all_pure hc mc (put_buf c rd) = (ms1, None, reader_at rd 0 rest)
   | Malformed e \<Rightarrow> \<exists>rd'. read_all_pure hc mc (put_buf c rd) = (ms1, Some e, rd')
   | Message m rest \<Rightarrow> False" by simp
  have split: "reader_parse hc mc rd (c @ bs) = (case (ms1, stop1) of
        (ms, Unfinished n rest) \<Rightarrow> apfst ((@) ms)
          (parse_stream hc mc (dec_ctx rd) (max_payload_size rd) n (rest @ bs))
      | (ms, Hollow rest) \<Rightarrow> (ms, Hollow (rest @ bs))
      | r \<Rightarrow> r)" for bs
    using first parse_stream_append [of hc mc "dec_ctx rd" "max_payload_size rd" "read_len rd" "read_buffer rd @ c" bs]
    by simp
  have all: "(ms, stop) = reader_parse hc mc rd (c @ concat cs)" using Cons.prems(2) by simp
  show ?case
  proof (cases stop1)
    case (Message m rest)
    with one show ?thesis by simp
  next
    case (Malformed e)
    with one all split show ?thesis by auto
  next
    case (Hollow rest)
    have "receive_pure hc mc rd (c # cs) = apfst ((@) ms1) (receive_pure hc mc (reader_at rd 0 rest) cs)"
      using one Hollow by (cases "receive_pure hc mc (reader_at rd 0 rest) cs") auto
    with Hollow all split first show ?thesis
      by (simp, intro exI [of _ "[]"] exI [of _ c] exI [of _ cs] exI [of _ rest]) simp
  next
    case (Unfinished n rest)
    with one have r: "read_all_pure hc mc (put_buf c rd) = (ms1, None, reader_at rd n rest)" by simp
    show ?thesis
    proof (cases "cs = []")
      case True
      with Cons.prems(2) first Unfinished r show ?thesis by auto
    next
      case False
      let ?rd = "reader_at rd n rest"
      have later: "reader_parse hc mc rd (c @ bs) = apfst ((@) ms1) (reader_parse hc mc ?rd bs)" for bs
        using split Unfinished by simp
      obtain ms2 stop2 where second: "reader_parse hc mc ?rd (concat cs) = (ms2, stop2)"
        by (cases "reader_parse hc mc ?rd (concat cs)")
      with all later have sum: "ms = ms1 @ ms2" "stop = stop2" by simp_all
      have rec: "receive_pure hc mc rd (c # cs) = apfst ((@) ms1) (receive_pure hc mc ?rd cs)"
        using r by (cases "receive_pure hc mc ?rd cs") auto
      note IH = Cons.IH [OF False second]
      show ?thesis
      proof (cases stop2)
        case (Hollow rest2)
        with IH obtain before d after left where at: "cs = before @ d # after" "rest2 = left @ concat after"
          "reader_parse hc mc ?rd (concat before @ d) = (ms2, Hollow left)"
          "before \<noteq> [] \<longrightarrow> (\<exists>n r. snd (reader_parse hc mc ?rd (concat before)) = Unfinished n r)"
          "receive_pure hc mc ?rd cs = apfst ((@) ms2) (receive_pure hc mc (reader_at rd 0 left) after)"
          by auto
        have "reader_parse hc mc rd (concat (c # before) @ d) = (ms, Hollow left)"
          using later [of "concat before @ d"] at(3) sum by simp
        moreover have "\<exists>n r. snd (reader_parse hc mc rd (concat (c # before))) = Unfinished n r"
        proof (cases "before = []")
          case True
          then show ?thesis using arg_cong [OF first, of snd] Unfinished by simp
        next
          case False
          with at(4) arg_cong [OF later [of "concat before"], of snd] show ?thesis by simp
        qed
        moreover have "receive_pure hc mc rd (c # cs) =
            apfst ((@) ms) (receive_pure hc mc (reader_at rd 0 left) after)"
          using rec at(5) sum by (cases "receive_pure hc mc (reader_at rd 0 left) after") simp
        ultimately show ?thesis
          using Hollow sum(2) at(1,2)
          by (simp, intro exI [of _ "c # before"] exI [of _ d] exI [of _ after] exI [of _ left]) simp
      qed (use IH rec sum in auto)
    qed
  qed
qed simp

section \<open>Properties\<close>

text \<open>
  C7. The reader is the parser, for any stream, well formed or not, any state of the reader and any
  way of cutting the stream into pieces. If the parser reads the stream up to an unfinished frame or
  an error, the reader delivers exactly the messages of the parser, stops with exactly its error, and
  otherwise ends with the unfinished frame in its buffer, whatever the pieces. If the parser stops at
  an empty frame, the reader delivers exactly the parser's messages up to the end of the piece
  \<open>c\<close> in which that frame ends, and from the next piece on it does what a reader does that has just
  what lies behind the empty frame in \<open>c\<close> in its buffer. It never panics.
\<close>

theorem reader_is_parser:
  assumes "pieces \<noteq> []"
    and "parse_stream hc mc (dec_ctx rd) (max_payload_size rd) (read_len rd) (read_buffer rd @ concat pieces) =
      (ms, stop)"
  shows "case stop of
     Unfinished n rest \<Rightarrow> receive hc mc rd pieces = Done (ms, None, rd\<lparr> read_len := n, read_buffer := rest \<rparr>)
   | Malformed e \<Rightarrow> \<exists>rd'. receive hc mc rd pieces = Done (ms, Some e, rd')
   | Hollow rest \<Rightarrow> \<exists>before c after left. pieces = before @ c # after \<and> rest = left @ concat after \<and>
       parse_stream hc mc (dec_ctx rd) (max_payload_size rd) (read_len rd) (read_buffer rd @ concat before @ c) =
         (ms, Hollow left) \<and>
       (before \<noteq> [] \<longrightarrow> (\<exists>n r. snd (parse_stream hc mc (dec_ctx rd) (max_payload_size rd) (read_len rd)
         (read_buffer rd @ concat before)) = Unfinished n r)) \<and>
       (\<exists>more err rd'. receive hc mc (rd\<lparr> read_len := 0, read_buffer := left \<rparr>) after = Done (more, err, rd') \<and>
         receive hc mc rd pieces = Done (ms @ more, err, rd'))
   | Message m rest \<Rightarrow> False"
proof (cases stop)
  case (Hollow rest)
  with receive_parse [OF assms] obtain before c after left where at: "pieces = before @ c # after"
    "rest = left @ concat after" "reader_parse hc mc rd (concat before @ c) = (ms, Hollow left)"
    "before \<noteq> [] \<longrightarrow> (\<exists>n r. snd (reader_parse hc mc rd (concat before)) = Unfinished n r)"
    "receive_pure hc mc rd pieces = apfst ((@) ms) (receive_pure hc mc (reader_at rd 0 left) after)" by auto
  obtain more err rd' where "receive_pure hc mc (reader_at rd 0 left) after = (more, err, rd')"
    by (rule prod_cases3)
  with at have "\<exists>more err rd'. receive hc mc (rd\<lparr> read_len := 0, read_buffer := left \<rparr>) after = Done (more, err, rd') \<and>
      receive hc mc rd pieces = Done (ms @ more, err, rd')"
    by (simp add: receive_in_range reader_at_def)
  with at(1-4) show ?thesis
    by (simp only: Hollow front.case)
      (intro exI [of _ before] exI [of _ c] exI [of _ after] exI [of _ left] conjI, simp_all)
qed (use receive_parse [OF assms] in \<open>simp_all add: receive_in_range reader_at_def\<close>)

theorem reader_is_parser_witness:
  "\<exists>rd'. receive le32_codec bytes_codec
     \<lparr> read_buffer = [], read_len = 0, max_payload_size = 5, dec_ctx = DecryptContext.Null \<rparr>
     [[1, 0], [0, 0, 7, 9], [0, 0, 0, 1]] = Done ([[7]], Some PayloadSizeProhibitive, rd')"
proof -
  let ?rd = "\<lparr> read_buffer = [], read_len = 0, max_payload_size = 5,
    dec_ctx = DecryptContext.Null :: nat DecryptContext \<rparr>"
  have "parse_stream le32_codec bytes_codec DecryptContext.Null 5 0 [1, 0, 0, 0, 7, 9, 0, 0, 0, 1] =
      ([[7]], Malformed PayloadSizeProhibitive)"
    by (simp add: parse_stream.simps parse_front_defs codec_simps)
  then have "parse_stream le32_codec bytes_codec (dec_ctx ?rd) (max_payload_size ?rd) (read_len ?rd)
      (read_buffer ?rd @ concat [[1, 0], [0, 0, 7, 9], [0, 0, 0, 1]]) = ([[7]], Malformed PayloadSizeProhibitive)" by simp
  from reader_is_parser [OF _ this] show ?thesis by simp
qed



end
