(* ===== verification/Unit_Tests.thy ===== *)
theory Unit_Tests
  imports Tcp_Sock Udp_Sock
begin

text \<open>
  The unit tests of \<open>src/src/out_queue.rs\<close>, \<open>crypto.rs\<close>, \<open>tcp.rs\<close> and \<open>udp.rs\<close>, each a definition
  of the source's name that says whether the test passes: \<open>unwrap!\<close> of an error and a failed
  assertion are \<open>False\<close>. The lemmas show that the model passes them, for every reading of the clock
  and every codec that a run of the real tests may use.
\<close>

section \<open>\<open>out_queue.rs\<close>\<close>

text \<open>
  Each \<open>Instant::now()\<close> of a test is an argument, and the last argument is the reading, or the
  readings, that the operation under test takes. \<open>Instant::sub\<close> panics when the clock has not run for that long.
\<close>

definition sub_secs :: "instant \<Rightarrow> nat \<Rightarrow> (instant \<Rightarrow> bool) \<Rightarrow> bool" where
  "sub_secs t n k \<longleftrightarrow> secs n \<le> t \<and> k (t - secs n)"

definition passes :: "'r outcome \<Rightarrow> ('r \<Rightarrow> bool) \<Rightarrow> bool" where
  "passes out k = (case out of Panicked \<Rightarrow> False | Done r \<Rightarrow> k r)"

definition plain_conf :: "nat SocketConfig" where
  "plain_conf = SocketConfig_default"

subsection \<open>\<open>is_queue_valid\<close>\<close>

definition it_returns_true_when_queue_priority_is_smaller_than_minimum_drop_priority :: "instant \<Rightarrow> bool" where
  "it_returns_true_when_queue_priority_is_smaller_than_minimum_drop_priority now \<longleftrightarrow>
     (let conf = plain_conf\<lparr> conf_msg_drop_priority := 2 \<rparr>;
          queue = [] :: (instant \<times> unit) list
      in is_queue_valid now 1 queue conf)"

definition it_returns_true_when_queue_is_empty :: "instant \<Rightarrow> bool" where
  "it_returns_true_when_queue_is_empty now \<longleftrightarrow>
     (let conf = plain_conf\<lparr> conf_msg_drop_priority := 2 \<rparr>;
          queue = [] :: (instant \<times> unit) list
      in is_queue_valid now 2 queue conf)"

definition it_returns_false_when_first_queue_is_expired :: "instant \<Rightarrow> instant \<Rightarrow> bool" where
  "it_returns_false_when_first_queue_is_expired t now \<longleftrightarrow>
     (let conf = plain_conf\<lparr> conf_msg_drop_priority := 2, conf_max_msg_age_secs := 10 \<rparr>
      in sub_secs t 100 (\<lambda>queued_at.
           \<not> is_queue_valid now 2 [(queued_at, [1, 2, 3 :: i32])] conf))"

definition it_returns_true_when_first_queue_item_is_not_expired :: "instant \<Rightarrow> instant \<Rightarrow> bool" where
  "it_returns_true_when_first_queue_item_is_not_expired t now \<longleftrightarrow>
     (let conf = plain_conf\<lparr> conf_msg_drop_priority := 2, conf_max_msg_age_secs := 10 \<rparr>
      in sub_secs t 5 (\<lambda>queued_at.
           is_queue_valid now 2 [(queued_at, [1, 2, 3 :: i32])] conf))"

subsection \<open>\<open>expired_queues\<close>\<close>

definition it_returns_list_of_expired_queues :: "instant \<Rightarrow> instant \<Rightarrow> instant \<Rightarrow> readings \<Rightarrow> bool" where
  "it_returns_list_of_expired_queues t1 t2 t3 now \<longleftrightarrow>
     (let conf = plain_conf\<lparr> conf_msg_drop_priority := 1, conf_max_msg_age_secs := 10 \<rparr>;
          out_queue = OutQueue_new conf :: (nat, i32 list) OutQueue
      in sub_secs t1 5 (\<lambda>queued_at. let out_queue = push_at queued_at [1, 2, 3] 1 out_queue in
         sub_secs t2 100 (\<lambda>queued_at. let out_queue = push_at queued_at [1, 2, 3] 2 out_queue in
         sub_secs t3 200 (\<lambda>queued_at. let out_queue = push_at queued_at [1, 2, 3] 3 out_queue in
         expired_queues now out_queue = [2, 3]))))"

definition when_first_queue_is_expired_it_wont_check_any_further ::
  "instant \<Rightarrow> instant \<Rightarrow> instant \<Rightarrow> instant \<Rightarrow> readings \<Rightarrow> bool" where
  "when_first_queue_is_expired_it_wont_check_any_further t1 t2 t3 t4 now \<longleftrightarrow>
     (let conf = plain_conf\<lparr> conf_msg_drop_priority := 1, conf_max_msg_age_secs := 10 \<rparr>;
          out_queue = OutQueue_new conf :: (nat, i32 list) OutQueue
      in sub_secs t1 100 (\<lambda>queued_at. let out_queue = push_at queued_at [1, 2, 3] 1 out_queue in
         sub_secs t2 5 (\<lambda>queued_at. let out_queue = push_at queued_at [1, 2, 3] 2 out_queue in
         sub_secs t3 6 (\<lambda>queued_at. let out_queue = push_at queued_at [1, 2, 3] 3 out_queue in
         sub_secs t4 200 (\<lambda>queued_at. let out_queue = push_at queued_at [1, 2, 3] 4 out_queue in
         expired_queues now out_queue = [1, 2, 3, 4])))))"

subsection \<open>\<open>drop_expired\<close>\<close>

definition it_drops_queues_with_expired_messages ::
  "instant \<Rightarrow> instant \<Rightarrow> instant \<Rightarrow> readings \<Rightarrow> bool" where
  "it_drops_queues_with_expired_messages t1 t2 t3 now \<longleftrightarrow>
     (let conf = plain_conf\<lparr> conf_msg_drop_priority := 1, conf_max_msg_age_secs := 10 \<rparr>;
          out_queue = OutQueue_new conf :: (nat, i32 list) OutQueue
      in sub_secs t1 5 (\<lambda>queued_at. let out_queue = push_at queued_at [1, 2, 3] 1 out_queue in
         sub_secs t2 100 (\<lambda>queued_at. let out_queue = push_at queued_at [4, 5, 6] 2 out_queue in
         sub_secs t3 200 (\<lambda>queued_at. let out_queue = push_at queued_at [7, 8, 9] 3 out_queue in
         (case drop_expired now out_queue of (dropped, out_queue) \<Rightarrow>
            dropped = 2 \<and> passes (next_msg out_queue) (\<lambda>(msg, _). msg = Some [1, 2, 3]))))))"

definition it_does_not_drop_expired_message_whose_priority_is_lower_than_drop_priority ::
  "instant \<Rightarrow> instant \<Rightarrow> readings \<Rightarrow> bool" where
  "it_does_not_drop_expired_message_whose_priority_is_lower_than_drop_priority t1 t2 now \<longleftrightarrow>
     (let conf = plain_conf\<lparr> conf_msg_drop_priority := 2, conf_max_msg_age_secs := 10 \<rparr>;
          out_queue = OutQueue_new conf :: (nat, i32 list) OutQueue
      in sub_secs t1 100 (\<lambda>queued_at. let out_queue = push_at queued_at [1, 2, 3] 2 out_queue in
         sub_secs t2 200 (\<lambda>queued_at. let out_queue = push_at queued_at [3, 4, 5] 1 out_queue in
         (case drop_expired now out_queue of (dropped, out_queue) \<Rightarrow>
            dropped = 1 \<and> passes (next_msg out_queue) (\<lambda>(msg, _). msg = Some [3, 4, 5])))))"

subsection \<open>\<open>next_msg\<close>\<close>

definition it_returns_none_if_no_data_is_queued :: bool where
  "it_returns_none_if_no_data_is_queued \<longleftrightarrow>
     passes (next_msg (OutQueue_new plain_conf :: (nat, unit) OutQueue)) (\<lambda>(msg, _). msg = None)"

definition it_returns_next_message_when_data_is_queued :: "instant \<Rightarrow> bool" where
  "it_returns_next_message_when_data_is_queued t \<longleftrightarrow>
     (let out_queue = OutQueue_new plain_conf :: (nat, i32 list) OutQueue
      in sub_secs t 5 (\<lambda>queued_at. let out_queue = push_at queued_at [1, 2, 3] 1 out_queue in
         passes (next_msg out_queue) (\<lambda>(msg, _). msg = Some [1, 2, 3])))"

definition it_returns_next_message_from_lower_priority_queue :: "instant \<Rightarrow> instant \<Rightarrow> bool" where
  "it_returns_next_message_from_lower_priority_queue t1 t2 \<longleftrightarrow>
     (let out_queue = OutQueue_new plain_conf :: (nat, i32 list) OutQueue
      in sub_secs t1 5 (\<lambda>queued_at. let out_queue = push_at queued_at [1, 2, 3] 2 out_queue in
         sub_secs t2 5 (\<lambda>queued_at. let out_queue = push_at queued_at [1, 2, 3] 1 out_queue in
         passes (next_msg out_queue) (\<lambda>(msg, _). msg = Some [1, 2, 3]))))"

definition it_removes_queue_if_it_had_only_1_element :: "instant \<Rightarrow> bool" where
  "it_removes_queue_if_it_had_only_1_element t \<longleftrightarrow>
     (let conf = plain_conf\<lparr> conf_msg_drop_priority := 1 \<rparr>;
          out_queue = OutQueue_new conf :: (nat, i32 list) OutQueue
      in sub_secs t 5 (\<lambda>queued_at. let out_queue = push_at queued_at [1, 2, 3] 1 out_queue in
         passes (next_msg out_queue) (\<lambda>(_, out_queue). length (inner out_queue) = 0)))"

subsection \<open>They pass\<close>

lemmas clock_evals = sub_secs_def passes_def plain_conf_def secs_def elapsed_secs_def

text \<open>A message queued five seconds before a test began is still fresh six seconds into the test.\<close>

lemma elapsed_small:
  assumes "t \<le> now" and "now < t + secs 6" and "secs 5 \<le> t"
  shows "elapsed_secs now (t - secs 5) \<le> 10"
proof -
  have "now - (t - secs 5) < 11 * 1000000000" using assms by (simp add: secs_def)
  then show ?thesis by (simp add: elapsed_secs_def)
qed

lemma elapsed_large:
  assumes "t \<le> now" and "secs n \<le> t" and "10 < n"
  shows "\<not> elapsed_secs now (t - secs n) \<le> 10"
proof -
  have "11 * 1000000000 \<le> secs n" using assms(3) by (simp add: secs_def)
  also have "\<dots> \<le> now - (t - secs n)" using assms(1,2) by simp
  finally show ?thesis by (simp add: elapsed_secs_def)
qed

lemmas queue_steps =
  OutQueue_new_def push_at_def next_msg_def drop_expired_def expired_queues_def is_queue_valid_def
  sub_secs_def passes_def plain_conf_def config_defaults Let_def

lemma is_queue_valid_tests:
  "it_returns_true_when_queue_priority_is_smaller_than_minimum_drop_priority now"
  "it_returns_true_when_queue_is_empty now"
  "secs 100 \<le> t \<Longrightarrow> t \<le> now \<Longrightarrow> it_returns_false_when_first_queue_is_expired t now"
  "secs 5 \<le> t \<Longrightarrow> t \<le> now \<Longrightarrow> now < t + secs 6 \<Longrightarrow>
     it_returns_true_when_first_queue_item_is_not_expired t now"
  unfolding it_returns_true_when_queue_priority_is_smaller_than_minimum_drop_priority_def
    it_returns_true_when_queue_is_empty_def it_returns_false_when_first_queue_is_expired_def
    it_returns_true_when_first_queue_item_is_not_expired_def
  by (simp_all add: queue_steps elapsed_large elapsed_small)

text \<open>The bound is exact: on a machine that stalls for six seconds the test fails.\<close>

lemma it_is_flaky_after_six_seconds:
  "secs 5 \<le> t \<Longrightarrow> \<not> it_returns_true_when_first_queue_item_is_not_expired t (t + secs 6)"
  unfolding it_returns_true_when_first_queue_item_is_not_expired_def
  by (simp add: queue_steps elapsed_secs_def secs_def)

lemma expired_queues_tests:
  assumes "secs 200 \<le> t1" and "t1 \<le> t2" and "t2 \<le> t3" and "t3 \<le> t4" and "\<And>p. t4 \<le> now p"
    and "\<And>p. now p < t1 + secs 6"
  shows "it_returns_list_of_expired_queues t1 t2 t3 now"
    and "when_first_queue_is_expired_it_wont_check_any_further t1 t2 t3 t4 now"
proof -
  have late: "secs n \<le> t1" if "n \<le> 200" for n
    using assms(1) that by (simp add: secs_def)
  have "t1 \<le> now p" "t2 \<le> now p" "t3 \<le> now p" for p
    using assms(2-4) assms(5) [of p] by linarith+
  note age = this late [of 5] late [of 6] late [of 100] late [of 200] elapsed_large elapsed_small
  show "it_returns_list_of_expired_queues t1 t2 t3 now"
    unfolding it_returns_list_of_expired_queues_def using assms age by (simp add: queue_steps)
  show "when_first_queue_is_expired_it_wont_check_any_further t1 t2 t3 t4 now"
    unfolding when_first_queue_is_expired_it_wont_check_any_further_def
    using assms age by (simp add: queue_steps)
qed

lemma drop_expired_tests:
  assumes "secs 200 \<le> t1" and "t1 \<le> t2" and "t2 \<le> t3" and "\<And>p. t3 \<le> now p" and "\<And>p. now p < t1 + secs 6"
  shows "it_drops_queues_with_expired_messages t1 t2 t3 now"
    and "it_does_not_drop_expired_message_whose_priority_is_lower_than_drop_priority t1 t2 now"
proof -
  have late: "secs n \<le> t1" if "n \<le> 200" for n
    using assms(1) that by (simp add: secs_def)
  have "t1 \<le> now p" "t2 \<le> now p" for p
    using assms(2-3) assms(4) [of p] by linarith+
  note age = this late [of 5] late [of 100] late [of 200] elapsed_large elapsed_small
  show "it_drops_queues_with_expired_messages t1 t2 t3 now"
    unfolding it_drops_queues_with_expired_messages_def using assms age by (simp add: queue_steps)
  show "it_does_not_drop_expired_message_whose_priority_is_lower_than_drop_priority t1 t2 now"
    unfolding it_does_not_drop_expired_message_whose_priority_is_lower_than_drop_priority_def
    using assms age by (simp add: queue_steps)
qed

lemma next_msg_tests:
  "it_returns_none_if_no_data_is_queued"
  "secs 5 \<le> t \<Longrightarrow> it_returns_next_message_when_data_is_queued t"
  "secs 5 \<le> t \<Longrightarrow> t \<le> t' \<Longrightarrow> it_returns_next_message_from_lower_priority_queue t t'"
  "secs 5 \<le> t \<Longrightarrow> it_removes_queue_if_it_had_only_1_element t"
  unfolding it_returns_none_if_no_data_is_queued_def it_returns_next_message_when_data_is_queued_def
    it_returns_next_message_from_lower_priority_queue_def it_removes_queue_if_it_had_only_1_element_def
  by (simp_all add: queue_steps)

section \<open>\<open>crypto.rs\<close>\<close>

text \<open>
  The keys that \<open>gen_encrypt_keypair\<close> draws, the position in the generator's output and
  \<open>SecretEncryptKey::shared_secret\<close> are arguments, like the codec of the type that is encrypted.
\<close>

definition unwrapped :: "'e + 'a \<Rightarrow> ('a \<Rightarrow> bool) \<Rightarrow> bool" where
  "unwrapped r k = (case r of Inl _ \<Rightarrow> False | Inr x \<Rightarrow> k x)"

text \<open>A test fails if the call it makes panics.\<close>

definition answered :: "('a \<times> 's) outcome \<Rightarrow> ('a \<Rightarrow> 's \<Rightarrow> bool) \<Rightarrow> bool" where
  "answered x k = (case x of Panicked \<Rightarrow> False | Done (r, s) \<Rightarrow> k r s)"

lemma answered_Done [simp]: "answered (Done p) k = k (fst p) (snd p)"
  by (simp add: answered_def split: prod.split)

text \<open>\<open>std::u32::MAX\<close> and \<open>b"test123"\<close>.\<close>

definition MAX_U32 :: u32 where
  "MAX_U32 = - 1"

definition test123 :: "byte list" where
  "test123 = [116, 101, 115, 116, 49, 50, 51]"

definition encrypt_always_returns_constant_length_byte_array_for_4_byte_input_with_anonymous_encryption ::
  "('k, u32) codec \<Rightarrow> nat \<Rightarrow> 'k \<Rightarrow> bool" where
  "encrypt_always_returns_constant_length_byte_array_for_4_byte_input_with_anonymous_encryption hc rng pk \<longleftrightarrow>
     (let enc_ctx = EncryptContext_anonymous_encrypt pk
      in list_all (\<lambda>(size, rng). unwrapped (encrypt hc rng enc_ctx size) (\<lambda>encrypted.
             length encrypted = ENCRYPTED_U32_LEN))
           (zip [0, 25000, of_nat DEFAULT_MAX_PAYLOAD_SIZE, MAX_U32] [rng..<rng + 4]))"

definition encrypt_always_returns_constant_length_byte_array_for_4_byte_input_with_authenticated_encryption ::
  "('k, u32) codec \<Rightarrow> ('k \<Rightarrow> 'k \<Rightarrow> 'k) \<Rightarrow> nat \<Rightarrow> 'k \<Rightarrow> 'k \<Rightarrow> bool" where
  "encrypt_always_returns_constant_length_byte_array_for_4_byte_input_with_authenticated_encryption
       hc shared_secret rng sk1 pk2 \<longleftrightarrow>
     (let enc_ctx = EncryptContext_authenticated (shared_secret sk1 pk2)
      in list_all (\<lambda>(size, rng). unwrapped (encrypt hc rng enc_ctx size) (\<lambda>encrypted.
             length encrypted = ENCRYPTED_U32_LEN))
           (zip [0, 25000, of_nat DEFAULT_MAX_PAYLOAD_SIZE, MAX_U32] [rng..<rng + 4]))"

definition null_encryption_serializes_and_deserializes_data ::
  "('k, byte list) codec \<Rightarrow> nat \<Rightarrow> bool" where
  "null_encryption_serializes_and_deserializes_data ac rng \<longleftrightarrow>
     (let enc_ctx = EncryptContext_null; dec_ctx = DecryptContext_null
      in unwrapped (encrypt ac rng enc_ctx test123) (\<lambda>encrypted.
         unwrapped (decrypt ac dec_ctx encrypted) (\<lambda>decrypted. decrypted = test123)))"

definition authenticated_encryption_encrypts_and_decrypts_data ::
  "('k, byte list) codec \<Rightarrow> ('k \<Rightarrow> 'k \<Rightarrow> 'k) \<Rightarrow> nat \<Rightarrow> 'k \<Rightarrow> 'k \<Rightarrow> 'k \<Rightarrow> 'k \<Rightarrow> bool" where
  "authenticated_encryption_encrypts_and_decrypts_data ac shared_secret rng pk1 sk1 pk2 sk2 \<longleftrightarrow>
     (let enc_ctx = EncryptContext_authenticated (shared_secret sk1 pk2);
          dec_ctx = DecryptContext_authenticated (shared_secret sk2 pk1)
      in unwrapped (encrypt ac rng enc_ctx test123) (\<lambda>encrypted.
         unwrapped (decrypt ac dec_ctx encrypted) (\<lambda>decrypted. decrypted = test123)))"

definition anonymous_encryption :: "('k, byte list) codec \<Rightarrow> nat \<Rightarrow> 'k \<Rightarrow> 'k \<Rightarrow> bool" where
  "anonymous_encryption ac rng pk1 sk1 \<longleftrightarrow>
     (let enc_ctx = EncryptContext_anonymous_encrypt pk1;
          dec_ctx = DecryptContext_anonymous_decrypt pk1 sk1
      in unwrapped (encrypt ac rng enc_ctx test123) (\<lambda>encrypted.
         unwrapped (decrypt ac dec_ctx encrypted) (\<lambda>decrypted. decrypted = test123)))"

section \<open>\<open>tcp.rs\<close>\<close>

text \<open>The property test of \<open>serialize_with_len\<close> draws \<open>data_len\<close> below 65000.\<close>

definition it_writes_encrypted_data_length ::
  "('k, u32) codec \<Rightarrow> ('k, byte list) codec \<Rightarrow> nat \<Rightarrow> usize \<Rightarrow> bool" where
  "it_writes_encrypted_data_length hc mc rng data_len \<longleftrightarrow>
     unwrapped (serialise mc (replicate data_len 1)) (\<lambda>exp_serialised.
       let crypto_ctx = EncryptContext_null
       in unwrapped (serialize_with_len hc mc rng (replicate data_len 1) crypto_ctx) (\<lambda>buf.
            length buf = length exp_serialised + enc_size_len crypto_ctx))"

definition it_deserializes_data_from_bytes ::
  "('k, u32) codec \<Rightarrow> ('k, byte list) codec \<Rightarrow> nat \<Rightarrow> bool" where
  "it_deserializes_data_from_bytes hc mc rng \<longleftrightarrow>
     (let reader = LenDelimitedReader_new (2 * 1024 * 1024)
      in unwrapped (serialize_with_len hc mc rng [1, 2, 3] EncryptContext_null) (\<lambda>buf.
           let reader = put_buf buf reader
           in answered (try_read hc mc reader) (\<lambda>res _. unwrapped res (\<lambda>data. data = Some [1, 2, 3]))))"

definition it_deserializes_data_from_bytes_when_there_is_extra_bytes_buffered ::
  "('k, u32) codec \<Rightarrow> ('k, byte list) codec \<Rightarrow> nat \<Rightarrow> nat \<Rightarrow> bool" where
  "it_deserializes_data_from_bytes_when_there_is_extra_bytes_buffered hc mc rng rng' \<longleftrightarrow>
     (let reader = LenDelimitedReader_new (2 * 1024 * 1024)
      in unwrapped (serialize_with_len hc mc rng [1, 2, 3] EncryptContext_null) (\<lambda>buf.
           let reader = put_buf buf reader
           in unwrapped (serialize_with_len hc mc rng' [4] EncryptContext_null) (\<lambda>buf.
                let reader = put_buf buf reader
                in answered (try_read hc mc reader) (\<lambda>res _. unwrapped res (\<lambda>data. data = Some [1, 2, 3])))))"

definition when_data_len_is_0_it_returns_none :: "('k, u32) codec \<Rightarrow> ('k, byte list) codec \<Rightarrow> bool" where
  "when_data_len_is_0_it_returns_none hc mc \<longleftrightarrow>
     (let reader = put_buf [0, 0, 0, 0] (LenDelimitedReader_new (2 * 1024 * 1024))
      in answered (try_read hc mc reader) (\<lambda>res _. unwrapped res (\<lambda>data. data = None)))"

definition when_data_len_is_0_it_returns_false :: "('k, u32) codec \<Rightarrow> bool" where
  "when_data_len_is_0_it_returns_false hc \<longleftrightarrow>
     (let reader = put_buf [0, 0, 0, 0] (LenDelimitedReader_new (2 * 1024 * 1024))
      in answered (try_read_header hc reader) (\<lambda>res reader.
           unwrapped res (\<lambda>res. res = False) \<and> read_len reader = 0))"

definition data_read_write_with_encryption ::
  "('k, u32) codec \<Rightarrow> ('k, string) codec \<Rightarrow> ('k \<Rightarrow> 'k \<Rightarrow> 'k) \<Rightarrow> nat \<Rightarrow> 'k \<Rightarrow> 'k \<Rightarrow> 'k \<Rightarrow> 'k \<Rightarrow> bool" where
  "data_read_write_with_encryption hc sc shared_secret rng pk1 sk1 pk2 sk2 \<longleftrightarrow>
     (let enc_key1 = shared_secret sk1 pk2;
          enc_key2 = shared_secret sk2 pk1
      in unwrapped (serialize_with_len hc sc rng ''message123'' (EncryptContext_authenticated enc_key1))
           (\<lambda>serialised.
              let reader = LenDelimitedReader_new DEFAULT_MAX_PAYLOAD_SIZE;
                  reader = reader\<lparr> LenDelimitedReader.dec_ctx := DecryptContext_authenticated enc_key2 \<rparr>;
                  reader = put_buf serialised reader
              in answered (try_read hc sc reader) (\<lambda>res _. unwrapped res (\<lambda>deserialised.
                   deserialised = Some ''message123''))))"

subsection \<open>They pass\<close>

text \<open>
  What a run of the real tests relies on: a value has an encoding in every mode, neither empty nor
  too large for a frame, and both ends compute the same shared secret.
\<close>

definition encodes :: "('k, 'm) codec \<Rightarrow> 'm \<Rightarrow> bool" where
  "encodes cd m \<longleftrightarrow>
     (\<forall>e rng. \<exists>bs. encrypt cd rng e m = Inr bs \<and> 0 < length bs \<and> length bs \<le> DEFAULT_MAX_PAYLOAD_SIZE)"

definition agree_on_secret :: "('k \<Rightarrow> 'k \<Rightarrow> bool) \<Rightarrow> ('k \<Rightarrow> 'k \<Rightarrow> 'k) \<Rightarrow> bool" where
  "agree_on_secret keypair shared_secret \<longleftrightarrow>
     (\<forall>pk1 sk1 pk2 sk2. keypair pk1 sk1 \<and> keypair pk2 sk2 \<longrightarrow>
        shared_secret sk1 pk2 = shared_secret sk2 pk1)"

lemma encodesE:
  assumes "encodes cd m"
  obtains bs where "encrypt cd rng e m = Inr bs" "0 < length bs" "length bs \<le> DEFAULT_MAX_PAYLOAD_SIZE"
  using assms unfolding encodes_def by blast

lemma encrypt_then_decrypt:
  assumes "codec_contract keypair cd" and "encodes cd m" and "contexts_match keypair e d"
  shows "unwrapped (encrypt cd rng e m) (\<lambda>b. unwrapped (decrypt cd d b) (\<lambda>x. x = m))"
proof -
  obtain bs where bs: "encrypt cd rng e m = Inr bs" by (rule encodesE [OF assms(2)])
  with encrypt_decrypt [OF assms(1,3) bs] show ?thesis by (simp add: unwrapped_def)
qed

lemma crypto_tests:
  assumes hc: "header_contract hc" "\<forall>w. encodes hc w"
    and ac: "codec_contract keypair ac" "encodes ac test123"
    and keys: "keypair pk1 sk1" "keypair pk2 sk2" "agree_on_secret keypair shared_secret"
  shows "encrypt_always_returns_constant_length_byte_array_for_4_byte_input_with_anonymous_encryption hc rng pk1"
    and "encrypt_always_returns_constant_length_byte_array_for_4_byte_input_with_authenticated_encryption
      hc shared_secret rng sk1 pk2"
    and "null_encryption_serializes_and_deserializes_data ac rng"
    and "authenticated_encryption_encrypts_and_decrypts_data ac shared_secret rng pk1 sk1 pk2 sk2"
    and "anonymous_encryption ac rng pk1 sk1"
proof -
  have len: "unwrapped (encrypt hc r e w) (\<lambda>b. length b = enc_size_len e)" for r e w
  proof -
    from hc(2) have "encodes hc w" by blast
    then obtain bs where bs: "encrypt hc r e w = Inr bs" by (rule encodesE)
    with encrypted_header_length [OF hc(1) bs] show ?thesis by (simp add: unwrapped_def)
  qed
  show "encrypt_always_returns_constant_length_byte_array_for_4_byte_input_with_anonymous_encryption hc rng pk1"
    unfolding encrypt_always_returns_constant_length_byte_array_for_4_byte_input_with_anonymous_encryption_def
      Let_def list_all_iff
    using len [of _ "AnonymousEncrypt pk1"]
    by (auto simp: context_ctor_defs enc_size_len_def split: prod.split)
  show "encrypt_always_returns_constant_length_byte_array_for_4_byte_input_with_authenticated_encryption
      hc shared_secret rng sk1 pk2"
    unfolding encrypt_always_returns_constant_length_byte_array_for_4_byte_input_with_authenticated_encryption_def
      Let_def list_all_iff
    using len [of _ "EncryptContext.Authenticated (shared_secret sk1 pk2)"]
    by (auto simp: context_ctor_defs enc_size_len_def split: prod.split)
  have "shared_secret sk1 pk2 = shared_secret sk2 pk1"
    using keys unfolding agree_on_secret_def by blast
  then show "authenticated_encryption_encrypts_and_decrypts_data ac shared_secret rng pk1 sk1 pk2 sk2"
    unfolding authenticated_encryption_encrypts_and_decrypts_data_def Let_def
    by (intro encrypt_then_decrypt [OF ac]) (simp add: context_ctor_defs)
  show "null_encryption_serializes_and_deserializes_data ac rng"
    unfolding null_encryption_serializes_and_deserializes_data_def Let_def
    by (intro encrypt_then_decrypt [OF ac]) (simp add: context_ctor_defs)
  show "anonymous_encryption ac rng pk1 sk1"
    unfolding anonymous_encryption_def Let_def
    by (intro encrypt_then_decrypt [OF ac]) (simp add: context_ctor_defs keys)
qed

text \<open>A message that encodes to a good frame is read back, whatever follows it in the buffer.\<close>

lemma frame_is_read_back:
  assumes "linked keypair hc mc e d" and "\<forall>w. encodes hc w" and "encodes mc m"
  shows "\<exists>frame. serialize_with_len hc mc rng m e = Inr frame \<and>
    (\<forall>rest. try_read_pure hc mc \<lparr> LenDelimitedReader.read_buffer = frame @ rest, read_len = 0,
        max_payload_size = DEFAULT_MAX_PAYLOAD_SIZE, dec_ctx = d \<rparr> =
      (Inr (Some m), \<lparr> LenDelimitedReader.read_buffer = rest, read_len = 0,
        max_payload_size = DEFAULT_MAX_PAYLOAD_SIZE, dec_ctx = d \<rparr>))"
proof -
  obtain body where body: "encrypt mc rng e m = Inr body" "0 < length body"
    "length body \<le> DEFAULT_MAX_PAYLOAD_SIZE" by (rule encodesE [OF assms(3)])
  from assms(2) have "encodes hc (of_nat (length body))" by blast
  then obtain hdr where hdr: "encrypt hc (Suc rng) e (of_nat (length body)) = Inr hdr" by (rule encodesE)
  have ser: "serialize_with_len hc mc rng m e = Inr (hdr @ body)"
    using body(1) hdr by (simp add: serialize_with_len_def)
  have "length hdr = enc_size_len e"
    using assms(1) encrypted_header_length [OF _ hdr] by (simp add: linked_def)
  then have "body_fits DEFAULT_MAX_PAYLOAD_SIZE e (hdr @ body)"
    using body(2,3) by (simp add: body_fits_def DEFAULT_MAX_PAYLOAD_SIZE_def)
  with ser try_read_frame [OF _ ser, where keypair = keypair and
      rd = "\<lparr> LenDelimitedReader.read_buffer = (hdr @ body) @ rest, read_len = 0,
        max_payload_size = DEFAULT_MAX_PAYLOAD_SIZE, dec_ctx = d \<rparr>" for rest] assms(1)
  show ?thesis by simp
qed

lemma header_is_written:
  assumes "header_contract hc" and "\<forall>w. encodes hc w" and "\<forall>m. length m < 65000 \<longrightarrow> encodes mc m"
    and "data_len < 65000"
  shows "it_writes_encrypted_data_length hc mc rng data_len"
proof -
  let ?m = "replicate data_len 1 :: byte list"
  have "encodes mc ?m" using assms(3,4) by simp
  then obtain body where body: "encrypt mc rng EncryptContext.Null ?m = Inr body" by (rule encodesE)
  from assms(2) have "encodes hc (of_nat (length body))" by blast
  then obtain hdr where hdr: "encrypt hc (Suc rng) EncryptContext.Null (of_nat (length body)) = Inr hdr"
    by (rule encodesE)
  have "serialise mc ?m = Inr body"
    using body by (simp add: encrypt_def try_op_eq_Inr)
  with body hdr encrypted_header_length [OF assms(1) hdr] show ?thesis
    by (simp add: it_writes_encrypted_data_length_def serialize_with_len_def unwrapped_def
        context_ctor_defs size_len_defs)
qed

lemma encrypted_frame_is_read:
  assumes "codec_contract keypair hc" and "header_contract hc" and "codec_contract keypair sc"
    and "keypair pk2 sk2" and "\<forall>w. encodes hc w" and "encodes sc ''message123''"
    and "keypair pk1 sk1" and "agree_on_secret keypair shared_secret"
  shows "data_read_write_with_encryption hc sc shared_secret rng pk1 sk1 pk2 sk2"
proof -
  have same: "shared_secret sk1 pk2 = shared_secret sk2 pk1"
    using assms(4,7,8) unfolding agree_on_secret_def by blast
  then have "linked keypair hc sc (EncryptContext.Authenticated (shared_secret sk1 pk2))
      (DecryptContext.Authenticated (shared_secret sk2 pk1))"
    using assms(1-3) by (simp add: linked_def)
  from frame_is_read_back [OF this assms(5,6), of rng] obtain g where
    g: "serialize_with_len hc sc rng ''message123'' (EncryptContext.Authenticated (shared_secret sk1 pk2)) = Inr g"
    "fst (try_read_pure hc sc \<lparr> LenDelimitedReader.read_buffer = g, read_len = 0,
      max_payload_size = DEFAULT_MAX_PAYLOAD_SIZE,
      dec_ctx = DecryptContext.Authenticated (shared_secret sk2 pk1) \<rparr>) = Inr (Some ''message123'')"
    by (metis append_Nil2 fst_conv)
  then show ?thesis
    by (simp add: data_read_write_with_encryption_def unwrapped_def context_ctor_defs put_buf_def
        LenDelimitedReader_new_def DecryptContext_default_def Let_def)
qed

lemma tcp_tests:
  assumes hc: "codec_contract keypair hc" "header_contract hc" "\<forall>w. encodes hc w"
      "deserialise hc [0, 0, 0, 0] = Inr 0"
    and mc: "codec_contract keypair mc" "\<forall>m. length m < 65000 \<longrightarrow> encodes mc m"
    and sc: "codec_contract keypair sc" "encodes sc ''message123''"
    and keys: "keypair pk1 sk1" "keypair pk2 sk2" "agree_on_secret keypair shared_secret"
  shows "data_len < 65000 \<Longrightarrow> it_writes_encrypted_data_length hc mc rng data_len"
    and "it_deserializes_data_from_bytes hc mc rng"
    and "it_deserializes_data_from_bytes_when_there_is_extra_bytes_buffered hc mc rng rng'"
    and "when_data_len_is_0_it_returns_none hc mc"
    and "when_data_len_is_0_it_returns_false hc"
    and "data_read_write_with_encryption hc sc shared_secret rng pk1 sk1 pk2 sk2"
proof -
  have link: "linked keypair hc mc EncryptContext.Null DecryptContext.Null"
    using hc mc by (simp add: linked_def)
  have short: "encodes mc [1, 2, 3]" "encodes mc [4]"
    using mc(2) by simp_all
  have new: "put_buf b (LenDelimitedReader_new 2097152) =
      \<lparr> LenDelimitedReader.read_buffer = b, read_len = 0,
        max_payload_size = DEFAULT_MAX_PAYLOAD_SIZE, dec_ctx = DecryptContext.Null \<rparr>" for b
    by (simp add: put_buf_def LenDelimitedReader_new_def config_defaults)
  obtain f where f: "serialize_with_len hc mc rng [1, 2, 3] EncryptContext.Null = Inr f"
    and rd: "\<And>rest. fst (try_read_pure hc mc (put_buf (f @ rest) (LenDelimitedReader_new 2097152))) =
        Inr (Some [1, 2, 3])"
    using frame_is_read_back [OF link hc(3) short(1), of rng] by (auto simp: new)
  obtain f' where f': "serialize_with_len hc mc rng' [4] EncryptContext.Null = Inr f'"
    using frame_is_read_back [OF link hc(3) short(2), of rng'] by auto
  show "it_deserializes_data_from_bytes hc mc rng"
    using f rd [of "[]"] by (simp add: it_deserializes_data_from_bytes_def unwrapped_def context_ctor_defs)
  show "it_deserializes_data_from_bytes_when_there_is_extra_bytes_buffered hc mc rng rng'"
    using f f' rd [of f']
    by (simp add: it_deserializes_data_from_bytes_when_there_is_extra_bytes_buffered_def
        unwrapped_def context_ctor_defs put_buf_def)
  show "when_data_len_is_0_it_returns_none hc mc" "when_data_len_is_0_it_returns_false hc"
    using hc(4)
    by (simp_all add: when_data_len_is_0_it_returns_none_def when_data_len_is_0_it_returns_false_def new
        try_read_header_in_range try_read_pure_def try_read_header_pure_def decrypt_def size_len_defs unwrapped_def Let_def)
  show "it_writes_encrypted_data_length hc mc rng data_len" if "data_len < 65000"
    using hc(2,3) mc(2) that by (rule header_is_written)
  show "data_read_write_with_encryption hc sc shared_secret rng pk1 sk1 pk2 sk2"
    using hc(1,2) sc(1) keys(2) hc(3) sc(2) keys(1,3) by (rule encrypted_frame_is_read)
qed

section \<open>\<open>udp.rs\<close>\<close>

text \<open>\<open>ErrorKind::WouldBlock.into()\<close>.\<close>

definition would_block :: io_error where
  "would_block = IoError ErrorKind.WouldBlock ''operation would block''"

definition it_doesnt_alter_current_write_when_all_bytes_were_sent :: bool where
  "it_doesnt_alter_current_write_when_all_bytes_were_sent \<longleftrightarrow>
     (case handle_send_res (Inr 100) None 100 (replicate 100 (1 :: byte)) of
        (res, current) \<Rightarrow> unwrapped res (\<lambda>res. res = True) \<and> current = None)"

definition when_partial_message_was_sent_it_sets_current_write_to_data_to_be_sent_again :: bool where
  "when_partial_message_was_sent_it_sets_current_write_to_data_to_be_sent_again \<longleftrightarrow>
     (case handle_send_res (Inr 3) None 5 [1, 2, 3, 4, 5 :: byte] of
        (res, current) \<Rightarrow>
          unwrapped res (\<lambda>res. res = True) \<and> current = Some [1, 2, 3, 4, 5])"

definition when_result_is_error_would_block_it_returns_false :: bool where
  "when_result_is_error_would_block_it_returns_false \<longleftrightarrow>
     (case handle_send_res (Inl would_block) None 5 [1, 2, 3, 4, 5 :: byte] of
        (res, current) \<Rightarrow> unwrapped res (\<lambda>res. res = False))"

definition when_result_is_error_would_block_it_sets_current_write_to_data_to_be_sent_again :: bool where
  "when_result_is_error_would_block_it_sets_current_write_to_data_to_be_sent_again \<longleftrightarrow>
     (case handle_send_res (Inl would_block) None 5 [1, 2, 3, 4, 5 :: byte] of
        (_, current) \<Rightarrow> current = Some [1, 2, 3, 4, 5])"

definition it_returns_would_block :: bool where
  "it_returns_would_block \<longleftrightarrow>
     (case handle_recv_res is_empty_vec (Inl would_block) [] of
        (Inr (WouldBlock _), _) \<Rightarrow> True
      | _ \<Rightarrow> False)"

definition it_returns_last_buffered_item :: bool where
  "it_returns_last_buffered_item \<longleftrightarrow>
     (case handle_recv_res is_empty_vec (Inl would_block) [[1, 2, 3]] of
        (Inr (WouldBlock msg), _) \<Rightarrow> msg = Some [1, 2, 3]
      | _ \<Rightarrow> False)"

text \<open>Indexing the buffer out of range would panic.\<close>

definition it_pushes_buffer_to_the_read_queue :: bool where
  "it_pushes_buffer_to_the_read_queue \<longleftrightarrow>
     (case handle_recv_res is_empty_vec (Inr [1, 2, 3]) [] of
        (_, read_buf) \<Rightarrow> 0 < length read_buf \<and> read_buf ! 0 = [1, 2, 3])"

definition when_buff_is_empty_it_just_returns_continue_recv :: bool where
  "when_buff_is_empty_it_just_returns_continue_recv \<longleftrightarrow>
     (case handle_recv_res is_empty_vec (Inr []) [] of
        (Inr ContinueRecv, read_buf) \<Rightarrow> length read_buf = 0
      | _ \<Rightarrow> False)"

lemma udp_tests:
  "it_doesnt_alter_current_write_when_all_bytes_were_sent"
  "when_partial_message_was_sent_it_sets_current_write_to_data_to_be_sent_again"
  "when_result_is_error_would_block_it_returns_false"
  "when_result_is_error_would_block_it_sets_current_write_to_data_to_be_sent_again"
  "it_returns_would_block" "it_returns_last_buffered_item"
  "it_pushes_buffer_to_the_read_queue" "when_buff_is_empty_it_just_returns_continue_recv"
  unfolding it_doesnt_alter_current_write_when_all_bytes_were_sent_def
    when_partial_message_was_sent_it_sets_current_write_to_data_to_be_sent_again_def
    when_result_is_error_would_block_it_returns_false_def
    when_result_is_error_would_block_it_sets_current_write_to_data_to_be_sent_again_def
    it_returns_would_block_def it_returns_last_buffered_item_def
    it_pushes_buffer_to_the_read_queue_def when_buff_is_empty_it_just_returns_continue_recv_def
  by (simp_all add: handle_send_res_def handle_recv_res_def would_block_def is_empty_vec_def unwrapped_def)

section \<open>Properties\<close>

text \<open>
  C39. The unit tests of \<open>OutQueue\<close> pass in the model for every run of the clock: whatever readings
  the tests take, as long as they do not decrease, the machine has been up for 200 seconds, and a
  test takes less than six seconds.
\<close>

theorem queue_unit_tests_pass:
  assumes "secs 200 \<le> t1" and "t1 \<le> t2" and "t2 \<le> t3" and "t3 \<le> t4"
    and "\<And>p. t4 \<le> now p \<and> now p < t1 + secs 6"
  shows "it_returns_true_when_queue_priority_is_smaller_than_minimum_drop_priority (now 1) \<and>
    it_returns_true_when_queue_is_empty (now 2) \<and>
    it_returns_false_when_first_queue_is_expired t1 (now 2) \<and>
    it_returns_true_when_first_queue_item_is_not_expired t1 (now 2) \<and>
    it_returns_list_of_expired_queues t1 t2 t3 now \<and>
    when_first_queue_is_expired_it_wont_check_any_further t1 t2 t3 t4 now \<and>
    it_drops_queues_with_expired_messages t1 t2 t3 now \<and>
    it_does_not_drop_expired_message_whose_priority_is_lower_than_drop_priority t1 t2 now \<and>
    it_returns_none_if_no_data_is_queued \<and> it_returns_next_message_when_data_is_queued t1 \<and>
    it_returns_next_message_from_lower_priority_queue t1 t2 \<and> it_removes_queue_if_it_had_only_1_element t1"
proof -
  have up: "secs n \<le> t1" if "n \<le> 200" for n
    using assms(1) that by (simp add: secs_def)
  have now: "t4 \<le> now p" "now p < t1 + secs 6" "t3 \<le> now p" "t1 \<le> now p" for p
    using assms(2-4) assms(5) [of p] by linarith+
  show ?thesis
    using assms(1-4) now up [of 5] up [of 100]
    by (simp add: is_queue_valid_tests expired_queues_tests drop_expired_tests next_msg_tests)
qed

theorem queue_unit_tests_pass_witness:
  "it_returns_list_of_expired_queues (secs 300) (secs 301) (secs 302) (\<lambda>p. secs 305 + unat p) \<and>
   it_drops_queues_with_expired_messages (secs 300) (secs 301) (secs 302) (\<lambda>p. secs 305 + unat p)"
proof -
  have "secs 303 \<le> secs 305 + unat p \<and> secs 305 + unat p < secs 300 + secs 6" for p :: Priority
  proof -
    have "unat p < 2 ^ LENGTH(8)" by (rule unsigned_less)
    then show ?thesis by (simp add: secs_def)
  qed
  from queue_unit_tests_pass [OF _ _ _ _ this, of "secs 301" "secs 302"] show ?thesis
    by (simp add: secs_def)
qed

text \<open>A codec that writes a length of eight bytes in front of a sequence, as bincode does.\<close>

definition vec_codec :: "('m \<Rightarrow> byte list) \<Rightarrow> (byte list \<Rightarrow> 'm) \<Rightarrow> (nat, 'm) codec" where
  "vec_codec to from =
     (let put = \<lambda>m. le32_encode (of_nat (length (to m))) @ replicate 4 0 @ to m;
          get = \<lambda>bs. from (drop 8 bs)
      in \<lparr> serialise = (\<lambda>m. Inr (put m)),
           deserialise = (\<lambda>bs. Inr (get bs)),
           shared_encrypt = (\<lambda>k rng m. Inr (put m @ pad k)),
           shared_decrypt = (\<lambda>k bs. map_sum id get (unpad k bs)),
           anonymously_encrypt = (\<lambda>pk rng m. Inr (put m @ pad pk)),
           anonymously_decrypt = (\<lambda>sk bs pk. map_sum id get (unpad pk bs)) \<rparr>)"

lemma vec_codec_contract: "(\<And>m. from (to m) = m) \<Longrightarrow> codec_contract keypair (vec_codec to from)"
  using unpad_pad [of _ "a @ b @ c" for a b c] by (auto simp: codec_contract_def vec_codec_def Let_def)

lemma vec_codec_encodes: "length (to m) < 65000 \<Longrightarrow> encodes (vec_codec to from) m"
  by (auto simp: encodes_def encrypt_def vec_codec_def Let_def pad_def DEFAULT_MAX_PAYLOAD_SIZE_def
      split: EncryptContext.split)

lemma le32_codec_encodes: "encodes le32_codec w"
  by (auto simp: encodes_def encrypt_def le32_codec_def pad_def DEFAULT_MAX_PAYLOAD_SIZE_def
      le32_encode_def split: EncryptContext.split)

text \<open>
  C40. The unit tests of the crypto contexts, of the framing and of the UDP result handlers pass in
  the model for all keys, all random choices of the ciphers and every codec with the documented
  behaviour: it reads back what it wrote, bincode writes a \<open>u32\<close> in 4 bytes, the ciphers add their
  nonces, lengths and tags (\<open>header_contract\<close>, in which the crate's constants do not occur), every value
  the tests use has an encoding, and both ends compute the same shared secret. What rests on the crate is
  that its two length constants are the right sums, that the contexts of the two ends call
  matching operations, that frames are written and read as the tests say, for every length of data
  below 65000, and what the handlers of UDP results do.
\<close>

theorem socket_unit_tests_pass:
  assumes "codec_contract keypair hc" and "header_contract hc" and "\<forall>w. encodes hc w"
    and "deserialise hc [0, 0, 0, 0] = Inr 0"
    and "codec_contract keypair mc" and "\<forall>m. length m < 65000 \<longrightarrow> encodes mc m"
    and "codec_contract keypair sc" and "encodes sc ''message123''"
    and "keypair pk1 sk1" and "keypair pk2 sk2" and "agree_on_secret keypair shared_secret"
  shows "encrypt_always_returns_constant_length_byte_array_for_4_byte_input_with_anonymous_encryption hc rng pk1 \<and>
    encrypt_always_returns_constant_length_byte_array_for_4_byte_input_with_authenticated_encryption
      hc shared_secret rng sk1 pk2 \<and>
    null_encryption_serializes_and_deserializes_data mc rng \<and>
    authenticated_encryption_encrypts_and_decrypts_data mc shared_secret rng pk1 sk1 pk2 sk2 \<and>
    anonymous_encryption mc rng pk1 sk1 \<and>
    (\<forall>data_len < 65000. it_writes_encrypted_data_length hc mc rng data_len) \<and>
    it_deserializes_data_from_bytes hc mc rng \<and>
    it_deserializes_data_from_bytes_when_there_is_extra_bytes_buffered hc mc rng rng' \<and>
    when_data_len_is_0_it_returns_none hc mc \<and> when_data_len_is_0_it_returns_false hc \<and>
    data_read_write_with_encryption hc sc shared_secret rng pk1 sk1 pk2 sk2 \<and>
    it_doesnt_alter_current_write_when_all_bytes_were_sent \<and>
    when_partial_message_was_sent_it_sets_current_write_to_data_to_be_sent_again \<and>
    when_result_is_error_would_block_it_returns_false \<and>
    when_result_is_error_would_block_it_sets_current_write_to_data_to_be_sent_again \<and>
    it_returns_would_block \<and> it_returns_last_buffered_item \<and>
    it_pushes_buffer_to_the_read_queue \<and> when_buff_is_empty_it_just_returns_continue_recv"
proof -
  have "encodes mc test123" using assms(6) by (simp add: test123_def)
  note crypto = crypto_tests [OF assms(2,3,5) this assms(9-11)] tcp_tests [OF assms]
  show ?thesis
    by (intro conjI allI impI) (simp_all only: crypto udp_tests)
qed

theorem socket_unit_tests_pass_witness:
  "data_read_write_with_encryption le32_codec
     (vec_codec (map (\<lambda>c. of_nat (of_char c))) (map (\<lambda>b. char_of (unat b)))) (+) 0 5 5 8 8 \<and>
   it_writes_encrypted_data_length le32_codec (vec_codec id id) 0 64999"
proof -
  have char: "char_of (unat (of_nat (of_char c) :: byte)) = c" for c
    by (simp add: unat_of_nat take_bit_eq_mod)
  have from_to: "map (\<lambda>b. char_of (unat b)) (map (\<lambda>c. of_nat (of_char c) :: byte) s) = s" for s
    by (simp add: char map_idI)
  have hc0: "deserialise le32_codec [0, 0, 0, 0] = Inr 0"
    by (simp add: le32_codec_def read_le32_def)
  have secret: "agree_on_secret (=) ((+) :: nat \<Rightarrow> nat \<Rightarrow> nat)"
    by (auto simp: agree_on_secret_def)
  note sc = vec_codec_contract [of "map (\<lambda>b. char_of (unat b))" "map (\<lambda>c. of_nat (of_char c) :: byte)"]
    vec_codec_encodes [of "map (\<lambda>c. of_nat (of_char c) :: byte)" "''message123''" "map (\<lambda>b. char_of (unat b))"]
  show ?thesis
    using socket_unit_tests_pass [OF le32_codec_contract le32_codec_header _ hc0
        vec_codec_contract [of id id] _ sc(1) sc(2) _ _ secret, of 5 5 8 8 0 0] from_to
    by (simp add: le32_codec_encodes vec_codec_encodes)
qed

end
