(* ===== verification/Spec2Isabelle.thy ===== *)
theory Spec2Isabelle
  imports Tcp_Transfer Udp_Exchange Tcp_Bounds Tcp_Faults Udt_Connection Udt_Loop_Run Socket_Api Stream_Parser Unit_Tests
begin

text \<open>
  A verification development of the Rust crate \<open>socket-collection\<close>: message sockets on top of the
  asynchronous \<open>mio\<close> sockets. A socket takes whole messages with a priority, serialises and encrypts
  them, queues them, and sends what the operating system accepts without blocking; messages that
  wait too long and may be dropped are dropped. At the other end the messages are taken out of the
  byte stream or the datagrams again.

  \<^bold>\<open>Parts and theories\<close>, in the order in which they build on each other:

  \<^item> \<open>Prelude\<close>: machine types, panics (\<open>outcome\<close>), Rust's slices \<open>v[..n]\<close> and \<open>v[n..]\<close>, which panic
    out of range (\<open>slice_to\<close>, \<open>slice_from\<close>), Rust's unbounded \<open>loop\<close> (\<open>rust_loop\<close>, with a
    partial-correctness, a termination and a divergence rule), little-endian \<open>u32\<close>, list facts.

  \<^item> \<open>Btree_Map\<close>: \<open>BTreeMap\<close> as a sorted association list, and the locale \<open>ordered_map\<close> of the laws
    the queue relies on.

  \<^item> \<open>Errors\<close> (\<open>src/error.rs\<close>), \<open>Crypto_Ctx\<close> (\<open>src/crypto.rs\<close>), \<open>Config\<close> (\<open>src/lib.rs\<close>): the error
    type with its texts, the two contexts with \<open>encrypt\<close>, \<open>decrypt\<close> and \<open>encrypted_size_len\<close>, and
    \<open>SocketConfig\<close>.

  \<^item> \<open>Out_Queue\<close> (\<open>src/out_queue.rs\<close>): \<open>OutQueue\<close> with every operation. Its abstract view is the
    list of messages in sending order; the operations refine \<open>spec_push\<close>, taking the head, and
    \<open>spec_drop\<close>. The locale \<open>send_queue\<close> is what the sockets rely on.

  \<^item> \<open>Len_Reader\<close> (\<open>src/tcp.rs\<close>, lines 395 to 471): \<open>serialize_with_len\<close> and \<open>LenDelimitedReader\<close>;
    round trip, reassembly from arbitrary pieces, error and edge cases. The operations that slice the
    buffer may panic; \<open>try_read_pure\<close>, \<open>try_read_header_pure\<close> and \<open>mark_read_pure\<close> are the same over
    total list functions, for proofs, and \<open>try_read_in_range\<close> and its companions show that the code
    equals them, that is, never panics. The readers of TCP and UDT are treated alike. \<open>Stream_Parser\<close> is a
    reference parser of the whole stream, well formed or not, and the proof that the reader
    delivers what it finds; there the cast of the length to 32 bits is followed through.

  \<^item> \<open>Mio\<close>: the calls the sockets make on \<open>mio\<close> as records of functions over a state, and the
    lazily initialised socket (\<open>Option<Inner>\<close>).

  \<^item> \<open>Flush_Loop\<close> and \<open>Recv_Loop\<close>: locales for what the flush loops of TCP, UDP and UDT and the two
    receive loops of UDP share, interpreted on the model's turns in the theories of the sockets.

  \<^item> \<open>Mailbox\<close>: the abstract specification of a sender, a mailbox of tagged messages with the events
    expire, accept and depart; \<open>delivered\<close> compares what has left it with what it accepted.

  \<^item> \<open>Send_Order\<close>: the simulation relation between a socket and the mailbox (\<open>mirrors\<close>; after an
    error, \<open>cut_by\<close> says what may be missing at the end of the wire: some bytes of the last frame, or
    exactly the one datagram that met the error), the locale \<open>ordered_flush\<close>, which takes it from one turn of a flush loop to the
    loop, and the locale \<open>mail_sender\<close>, which takes it to calls of \<open>write\<close> and to whole sessions.
    \<open>Drain\<close> extends it by the locale \<open>draining_sender\<close> with the liveness argument. TCP, both halves
    of UDP, and UDT interpret all three.

  \<^item> \<open>Read_Order\<close>: sequences of calls of \<open>read\<close>, and the locale \<open>message_reader\<close>, which takes one look
    into the buffer and one turn of the loop to what any such sequence hands out; for TCP and UDT.

  \<^item> \<open>Tcp_Sock\<close> (the rest of \<open>src/tcp.rs\<close>), \<open>Udp_Sock\<close> (\<open>src/udp.rs\<close>), \<open>Socket_Enum\<close>
    (\<open>src/socket.rs\<close>): \<open>TcpInner\<close> and \<open>UdpInner\<close> are the two structs named \<open>Inner\<close>; every method,
    \<open>Evented\<close>, \<open>Drop\<close>, \<open>Default\<close> and \<open>Debug\<close> has a definition of the same name behind the type's.

  \<^item> \<open>Tcp_Session\<close>, \<open>Udp_Session\<close> and \<open>Udp_Connected\<close>: any sequence of writes on one socket (for UDP
    with \<open>write_to\<close> and with \<open>write\<close>) and what the other end can make of it. Between two writes a
    session may do anything that leaves the sending half alone (\<open>elsewhere\<close>), which includes reads
    (\<open>TcpInner_read_same_sending\<close>).

  \<^item> \<open>Tcp_Connection\<close>: two sockets and the stream between them, the sender in any session, the
    receiver calling \<open>read\<close> at any times with any answers (\<open>tcp_reading\<close>). \<open>Tcp_Bounds\<close>: how much the
    receiver holds back.

  \<^item> \<open>Tcp_Faults\<close>: what errors and interrupted calls of the stream do to a program that goes on.

  \<^item> \<open>Tcp_Liveness\<close> and \<open>Udp_Liveness\<close>: a program that answers every writable event with a write of
    nothing gets everything out, and a call that tells it to wait has brought the stream to where
    it blocks or was interrupted.

  \<^item> \<open>Test_Setup\<close>, \<open>Tcp_Transfer\<close>, \<open>Udp_Tests\<close> and \<open>Udp_Exchange\<close>: the integration tests
    (\<open>tests/tcp.rs\<close>, \<open>tests/udp.rs\<close>) as state machines over the events of their polls. Each has the set-up of
    the test (\<open>transfer_start\<close>, \<open>any_endpoint_start\<close>, \<open>only_connected_start\<close>, \<open>exchange_start\<close>), what an
    event does, and an inductive relation of the states reached, in which the poll's order of events and
    what the system delivers are open. The exchange test runs two threads: \<open>sender_step\<close> and \<open>main_event\<close>,
    \<open>main_signal\<close> interleave, with the flag and the channel in the shared state.

  \<^item> \<open>Socket_Api\<close>: programs, that is, sequences of calls of the whole public interface on a socket
    from any constructor (\<open>call\<close>, \<open>perform\<close>, \<open>run\<close>, \<open>constructed\<close>); the locale \<open>safe_calls\<close> takes
    what one call keeps to what a program keeps.

  \<^item> \<open>Unit_Tests\<close>: the \<open>#[test]\<close> functions of the four modules that have them, as definitions of the
    source's names that say whether the test passes; clock readings, keys, random choices and
    codecs are arguments.

  \<^item> \<open>Udt_Loop\<close> and \<open>Udt_Loop_Run\<close> (\<open>src/udt/udt_event_loop.rs\<close>): one turn of the UDT event loop with
    its shared set of actions and its handles, and the thread as a whole. \<open>Udt_Sock\<close>
    (\<open>src/udt/udt_sock.rs\<close>), \<open>Udt_Session\<close> and \<open>Udt_Connection\<close>: the UDT socket, its sessions, and two of
    them connected. The crate carries this code but no longer compiles it.

  (Paths are those of the crate: \<open>src/error.rs\<close> is \<open>src/src/error.rs\<close> of the tree.)

  \<^bold>\<open>State and operations.\<close> A struct is a record with the source's fields, a \<open>&mut self\<close> method a
  function from the old state to its result and the new state, \<open>Result\<close> a sum with the error on
  the left, a panic the value \<open>Panicked\<close>. The panics there are: \<open>unwrap\<close> in the
  queue, in the tests and in wrapping a UDT socket, assertions of the tests, and the slices of the
  frame readers (\<open>try_read\<close>, \<open>try_read_header\<close>, \<open>mark_read\<close>, and the reader of UDT) and of the writers
  (\<open>flush_turn\<close>, \<open>udt_send_turn\<close>). The slice \<open>buffer[..n]\<close> of what a read of the system stored is that
  answer itself, or, for UDT, a slice by the count the library reports. The body of each \<open>loop\<close> is a definition of its own
  (\<open>read_turn\<close>, \<open>flush_turn\<close>, \<open>recv_turn\<close>, \<open>send_turn\<close>, ...), run by \<open>rust_loop\<close>, whose result is
  \<open>None\<close> exactly when the loop never ends. No fuel is used; the loops are proved to end under
  conditions on the operating system (\<open>tcp_progress\<close>, \<open>finite_backlog\<close>, \<open>whole_sends\<close>,
  \<open>no_truncation\<close>, \<open>finite_arrivals\<close>; \<open>well_behaved\<close> is what a program on any socket needs), and to
  diverge where these fail; the UDT event loop ends exactly when it is told to. Liveness asks in
  addition that the stream accepts data again and again (\<open>accepts\<close>, \<open>udt_accepts\<close>) and does not break
  (\<open>never_breaks\<close>, \<open>udt_lively\<close>).

  \<^bold>\<open>What is a parameter.\<close> \<open>mio\<close> and the operating system (\<open>tcp_ops\<close>, \<open>udp_ops\<close>), the UDT library
  (\<open>udt_ops\<close>, \<open>epoll_ops\<close>), serialisation and cryptography (\<open>codec\<close>; randomness is an argument).
  What they promise is stated as predicates (\<open>codec_contract\<close>, \<open>header_contract\<close>,
  \<open>tcp_write_contract\<close>, \<open>tcp_read_contract\<close>, \<open>whole_sends\<close>, \<open>udt_write_contract\<close>, \<open>udt_read_contract\<close> (with \<open>udt_counts\<close>: the library reports no more bytes than the
  buffer holds),
  \<open>reads_back\<close>, \<open>loopback\<close>, \<open>udp_loopback\<close>, \<open>exchange_system\<close>) and met by the concrete instances the witnesses use. \<open>header_contract\<close>
  gives the lengths of the libraries' formats (4 bytes for a \<open>u32\<close>, the nonces and tags of the
  ciphers); that the crate's two constants are these lengths is proved. Clock readings are arguments (\<open>readings\<close>: expiration takes one for each priority it
  looks at). \<open>usize\<close> is a natural number, since it is only compared; the cast of a length to \<open>u32\<close>
  wraps as in the code.

  \<^bold>\<open>What the lemmas show.\<close> For the queue: invariant, refinement of the sending order, which messages
  expiration can and cannot drop. For the frames: every message is delivered once and in order
  however the bytes are cut, and on any stream the reader is the reference parser; the size limit is
  enforced, but only once; empty frames are lost; the length of a frame wraps at 32 bits. For the
  sockets: no sequence of calls panics, a well-behaved system makes every call return, every write
  is a run of the mailbox and its answers mean what they document, reads equal a reference and leave
  less than a frame behind; end to end, messages keep their order within a priority, those that may
  not be dropped all arrive, and what is queued eventually leaves, over all three transports. An
  error in the middle of a frame breaks the framing for good, and an interrupted call is taken for
  one that would block. The unit tests of the source pass, for every codec and key and for every run
  of the clock in which a test takes less than six seconds. The integration test of TCP and that of an
  unconnected UDP socket cannot fail on a loopback interface; that of a connected one fails only if
  nothing arrives in time; the exchange of many datagrams fails only if too many are lost, or by a race
  of its two threads, which is shown to be possible. For UDT: the inlined queue is the outgoing queue, the event loop
  equals a reference that looks at the last action on each socket, only registered tokens are
  notified and registered ones are, handles are refused only after the loop was dropped, and the
  order in which a turn applies queued actions matters, also when one of them shuts the loop down.

  \<^bold>\<open>Not modelled.\<close> Logging (with the expressions that are only logged), sleeping and the durations of timers, thread creation, the poll itself, the
  registration of listeners and timers, capacity hints, the clone of a handle, which is one more reference to the shared set, and the cast of a file descriptor in
  \<open>mio_to_std_udp_sock\<close>.
\<close>

end
